(* ===== verification/Prelude.thy ===== *)
theory Prelude
  imports Main "HOL-Library.Word" "HOL-Library.List_Lexorder"
begin

text \<open>
  Shared vocabulary of the PaddockKV development: the machine integers, byte strings and
  user keys of the engine, the error tree of \<^verbatim>\<open>crates/paddock-core/src/error.rs\<close> with
  the result type every fallible operation returns, the slice operations of the language,
  little-endian fixed-width integers, decimal and hexadecimal printing, and the generic
  facts on lists and words that the component theories use.

  Conventions.  A \<^verbatim>\<open>u8/u16/u32/u64\<close> that is stored on disk, or whose wrap-around or
  truncation matters, is an \<open>n word\<close>.  A \<^verbatim>\<open>usize\<close> that counts bytes of a buffer in memory
  (the length of a \<^verbatim>\<open>Vec\<close>, an index, a cursor in a file) is a \<open>nat\<close>: buffers are at most
  \<^verbatim>\<open>isize::MAX\<close> bytes long, so adding a header size to such a count does not overflow on
  the 64-bit targets of the engine.  Every cast the source makes from such a count to a
  narrower integer is written out with \<open>of_nat\<close>, which truncates as \<^verbatim>\<open>as\<close> does.
\<close>

unbundle bit_operations_syntax

named_theorems result_simps \<open>case analysis on results\<close>
named_theorems le_simps \<open>little-endian encodings: lengths and round trips\<close>

type_synonym u8 = "8 word"
type_synonym u16 = "16 word"
type_synonym u32 = "32 word"
type_synonym u64 = "64 word"
type_synonym bytes = "8 word list"
type_synonym key = "8 word list"

section \<open>Comparison\<close>

text \<open>\<^verbatim>\<open>std::cmp::Ordering\<close> and \<^verbatim>\<open>Ord::cmp\<close>; byte strings compare lexicographically.\<close>

datatype ordering = Less | Equal | Greater

definition cmp :: "'a::linorder \<Rightarrow> 'a \<Rightarrow> ordering" where
  "cmp a b = (if a < b then Less else if a = b then Equal else Greater)"

lemma cmp_iff [simp]:
  "cmp a b = Less \<longleftrightarrow> a < b"
  "cmp a b = Equal \<longleftrightarrow> a = b"
  "cmp a b = Greater \<longleftrightarrow> b < a"
  by (auto simp: cmp_def)

lemma cmp_self [simp]: "cmp a a = Equal"
  by simp

section \<open>Errors and results\<close>

text \<open>
  \<^verbatim>\<open>DecodeError\<close> and \<^verbatim>\<open>Error\<close> of error.rs.  The last constructor is not an error value of
  the source: it is the outcome of a failed \<^verbatim>\<open>expect\<close>, a failed \<^verbatim>\<open>assert!\<close>, or a slice
  index out of range, all of which panic.
\<close>

datatype decode_error =
    UnexpectedEof nat
  | VarintOverflow nat
  | NonCanonicalVarint

datatype io_kind =
    NotFound
  | InvalidInput
  | IoUnexpectedEof
  | WriteZero
  | WouldBlock
  | Unsupported
  | Other

datatype error =
    Io io_kind string
  | Decode decode_error
  | ChecksumMismatch string u64 u64
  | InvalidFormat string string
  | Corruption string string
  | InvalidArgument string
  | Shutdown
  | Panic string

type_synonym 'a result = "error + 'a"

definition invalid_format_static :: "string \<Rightarrow> string \<Rightarrow> error" where
  "invalid_format_static context reason = InvalidFormat context reason"

definition corruption_static :: "string \<Rightarrow> string \<Rightarrow> error" where
  "corruption_static context reason = Corruption context reason"

text \<open>The \<^verbatim>\<open>?\<close> operator: stop at the first error, go on with the value otherwise.\<close>

definition and_then :: "'e + 'a \<Rightarrow> ('a \<Rightarrow> 'e + 'b) \<Rightarrow> 'e + 'b" where
  "and_then m f = (case m of Inl e \<Rightarrow> Inl e | Inr x \<Rightarrow> f x)"

definition ok_or :: "'a option \<Rightarrow> 'e \<Rightarrow> 'e + 'a" where
  "ok_or m e = (case m of None \<Rightarrow> Inl e | Some x \<Rightarrow> Inr x)"

lemma and_then_simps [simp]:
  "and_then (Inl e) f = Inl e"
  "and_then (Inr x) f = f x"
  by (simp_all add: and_then_def)

lemma and_then_cong [fundef_cong]:
  "m = m' \<Longrightarrow> (\<And>x. m' = Inr x \<Longrightarrow> f x = g x) \<Longrightarrow> and_then m f = and_then m' g"
  by (cases m') simp_all

lemma and_then_Inr_iff [result_simps]:
  "and_then m f = Inr y \<longleftrightarrow> (\<exists>x. m = Inr x \<and> f x = Inr y)"
  by (cases m) auto

lemma and_then_Inl_iff [result_simps]:
  "and_then m f = Inl e \<longleftrightarrow> m = Inl e \<or> (\<exists>x. m = Inr x \<and> f x = Inl e)"
  by (cases m) auto

lemma ok_or_simps [simp]:
  "ok_or None e = Inl e"
  "ok_or (Some x) e = Inr x"
  by (simp_all add: ok_or_def)

text \<open>A result that is not a panic; the panic-freedom properties are stated with it.\<close>

definition no_panic :: "'a result \<Rightarrow> bool" where
  "no_panic r \<longleftrightarrow> (case r of Inl (Panic _) \<Rightarrow> False | _ \<Rightarrow> True)"

lemma no_panic_Inr [simp]: "no_panic (Inr x)"
  by (simp add: no_panic_def)

lemma no_panic_Inl [simp]: "no_panic (Inl e) \<longleftrightarrow> (\<forall>m. e \<noteq> Panic m)"
  by (cases e) (simp_all add: no_panic_def)

lemma no_panic_and_then:
  "no_panic m \<Longrightarrow> (\<And>x. m = Inr x \<Longrightarrow> no_panic (f x)) \<Longrightarrow> no_panic (and_then m f)"
  by (cases m) simp_all

section \<open>Stateful operations\<close>

text \<open>
  An operation on a state that may fail: the state is returned on both ways, since what was
  done before an error stays done.  \<open>io_bind\<close> is sequencing with \<^verbatim>\<open>?\<close>.
\<close>

type_synonym ('s, 'a) io = "'s \<Rightarrow> 's \<times> 'a result"

definition io_return :: "'a \<Rightarrow> ('s, 'a) io" where
  "io_return x s = (s, Inr x)"

definition io_fail :: "error \<Rightarrow> ('s, 'a) io" where
  "io_fail e s = (s, Inl e)"

definition io_bind :: "('s, 'a) io \<Rightarrow> ('a \<Rightarrow> ('s, 'b) io) \<Rightarrow> ('s, 'b) io" where
  "io_bind m f s = (case m s of (s', Inl e) \<Rightarrow> (s', Inl e) | (s', Inr x) \<Rightarrow> f x s')"

text \<open>A step that only reads the state.\<close>

definition io_read :: "('s \<Rightarrow> 'a result) \<Rightarrow> ('s, 'a) io" where
  "io_read f s = (s, f s)"

lemma io_return_apply [simp]: "io_return x s = (s, Inr x)"
  by (simp add: io_return_def)

lemma io_fail_apply [simp]: "io_fail e s = (s, Inl e)"
  by (simp add: io_fail_def)

lemma io_bind_ok [simp]: "m s = (s', Inr x) \<Longrightarrow> io_bind m f s = f x s'"
  by (simp add: io_bind_def)

lemma io_bind_err [simp]: "m s = (s', Inl e) \<Longrightarrow> io_bind m f s = (s', Inl e)"
  by (simp add: io_bind_def)

lemma io_read_ok [simp]: "f s = r \<Longrightarrow> io_read f s = (s, r)"
  by (simp add: io_read_def)

section \<open>Slices\<close>

text \<open>\<^verbatim>\<open>&xs[a..]\<close> and \<^verbatim>\<open>&xs[a..b]\<close>: a panic when the range does not fit.\<close>

definition slice_from :: "'a list \<Rightarrow> nat \<Rightarrow> 'a list result" where
  "slice_from xs a =
     (if a \<le> length xs then Inr (drop a xs) else Inl (Panic ''slice start out of range''))"

definition slice_range :: "'a list \<Rightarrow> nat \<Rightarrow> nat \<Rightarrow> 'a list result" where
  "slice_range xs a b =
     (if a \<le> b \<and> b \<le> length xs then Inr (take (b - a) (drop a xs))
      else Inl (Panic ''slice range out of bounds''))"

lemma slice_from_ok [simp]: "a \<le> length xs \<Longrightarrow> slice_from xs a = Inr (drop a xs)"
  by (simp add: slice_from_def)

lemma slice_range_ok [simp]:
  "a \<le> b \<Longrightarrow> b \<le> length xs \<Longrightarrow> slice_range xs a b = Inr (take (b - a) (drop a xs))"
  by (simp add: slice_range_def)

lemma slice_range_mid:
  "slice_range (xs @ ys @ zs) (length xs) (length xs + length ys) = Inr ys"
  by simp

section \<open>Little-endian integers\<close>

text \<open>
  \<^verbatim>\<open>to_le_bytes\<close> and \<^verbatim>\<open>from_le_bytes\<close> of the language, and the little-endian field types of
  the on-disk headers: the least significant byte first.
\<close>

fun nat_to_le :: "nat \<Rightarrow> nat \<Rightarrow> bytes" where
  "nat_to_le 0 v = []"
| "nat_to_le (Suc n) v = of_nat v # nat_to_le n (v div 256)"

fun le_to_nat :: "bytes \<Rightarrow> nat" where
  "le_to_nat [] = 0"
| "le_to_nat (b # bs) = unat b + 256 * le_to_nat bs"

definition u16_to_le :: "u16 \<Rightarrow> bytes" where "u16_to_le w = nat_to_le 2 (unat w)"
definition u32_to_le :: "u32 \<Rightarrow> bytes" where "u32_to_le w = nat_to_le 4 (unat w)"
definition u64_to_le :: "u64 \<Rightarrow> bytes" where "u64_to_le w = nat_to_le 8 (unat w)"
definition u16_from_le :: "bytes \<Rightarrow> u16" where "u16_from_le bs = of_nat (le_to_nat bs)"
definition u32_from_le :: "bytes \<Rightarrow> u32" where "u32_from_le bs = of_nat (le_to_nat bs)"
definition u64_from_le :: "bytes \<Rightarrow> u64" where "u64_from_le bs = of_nat (le_to_nat bs)"

lemma length_nat_to_le [simp]: "length (nat_to_le n v) = n"
  by (induction n arbitrary: v) simp_all

lemma unat_of_nat_u8 [simp]: "unat (of_nat v :: u8) = v mod 256"
  by (simp add: unat_of_nat)

lemma unat_of_nat_less: "n < 2 ^ LENGTH('a) \<Longrightarrow> unat (of_nat n :: 'a::len word) = n"
  by (simp add: unat_of_nat)

lemma le_to_nat_nat_to_le: "le_to_nat (nat_to_le n v) = v mod 256 ^ n"
proof (induction n arbitrary: v)
  case 0
  then show ?case by simp
next
  case (Suc n)
  have "v mod 256 ^ Suc n = v mod 256 + 256 * (v div 256 mod 256 ^ n)"
    by (simp add: mod_mult2_eq)
  then show ?case using Suc by simp
qed

lemma le_to_nat_less: "le_to_nat bs < 256 ^ length bs"
proof (induction bs)
  case Nil
  then show ?case by simp
next
  case (Cons b bs)
  have "unat b < 256" using unsigned_less [of b, where ?'a = nat] by simp
  with Cons show ?case by simp
qed

lemma nat_to_le_le_to_nat: "nat_to_le (length bs) (le_to_nat bs) = bs"
proof (induction bs)
  case Nil
  then show ?case by simp
next
  case (Cons b bs)
  have "unat b < 256" using unsigned_less [of b, where ?'a = nat] by simp
  then have "(of_nat (unat b + 256 * le_to_nat bs) :: u8) = b"
    by (simp only: word_unat_eq_iff unat_of_nat_u8) simp
  moreover have "(unat b + 256 * le_to_nat bs) div 256 = le_to_nat bs"
    using \<open>unat b < 256\<close> by simp
  ultimately show ?case using Cons by simp
qed

lemma length_u16_to_le [simp]: "length (u16_to_le w) = 2"
  by (simp add: u16_to_le_def)

lemma length_u32_to_le [simp]: "length (u32_to_le w) = 4"
  by (simp add: u32_to_le_def)

lemma length_u64_to_le [simp]: "length (u64_to_le w) = 8"
  by (simp add: u64_to_le_def)

lemma u16_le_round_trip [simp, le_simps]: "u16_from_le (u16_to_le w) = w"
  using unsigned_less [of w, where ?'a = nat] by (simp add: u16_from_le_def u16_to_le_def le_to_nat_nat_to_le)

lemma u32_le_round_trip [simp, le_simps]: "u32_from_le (u32_to_le w) = w"
  using unsigned_less [of w, where ?'a = nat] by (simp add: u32_from_le_def u32_to_le_def le_to_nat_nat_to_le)

lemma u64_le_round_trip [simp, le_simps]: "u64_from_le (u64_to_le w) = w"
  using unsigned_less [of w, where ?'a = nat] by (simp add: u64_from_le_def u64_to_le_def le_to_nat_nat_to_le)

lemma u32_to_le_from_le: "length bs = 4 \<Longrightarrow> u32_to_le (u32_from_le bs) = bs"
  using le_to_nat_less [of bs] nat_to_le_le_to_nat [of bs]
  by (simp add: u32_to_le_def u32_from_le_def unat_of_nat)

lemma u64_to_le_from_le: "length bs = 8 \<Longrightarrow> u64_to_le (u64_from_le bs) = bs"
  using le_to_nat_less [of bs] nat_to_le_le_to_nat [of bs]
  by (simp add: u64_to_le_def u64_from_le_def unat_of_nat)

lemma u32_to_le_inj [simp]: "u32_to_le a = u32_to_le b \<longleftrightarrow> a = b"
  by (metis u32_le_round_trip)

lemma u64_to_le_inj [simp]: "u64_to_le a = u64_to_le b \<longleftrightarrow> a = b"
  by (metis u64_le_round_trip)

section \<open>Printing numbers\<close>

fun dec_digits :: "nat \<Rightarrow> string" where
  "dec_digits n =
     (if n < 10 then [char_of (48 + n)] else dec_digits (n div 10) @ [char_of (48 + n mod 10)])"

declare dec_digits.simps [simp del]

text \<open>\<^verbatim>\<open>{n:08}\<close>: decimal, padded on the left with zeros to eight characters.\<close>

definition pad8 :: "nat \<Rightarrow> string" where
  "pad8 n = (let s = dec_digits n in replicate (8 - length s) (CHR ''0'') @ s)"

definition hex_digit :: "nat \<Rightarrow> char" where
  "hex_digit n = (if n < 10 then char_of (48 + n) else char_of (87 + n))"

text \<open>\<^verbatim>\<open>{b:#04x}\<close> of a byte: the prefix and two lower-case hexadecimal digits.\<close>

definition hex_byte :: "u8 \<Rightarrow> string" where
  "hex_byte b = ''0x'' @ [hex_digit (unat b div 16), hex_digit (unat b mod 16)]"

section \<open>Lists\<close>

lemma take_drop_append_right [simp]:
  "take (length ys) (drop (length xs) (xs @ ys @ zs)) = ys"
  by simp

lemma list_all_eq_replicate: "list_all (\<lambda>b. b = c) xs \<longleftrightarrow> xs = replicate (length xs) c"
  by (induction xs) auto

end
