(* ===== verification/Varint.thy ===== *)
theory Varint
  imports Prelude
begin

text \<open>
  The LEB128 codec of \<^verbatim>\<open>crates/paddock-core/src/encoding/varint.rs\<close>: seven payload bits
  per byte, least significant group first, the top bit set on every byte but the last.

  \<open>encode_u64\<close> and \<open>encode_u32\<close> write into a caller-supplied buffer and \<open>decode_u64\<close>,
  \<open>decode_u32\<close> and \<open>decode_u64_canonical\<close> read from the front of a byte slice, as in the
  source.  The reference definition is \<open>leb128\<close>, the byte string of a number; the encoders
  are shown to write exactly it, the decoders to read it back whatever follows, and the
  canonical decoder to accept nothing else.
\<close>

definition MAX_VARINT_U32_BYTES :: nat where "MAX_VARINT_U32_BYTES = 5"
definition MAX_VARINT_U64_BYTES :: nat where "MAX_VARINT_U64_BYTES = 10"

section \<open>The codec\<close>

text \<open>\<^verbatim>\<open>64 - value.leading_zeros()\<close>: the number of significant bits.\<close>

fun bit_length :: "nat \<Rightarrow> nat" where
  "bit_length n = (if n = 0 then 0 else Suc (bit_length (n div 2)))"

declare bit_length.simps [simp del]

definition varint_u64_len :: "u64 \<Rightarrow> nat" where
  "varint_u64_len value =
     (let bits = bit_length (unat value) in if bits = 0 then 1 else (bits + 6) div 7)"

text \<open>
  The loop of \<^verbatim>\<open>encode_u64\<close>.  The buffer is returned with the answer, because the bytes
  written before a \<^verbatim>\<open>None\<close> stay written.
\<close>

function encode_u64_loop :: "u64 \<Rightarrow> bytes \<Rightarrow> nat \<Rightarrow> bytes \<times> nat option" where
  "encode_u64_loop value buf i =
     (if 0x80 \<le> value then
        if length buf \<le> i then (buf, None)
        else encode_u64_loop (drop_bit 7 value) (buf[i := ucast value OR 0x80]) (i + 1)
      else if length buf \<le> i then (buf, None)
      else (buf[i := ucast value], Some (i + 1)))"
  by pat_completeness auto
termination
  by (relation "measure (\<lambda>(value, buf, i). length buf - i)") auto

declare encode_u64_loop.simps [simp del]

definition encode_u64 :: "u64 \<Rightarrow> bytes \<Rightarrow> bytes \<times> nat option" where
  "encode_u64 value buf = encode_u64_loop value buf 0"

definition encode_u32 :: "u32 \<Rightarrow> bytes \<Rightarrow> bytes \<times> nat option" where
  "encode_u32 value buf = encode_u64 (ucast value) buf"

text \<open>
  The loop of the two decoders, which differ in their width, in the number of bytes they
  look at and in the largest payload they allow in the last of these.
\<close>

function decode_loop ::
  "nat \<Rightarrow> nat \<Rightarrow> bytes \<Rightarrow> nat \<Rightarrow> 'a::len word \<Rightarrow> nat \<Rightarrow> ('a word \<times> nat) result" where
  "decode_loop max_bytes last_max input i res shift =
     (if i < min (length input) max_bytes then
        let byte = input ! i;
            payload = ucast (byte AND 0x7F) :: 'a word
        in if i = max_bytes - 1 \<and> last_max < unat payload
           then Inl (Decode (VarintOverflow max_bytes))
           else let res' = res OR push_bit shift payload
                in if byte AND 0x80 = 0 then Inr (res', i + 1)
                   else decode_loop max_bytes last_max input (i + 1) res' (shift + 7)
      else if length input < max_bytes
      then Inl (Decode (UnexpectedEof (max_bytes - length input)))
      else Inl (Decode (VarintOverflow max_bytes)))"
  by pat_completeness auto
termination
  by (relation "measure (\<lambda>(max_bytes, last_max, input, i, res, shift). length input - i)") auto

declare decode_loop.simps [simp del]

definition decode_u64 :: "bytes \<Rightarrow> (u64 \<times> nat) result" where
  "decode_u64 input = decode_loop MAX_VARINT_U64_BYTES 0x01 input 0 0 0"

definition decode_u32 :: "bytes \<Rightarrow> (u32 \<times> nat) result" where
  "decode_u32 input = decode_loop MAX_VARINT_U32_BYTES 0x0F input 0 0 0"

definition decode_u64_canonical :: "bytes \<Rightarrow> (u64 \<times> nat) result" where
  "decode_u64_canonical input =
     and_then (decode_u64 input) (\<lambda>(value, consumed).
       if 1 < consumed \<and> input ! (consumed - 1) = 0 then Inl (Decode NonCanonicalVarint)
       else Inr (value, consumed))"

section \<open>The reference encoding\<close>

fun leb128 :: "nat \<Rightarrow> bytes" where
  "leb128 n =
     (if n < 128 then [of_nat n] else of_nat (128 + n mod 128) # leb128 (n div 128))"

declare leb128.simps [simp del]

lemma leb128_small: "n < 128 \<Longrightarrow> leb128 n = [of_nat n]"
  by (subst leb128.simps) simp

lemma leb128_big:
  "128 \<le> n \<Longrightarrow> leb128 n = of_nat (128 + n mod 128) # leb128 (n div 128)"
  by (subst leb128.simps) simp

lemma leb128_nonempty [simp]: "leb128 n \<noteq> []"
  by (subst leb128.simps) simp

lemma length_leb128_pos [simp]: "0 < length (leb128 n)"
  by simp

lemma take_bit_7_eq: "x AND 0x7F = take_bit 7 x" for x :: u8
  by (simp add: take_bit_eq_mask mask_eq_exp_minus_1)

lemma unat_low7: "unat (b AND 0x7F) = unat b mod 128" for b :: u8
  unfolding take_bit_7_eq by (simp add: take_bit_eq_mod unat_mod_distrib)

lemma bit7_iff: "b AND 0x80 = 0 \<longleftrightarrow> unat b < 128" for b :: u8
proof -
  have "b AND 0x80 = 0 \<longleftrightarrow> \<not> bit b 7"
    using and_exp_eq_0_iff_not_bit [of b 7] by simp
  also have "bit b 7 = bit (unat b) 7"
    by (simp add: bit_unsigned_iff)
  also have "\<dots> = odd (unat b div 128)" by (simp add: bit_iff_odd)
  also have "(\<not> odd (unat b div 128)) = (unat b < 128)"
  proof -
    have "unat b div 128 < 2" using unsigned_less [of b, where ?'a = nat] by (simp add: less_mult_imp_div_less)
    then have "unat b div 128 = 0 \<or> unat b div 128 = 1" by linarith
    then show ?thesis by (auto simp: div_eq_0_iff)
  qed
  finally show ?thesis .
qed

lemma or_top_bit:
  "LENGTH('a) = Suc n \<Longrightarrow> x OR 2 ^ n = take_bit n x + 2 ^ n" for x :: "'a::len word"
proof -
  assume len: "LENGTH('a) = Suc n"
  have "take_bit n x AND 2 ^ n = 0"
    by (rule bit_eqI) (auto simp: bit_simps)
  then have "take_bit n x + 2 ^ n = take_bit n x OR 2 ^ n"
    by (rule disjunctive_add_eq_or)
  also have "\<dots> = x OR 2 ^ n"
    by (rule bit_eqI) (use len in \<open>auto simp: bit_simps\<close>)
  finally show ?thesis by simp
qed

lemma continuation_byte:
  "(ucast v OR 0x80 :: u8) = of_nat (128 + unat v mod 128)" for v :: "'a::len word"
proof -
  have "(ucast v OR 0x80 :: u8) = take_bit 7 (ucast v) + 0x80"
    using or_top_bit [of 7 "ucast v :: u8"] by simp
  also have "take_bit 7 (ucast v :: u8) = of_nat (unat v mod 128)"
    by (simp add: word_unat_eq_iff take_bit_eq_mod unat_mod_distrib unsigned_ucast_eq mod_mod_cancel)
  finally show ?thesis by (simp add: add.commute)
qed

lemma encode_u64_loop_fits:
  "i + length (leb128 (unat v)) \<le> length buf \<Longrightarrow>
   encode_u64_loop v buf i =
     (take i buf @ leb128 (unat v) @ drop (i + length (leb128 (unat v))) buf,
      Some (i + length (leb128 (unat v))))"
proof (induction v buf i rule: encode_u64_loop.induct)
  case (1 v buf i)
  show ?case
  proof (cases "0x80 \<le> v")
    case True
    then have big: "128 \<le> unat v" by (simp add: word_le_nat_alt)
    have shift: "unat (drop_bit 7 v) = unat v div 128"
      by (simp add: drop_bit_eq_div unat_div_distrib)
    from "1.prems" big have i: "i < length buf" by (simp add: leb128_big)
    from True i "1.IH" "1.prems" big show ?thesis
      by (simp add: encode_u64_loop.simps [of v buf i] leb128_big [of "unat v"] shift
          continuation_byte take_Suc_conv_app_nth)
  next
    case False
    then have small: "unat v < 128" by (simp add: word_le_nat_alt)
    from False small "1.prems" show ?thesis
      by (simp add: encode_u64_loop.simps [of v buf i] leb128_small upd_conv_take_nth_drop)
  qed
qed

lemma encode_u64_loop_short:
  "i \<le> length buf \<Longrightarrow> length buf < i + length (leb128 (unat v)) \<Longrightarrow>
   snd (encode_u64_loop v buf i) = None"
proof (induction v buf i rule: encode_u64_loop.induct)
  case (1 v buf i)
  show ?case
  proof (cases "0x80 \<le> v")
    case True
    then have big: "128 \<le> unat v" by (simp add: word_le_nat_alt)
    have shift: "unat (drop_bit 7 v) = unat v div 128"
      by (simp add: drop_bit_eq_div unat_div_distrib)
    from True "1.IH" "1.prems" big show ?thesis
      by (subst encode_u64_loop.simps) (simp add: leb128_big [of "unat v"] shift)
  next
    case False
    then have small: "unat v < 128" by (simp add: word_le_nat_alt)
    from False small "1.prems" show ?thesis
      by (simp add: encode_u64_loop.simps [of v buf i] leb128_small)
  qed
qed

lemma length_leb128_le: "n < 128 ^ k \<Longrightarrow> 0 < k \<Longrightarrow> length (leb128 n) \<le> k"
proof (induction n arbitrary: k rule: leb128.induct)
  case (1 n)
  show ?case
  proof (cases "n < 128")
    case True
    with "1.prems" show ?thesis by (simp add: leb128_small)
  next
    case False
    with "1.prems" obtain j where j: "k = Suc j" "0 < j"
      by (cases k; cases "k - 1") auto
    with "1.prems" have "n div 128 < 128 ^ j" by (simp add: less_mult_imp_div_less mult.commute)
    with False j "1.IH" show ?thesis by (simp add: leb128_big)
  qed
qed

lemma length_leb128_u64: "length (leb128 (unat v)) \<le> 10" for v :: u64
proof (rule length_leb128_le)
  have "unat v < 2 ^ 64" using unsigned_less [of v, where ?'a = nat] by simp
  also have "\<dots> < (128::nat) ^ 10" by simp
  finally show "unat v < 128 ^ 10" .
qed simp

lemma length_leb128_u32: "length (leb128 (unat v)) \<le> 5" for v :: u32
proof (rule length_leb128_le)
  have "unat v < 2 ^ 32" using unsigned_less [of v, where ?'a = nat] by simp
  also have "\<dots> < (128::nat) ^ 5" by simp
  finally show "unat v < 128 ^ 5" .
qed simp

lemma bit_length_half: "bit_length (n div 2) = bit_length n - 1"
  by (subst (2) bit_length.simps) (simp add: bit_length.simps)

lemma bit_length_div: "bit_length (n div 2 ^ k) = bit_length n - k"
proof (induction k)
  case (Suc k)
  have "n div 2 ^ Suc k = n div 2 ^ k div 2" by (simp flip: div_mult2_eq add: mult.commute)
  then show ?case using Suc by (simp add: bit_length_half)
qed simp

lemma bit_length_pos: "0 < n \<Longrightarrow> 0 < bit_length n"
  by (subst bit_length.simps) simp

lemma bit_length_le_iff: "bit_length n \<le> k \<longleftrightarrow> n < 2 ^ k"
proof (induction k arbitrary: n)
  case 0
  then show ?case by (subst bit_length.simps) simp
next
  case (Suc k)
  show ?case using Suc [of "n div 2"] by (subst bit_length.simps) auto
qed

lemma length_leb128_bits:
  "length (leb128 n) = (if bit_length n = 0 then 1 else (bit_length n + 6) div 7)"
proof (induction n rule: leb128.induct)
  case (1 n)
  show ?case
  proof (cases "n < 128")
    case True
    then have "bit_length n \<le> 7" by (simp add: bit_length_le_iff)
    then have "0 < bit_length n \<Longrightarrow> (bit_length n + 6) div 7 = 1" by simp
    with True show ?thesis by (auto simp: leb128_small)
  next
    case False
    then have "7 < bit_length n" using bit_length_le_iff [of n 7] by simp
    moreover have "bit_length (n div 128) = bit_length n - 7" using bit_length_div [of n 7] by simp
    ultimately show ?thesis using False 1 by (simp add: leb128_big)
  qed
qed

section \<open>Decoding\<close>

lemma unat_less_exp_bit: "unat x < 2 ^ s \<Longrightarrow> bit x k \<Longrightarrow> k < s" for x :: "'a::len word"
proof -
  assume "unat x < 2 ^ s"
  then have "take_bit s (unat x) = unat x" by (simp add: take_bit_nat_eq_self)
  moreover assume "bit x k"
  then have "bit (unat x) k" by (simp add: bit_unsigned_iff)
  ultimately show "k < s" by (metis bit_take_bit_iff)
qed

lemma or_push_bit_eq_plus:
  "unat x < 2 ^ s \<Longrightarrow> x OR push_bit s y = x + push_bit s y" for x y :: "'a::len word"
proof -
  assume x: "unat x < 2 ^ s"
  have "x AND push_bit s y = 0"
    by (rule bit_eqI) (auto simp: bit_simps dest: unat_less_exp_bit [OF x])
  then show ?thesis by (simp add: disjunctive_add_eq_or)
qed

lemma unat_or_push_bit:
  "unat x < 2 ^ s \<Longrightarrow> unat x + 2 ^ s * unat y < 2 ^ LENGTH('a) \<Longrightarrow>
     unat (x OR push_bit s y) = unat x + 2 ^ s * unat y" for x y :: "'a::len word"
proof -
  assume x: "unat x < 2 ^ s" and fits: "unat x + 2 ^ s * unat y < 2 ^ LENGTH('a)"
  have "x OR push_bit s y = of_nat (unat x + 2 ^ s * unat y)"
    unfolding or_push_bit_eq_plus [OF x] by (simp add: push_bit_eq_mult mult.commute)
  then show ?thesis using fits by (simp only: unat_of_nat_less)
qed

lemma group_bound: "r < 2 ^ (7 * i) \<Longrightarrow> p < 128 \<Longrightarrow> r + 2 ^ (7 * i) * p < 2 ^ (7 * (i + 1))"
  for r p :: nat
proof -
  assume r: "r < 2 ^ (7 * i)" and "p < 128"
  then have "2 ^ (7 * i) * p \<le> 2 ^ (7 * i) * 127" by (intro mult_le_mono2) simp
  moreover have "(2::nat) ^ (7 * (i + 1)) = 2 ^ (7 * i) * 128" by (simp add: power_add)
  ultimately show ?thesis using r by linarith
qed

lemma next_group: "2 ^ (7 * (i + 1)) * n = 2 ^ (7 * i) * (128 * n)" for n :: nat
  by (simp add: power_add)

lemma unat_byte_high: "128 \<le> unat b \<Longrightarrow> 128 + unat b mod 128 = unat b" for b :: u8
proof -
  assume "128 \<le> unat b"
  moreover have "unat b < 256" using unsigned_less [of b, where ?'a = nat] by simp
  ultimately have "unat b div 128 = 1" by (intro div_nat_eqI) simp_all
  then show ?thesis by (metis add.commute div_mult_mod_eq mult_1)
qed

lemma unat_hd_leb128: "unat (hd (leb128 n)) = (if n < 128 then n else 128 + n mod 128)"
proof (cases "n < 128")
  case False
  have "n mod 128 < 128" by simp
  then have "128 + n mod 128 < 2 ^ LENGTH(8)" by simp
  then have "unat (of_nat (128 + n mod 128) :: u8) = 128 + n mod 128"
    by (rule unat_of_nat_less)
  with False show ?thesis by (simp add: leb128_big)
qed (simp add: leb128_small)

text \<open>
  The two decoders share the loop and differ in three numbers.  What the loop needs of them:
  the last byte still has room for at least one bit of the word and for at most seven, and
  \<open>last_max\<close> is the largest payload that fits there.
\<close>

locale varint_width =
  fixes width :: "'a::len itself" and max_bytes :: nat and last_max :: nat
  assumes room: "7 * (max_bytes - 1) < LENGTH('a)" "LENGTH('a) \<le> 7 * max_bytes"
      "7 < LENGTH('a)"
    and last_max: "last_max + 1 = 2 ^ (LENGTH('a) - 7 * (max_bytes - 1))"
begin

lemma last_max_small: "last_max < 128"
proof -
  have "LENGTH('a) - 7 * (max_bytes - 1) \<le> 7" using room by linarith
  then have "last_max + 1 \<le> 2 ^ 7" unfolding last_max by (rule power_increasing) simp
  then show ?thesis by simp
qed

lemma power_split: "(2::nat) ^ LENGTH('a) = 2 ^ (7 * (max_bytes - 1)) * (last_max + 1)"
  unfolding last_max using room by (simp flip: power_add)

lemma in_range:
  assumes "r < 2 ^ (7 * i)" "i < max_bytes" "p < 128" "i = max_bytes - 1 \<longrightarrow> p \<le> last_max"
  shows "r + 2 ^ (7 * i) * p < 2 ^ LENGTH('a)"
proof (cases "i = max_bytes - 1")
  case True
  with assms have "2 ^ (7 * i) * (p + 1) \<le> 2 ^ (7 * i) * (last_max + 1)"
    by (intro mult_le_mono2) simp
  moreover have "2 ^ (7 * i) * (p + 1) = 2 ^ (7 * i) + 2 ^ (7 * i) * p" by simp
  ultimately show ?thesis using assms(1) unfolding power_split True by linarith
next
  case False
  with assms(2) have "i + 1 \<le> max_bytes - 1" by simp
  then have "7 * (i + 1) \<le> 7 * (max_bytes - 1)" by (rule mult_le_mono2)
  also have "\<dots> \<le> LENGTH('a)" using room(1) by (rule less_imp_le)
  finally have "7 * (i + 1) \<le> LENGTH('a)" .
  then have "(2::nat) ^ (7 * (i + 1)) \<le> 2 ^ LENGTH('a)" by (rule power_increasing) simp
  with group_bound [OF assms(1,3)] show ?thesis by linarith
qed

lemma out_of_range:
  "r + 2 ^ (7 * (max_bytes - 1)) * n < 2 ^ LENGTH('a) \<Longrightarrow> n \<le> last_max"
proof (rule ccontr)
  assume less: "r + 2 ^ (7 * (max_bytes - 1)) * n < 2 ^ LENGTH('a)" and "\<not> n \<le> last_max"
  then have "2 ^ (7 * (max_bytes - 1)) * (last_max + 1) \<le> 2 ^ (7 * (max_bytes - 1)) * n"
    by (intro mult_le_mono2) simp
  with less show False unfolding power_split by linarith
qed

lemma unat_payload: "unat (ucast (b AND 0x7F) :: 'a word) = unat b mod 128" for b :: u8
proof -
  have "unat b mod 128 < 2 ^ LENGTH('a)"
    using power_strict_increasing [OF room(3), of "2::nat"]
    by (simp add: less_trans [OF mod_less_divisor])
  moreover have "(ucast (b AND 0x7F) :: 'a word) = of_nat (unat b mod 128)"
    by (metis of_nat_unat unat_low7)
  ultimately show ?thesis by (simp add: unat_of_nat_less)
qed

text \<open>One round of the loop, with the payload as a number.\<close>

lemma decode_loop_round:
  fixes res :: "'a word"
  assumes i: "i < length input" "i < max_bytes" and res: "unat res < 2 ^ (7 * i)"
    and p: "p = unat (input ! i) mod 128" "i = max_bytes - 1 \<longrightarrow> p \<le> last_max"
  obtains res' :: "'a word" where "unat res' = unat res + 2 ^ (7 * i) * p"
    "decode_loop max_bytes last_max input i res (7 * i) =
       (if unat (input ! i) < 128 then Inr (res', i + 1)
        else decode_loop max_bytes last_max input (i + 1) res' (7 * (i + 1)))"
proof -
  define q where "q = (ucast (input ! i AND 0x7F) :: 'a word)"
  have q: "unat q = p" by (simp add: q_def p(1) unat_payload)
  show thesis
  proof (rule that)
    show "unat (res OR push_bit (7 * i) q) = unat res + 2 ^ (7 * i) * p"
      using in_range [OF res i(2) _ p(2)] p(1) unat_or_push_bit [OF res, of q] by (simp add: q)
    show "decode_loop max_bytes last_max input i res (7 * i) =
       (if unat (input ! i) < 128 then Inr (res OR push_bit (7 * i) q, i + 1)
        else decode_loop max_bytes last_max input (i + 1) (res OR push_bit (7 * i) q) (7 * (i + 1)))"
      using i p(2) q
      by (subst decode_loop.simps) (auto simp: q_def [symmetric] bit7_iff add.commute)
  qed
qed

lemma decode_loop_leb128:
  fixes res :: "'a word"
  shows "drop i input = leb128 n @ rest \<Longrightarrow> unat res < 2 ^ (7 * i) \<Longrightarrow>
    unat res + 2 ^ (7 * i) * n < 2 ^ LENGTH('a) \<Longrightarrow> 0 < n \<or> i = 0 \<Longrightarrow>
    decode_loop max_bytes last_max input i res (7 * i) =
      Inr (of_nat (unat res + 2 ^ (7 * i) * n), i + length (leb128 n))"
proof (induction n arbitrary: i res rule: leb128.induct)
  case (1 n)
  have i_max: "i < max_bytes"
  proof (rule ccontr)
    assume "\<not> i < max_bytes"
    then have "LENGTH('a) \<le> 7 * i" using room by linarith
    then have "(2::nat) ^ LENGTH('a) \<le> 2 ^ (7 * i)" by (rule power_increasing) simp
    moreover have "0 < n" using "1.prems"(4) \<open>\<not> i < max_bytes\<close> room by auto
    then have "(2::nat) ^ (7 * i) \<le> 2 ^ (7 * i) * n" by simp
    ultimately show False using "1.prems"(3) by linarith
  qed
  have i_len: "i < length input"
    using "1.prems"(1) by (cases "i < length input") auto
  have hd_in: "input ! i = hd (leb128 n)"
    using "1.prems"(1) i_len by (metis hd_append2 hd_drop_conv_nth leb128_nonempty)
  have last_ok: "n \<le> last_max" if "i = max_bytes - 1"
    using out_of_range "1.prems"(3) that by simp
  have p: "n mod 128 = unat (input ! i) mod 128"
    by (simp add: hd_in unat_hd_leb128)
  have small: "unat (input ! i) < 128 \<longleftrightarrow> n < 128"
    by (simp add: hd_in unat_hd_leb128)
  have "i = max_bytes - 1 \<longrightarrow> n mod 128 \<le> last_max"
    using last_ok le_trans mod_less_eq_dividend by blast
  then obtain res' :: "'a word" where res': "unat res' = unat res + 2 ^ (7 * i) * (n mod 128)"
    and round: "decode_loop max_bytes last_max input i res (7 * i) =
       (if n < 128 then Inr (res', i + 1)
        else decode_loop max_bytes last_max input (i + 1) res' (7 * (i + 1)))"
    using decode_loop_round [OF i_len i_max "1.prems"(2) p] unfolding small by blast
  show ?case
  proof (cases "n < 128")
    case True
    with res' have "res' = of_nat (unat res + 2 ^ (7 * i) * n)"
      by (metis mod_less of_nat_unat ucast_id)
    with True round show ?thesis by (simp add: leb128_small)
  next
    case False
    have total: "unat res' + 2 ^ (7 * (i + 1)) * (n div 128) = unat res + 2 ^ (7 * i) * n"
    proof -
      have "2 ^ (7 * i) * (n mod 128) + 2 ^ (7 * i) * (128 * (n div 128)) = 2 ^ (7 * i) * n"
        by (simp flip: distrib_left)
      then show ?thesis unfolding res' next_group by simp
    qed
    have "drop (i + 1) input = leb128 (n div 128) @ rest"
      using "1.prems"(1) False
      by (metis append_Cons drop_Suc Suc_eq_plus1 leb128_big list.sel(3) not_less tl_drop)
    moreover have "unat res' < 2 ^ (7 * (i + 1))"
      unfolding res' using "1.prems"(2) by (rule group_bound) simp
    moreover have "0 < n div 128" using False by simp
    ultimately show ?thesis
      using "1.IH" [of "i + 1" res', unfolded total] "1.prems"(3) False
      unfolding round by (simp add: leb128_big del: of_nat_add)
  qed
qed

text \<open>
  The converse: whatever the loop accepts, ending in a non-zero byte, is the encoding of
  the number it returns.
\<close>

lemma leb128_of_decode_loop:
  fixes res v :: "'a word"
  shows "decode_loop max_bytes last_max input i res (7 * i) = Inr (v, c) \<Longrightarrow>
    unat res < 2 ^ (7 * i) \<Longrightarrow> (1 < c \<longrightarrow> input ! (c - 1) \<noteq> 0) \<Longrightarrow>
    \<exists>n. take (c - i) (drop i input) = leb128 n \<and> unat v = unat res + 2 ^ (7 * i) * n \<and>
        (0 < i \<longrightarrow> 0 < n)"
proof (induction "length input - i" arbitrary: i res rule: less_induct)
  case less
  let ?p = "unat (input ! i) mod 128"
  from less.prems(1) have i: "i < length input" "i < max_bytes"
    by (subst (asm) decode_loop.simps; simp split: if_splits)+
  have ok: "i = max_bytes - 1 \<longrightarrow> ?p \<le> last_max"
    using less.prems(1) i unat_payload [of "input ! i"]
    by (subst (asm) decode_loop.simps) (simp add: Let_def not_less split: if_splits)
  obtain res' :: "'a word" where res': "unat res' = unat res + 2 ^ (7 * i) * ?p"
    and round: "decode_loop max_bytes last_max input i res (7 * i) =
       (if unat (input ! i) < 128 then Inr (res', i + 1)
        else decode_loop max_bytes last_max input (i + 1) res' (7 * (i + 1)))"
    using decode_loop_round [OF i less.prems(2) refl ok] by blast
  show ?case
  proof (cases "unat (input ! i) < 128")
    case True
    with less.prems round have c: "v = res'" "c = i + 1" by auto
    moreover have "take 1 (drop i input) = leb128 ?p"
      using i True by (simp add: take_Suc_conv_app_nth leb128_small take_Suc hd_drop_conv_nth)
    moreover have "0 < i \<longrightarrow> 0 < ?p"
      using less.prems(3) c True by (auto simp: unat_gt_0)
    ultimately show ?thesis using res' by auto
  next
    case False
    with less.prems round have rec: "decode_loop max_bytes last_max input (i + 1) res' (7 * (i + 1))
        = Inr (v, c)" by simp
    have "unat res' < 2 ^ (7 * (i + 1))"
      unfolding res' using less.prems(2) by (rule group_bound) simp
    from less.hyps [OF _ rec this less.prems(3)] i obtain n where
      n: "take (c - (i + 1)) (drop (i + 1) input) = leb128 n"
        "unat v = unat res' + 2 ^ (7 * (i + 1)) * n" "0 < n" by (auto simp: diff_less_mono2)
    have "i + 1 < c" using n(1) leb128_nonempty [of n] by (cases "i + 1 < c") simp_all
    then have "take (c - i) (drop i input) = input ! i # leb128 n"
      using i n(1) by (metis Cons_nth_drop_Suc Suc_diff_Suc Suc_eq_plus1 Suc_lessD take_Suc_Cons)
    moreover have "leb128 (?p + 128 * n) = of_nat (128 + ?p) # leb128 n"
      using n(3) by (subst leb128_big) auto
    moreover have "of_nat (128 + ?p) = input ! i"
      using False unat_byte_high by (metis of_nat_unat not_less ucast_id)
    moreover have "unat v = unat res + 2 ^ (7 * i) * (?p + 128 * n)"
      unfolding n(2) res' by (simp only: next_group) (simp add: distrib_left)
    ultimately show ?thesis using n(3) by (intro exI [of _ "?p + 128 * n"]) simp
  qed
qed

end

interpretation varint64: varint_width "TYPE(64)" MAX_VARINT_U64_BYTES "0x01"
  by unfold_locales (simp_all add: MAX_VARINT_U64_BYTES_def)

interpretation varint32: varint_width "TYPE(32)" MAX_VARINT_U32_BYTES "0x0F"
  by unfold_locales (simp_all add: MAX_VARINT_U32_BYTES_def)

lemma decode_loop_consumed:
  "decode_loop max_bytes last_max input i res shift = Inr (v, c) \<Longrightarrow>
     i < c \<and> c \<le> length input \<and> c \<le> max_bytes"
  by (induction max_bytes last_max input i res shift rule: decode_loop.induct)
     (subst (asm) (2) decode_loop.simps, fastforce simp: Let_def split: if_splits)

lemma decode_loop_no_panic [simp]:
  "no_panic (decode_loop max_bytes last_max input i res shift)"
  by (induction max_bytes last_max input i res shift rule: decode_loop.induct)
     (subst decode_loop.simps, simp add: Let_def)

section \<open>Encoders against the reference, decoders against the encoders\<close>

lemma encode_u64_writes:
  "length (leb128 (unat v)) \<le> length buf \<Longrightarrow>
     encode_u64 v buf = (leb128 (unat v) @ drop (length (leb128 (unat v))) buf,
                         Some (length (leb128 (unat v))))"
  by (simp add: encode_u64_def encode_u64_loop_fits)

lemma encode_u64_short:
  "length buf < length (leb128 (unat v)) \<Longrightarrow> snd (encode_u64 v buf) = None"
  by (simp add: encode_u64_def encode_u64_loop_short)

lemma varint_u64_len_leb128: "varint_u64_len v = length (leb128 (unat v))"
  by (simp add: varint_u64_len_def length_leb128_bits)

lemma unat_ucast_u32_u64: "unat (ucast v :: u64) = unat v" for v :: u32
proof -
  have "unat v < 2 ^ 64" using unsigned_less [of v, where ?'a = nat] by simp
  then show ?thesis by (simp add: unsigned_ucast_eq take_bit_nat_eq_self)
qed

lemma encode_u32_writes:
  "length (leb128 (unat v)) \<le> length buf \<Longrightarrow>
     encode_u32 v buf = (leb128 (unat v) @ drop (length (leb128 (unat v))) buf,
                         Some (length (leb128 (unat v))))"
  using encode_u64_writes [of "ucast v" buf] by (simp add: encode_u32_def unat_ucast_u32_u64)

lemma decode_u64_leb128 [simp]:
  "decode_u64 (leb128 (unat v) @ rest) = Inr (v, length (leb128 (unat v)))"
  using varint64.decode_loop_leb128 [where res = 0 and i = 0 and n = "unat v" and rest = rest]
    unsigned_less [of v, where ?'a = nat]
  by (simp add: decode_u64_def)

lemma decode_u32_leb128 [simp]:
  "decode_u32 (leb128 (unat v) @ rest) = Inr (v, length (leb128 (unat v)))"
  using varint32.decode_loop_leb128 [where res = 0 and i = 0 and n = "unat v" and rest = rest]
    unsigned_less [of v, where ?'a = nat]
  by (simp add: decode_u32_def)

lemma last_leb128: "0 < n \<Longrightarrow> last (leb128 n) \<noteq> 0"
proof (induction n rule: leb128.induct)
  case (1 n)
  show ?case
  proof (cases "n < 128")
    case True
    then have "unat (of_nat n :: u8) = n" by simp
    with 1 have "(of_nat n :: u8) \<noteq> 0" by (metis less_irrefl unsigned_0)
    with True show ?thesis by (simp add: leb128_small)
  next
    case False
    with 1 show ?thesis by (simp add: leb128_big)
  qed
qed

lemma decode_u64_canonical_leb128 [simp]:
  "decode_u64_canonical (leb128 (unat v) @ rest) = Inr (v, length (leb128 (unat v)))"
proof (cases "unat v = 0")
  case False
  then have "(leb128 (unat v) @ rest) ! (length (leb128 (unat v)) - 1) \<noteq> 0"
    using last_leb128 [of "unat v"] by (simp add: nth_append last_conv_nth)
  then show ?thesis by (simp add: decode_u64_canonical_def)
next
  case True
  then have "length (leb128 (unat v)) = 1" by (simp add: leb128_small)
  then show ?thesis by (simp add: decode_u64_canonical_def)
qed

lemma decode_u64_consumed: "decode_u64 input = Inr (v, c) \<Longrightarrow> 0 < c \<and> c \<le> length input \<and> c \<le> 10"
  unfolding decode_u64_def MAX_VARINT_U64_BYTES_def by (drule decode_loop_consumed) simp

lemma decode_u32_consumed: "decode_u32 input = Inr (v, c) \<Longrightarrow> 0 < c \<and> c \<le> length input \<and> c \<le> 5"
  unfolding decode_u32_def MAX_VARINT_U32_BYTES_def by (drule decode_loop_consumed) simp

lemma decode_no_panic [simp]: "no_panic (decode_u64 input)" "no_panic (decode_u32 input)"
  by (simp_all add: decode_u64_def decode_u32_def)

lemma leb128_of_decode_u64_canonical:
  assumes "decode_u64_canonical input = Inr (v, c)"
  shows "take c input = leb128 (unat v)"
proof -
  from assms have "decode_u64 input = Inr (v, c)" "1 < c \<longrightarrow> input ! (c - 1) \<noteq> 0"
    by (auto simp: decode_u64_canonical_def result_simps split: if_splits)
  then show ?thesis
    using varint64.leb128_of_decode_loop [where i = 0 and res = 0 and input = input and v = v and c = c]
    by (auto simp: decode_u64_def)
qed

lemma word_428: "(428 :: u8) = 172"
  by simp

text \<open>
  C11. A \<^verbatim>\<open>u64\<close> survives the codec: in a buffer of at least ten bytes the encoder writes at most ten
  bytes, leaves the rest of the buffer alone, and both decoders read the value and the
  number of bytes back, whatever bytes follow.  The encoder gives \<^verbatim>\<open>None\<close> exactly when the
  buffer is shorter than \<^verbatim>\<open>varint_u64_len\<close>.
\<close>

theorem varint_u64_round_trip:
  "(let n = varint_u64_len v; (buf', written) = encode_u64 v buf in
      (written = None \<longleftrightarrow> length buf < n) \<and> n \<le> MAX_VARINT_U64_BYTES \<and>
      (n \<le> length buf \<longrightarrow>
         written = Some n \<and> length buf' = length buf \<and> drop n buf' = drop n buf \<and>
         decode_u64 (take n buf' @ rest) = Inr (v, n) \<and>
         decode_u64_canonical (take n buf' @ rest) = Inr (v, n)))"
proof (cases "varint_u64_len v \<le> length buf")
  case True
  then show ?thesis
    using length_leb128_u64 [of v]
    by (simp add: varint_u64_len_leb128 encode_u64_writes MAX_VARINT_U64_BYTES_def)
next
  case False
  then show ?thesis
    using length_leb128_u64 [of v] encode_u64_short [of buf v]
    by (auto simp: varint_u64_len_leb128 MAX_VARINT_U64_BYTES_def split: prod.split)
qed

theorem varint_u64_round_trip_witness:
  "encode_u64 300 [7, 7, 7] = ([0xAC, 0x02, 7], Some 2) \<and>
   decode_u64 [0xAC, 0x02, 9] = Inr (300, 2)"
  using varint_u64_round_trip [of 300 "[7, 7, 7]" "[9]"] word_428
  by (simp add: encode_u64_def encode_u64_loop.simps varint_u64_len_def bit_length.simps drop_bit_eq_div)

text \<open>
  C12. The canonical decoder accepts one byte string per value: what it consumes is exactly
  what the encoder writes for the value it returns.
\<close>

theorem decode_u64_canonical_unique:
  assumes "decode_u64_canonical input = Inr (v, c)"
  shows "encode_u64 v (replicate c 0) = (take c input, Some c) \<and> c = varint_u64_len v"
proof -
  from assms have "c \<le> length input"
    using decode_u64_consumed by (auto simp: decode_u64_canonical_def result_simps split: if_splits)
  then have "c = length (leb128 (unat v))"
    using leb128_of_decode_u64_canonical [OF assms] by (metis length_take min.absorb2)
  then show ?thesis
    using leb128_of_decode_u64_canonical [OF assms]
    by (simp add: encode_u64_writes varint_u64_len_leb128)
qed

theorem decode_u64_canonical_unique_witness:
  "encode_u64 300 (replicate 2 0) = (take 2 [0xAC, 0x02, 9], Some 2) \<and> 2 = varint_u64_len 300"
  by (rule decode_u64_canonical_unique)
     (simp add: decode_u64_canonical_def decode_u64_def decode_loop.simps MAX_VARINT_U64_BYTES_def)

end
