(* ===== verification/Batch.thy ===== *)
theory Batch
  imports Varint
begin

text \<open>
  \<^verbatim>\<open>WriteBatch\<close> of \<^verbatim>\<open>crates/paddock-core/src/wal/batch.rs\<close>: the unit of durability, its wire
  encoding and the decoder that replay runs on bytes read back from disk.

  The encoder works on an output vector and on the five-byte scratch array that the source
  reuses for every length; a length that does not fit a \<^verbatim>\<open>u32\<close> is a panic.  The reference
  definition of the wire format is \<open>ops_bytes\<close>.
\<close>

section \<open>The model\<close>

definition MAX_OPS_PER_BATCH :: nat where "MAX_OPS_PER_BATCH = 2 ^ 20"
definition OP_PUT :: u8 where "OP_PUT = 0"
definition OP_DELETE :: u8 where "OP_DELETE = 1"

datatype op = Put (op_key: key) (op_value: bytes) | Delete (op_key: key)

fun encoded_size_hint :: "op \<Rightarrow> nat" where
  "encoded_size_hint (Put k v) =
     1 + MAX_VARINT_U32_BYTES + length k + MAX_VARINT_U32_BYTES + length v"
| "encoded_size_hint (Delete k) = 1 + MAX_VARINT_U32_BYTES + length k"

record write_batch =
  wb_ops :: "op list"

definition batch_new :: write_batch where "batch_new = \<lparr>wb_ops = []\<rparr>"

definition batch_put :: "key \<Rightarrow> bytes \<Rightarrow> write_batch \<Rightarrow> write_batch" where
  "batch_put k v b = b\<lparr>wb_ops := wb_ops b @ [Put k v]\<rparr>"

definition batch_delete :: "key \<Rightarrow> write_batch \<Rightarrow> write_batch" where
  "batch_delete k b = b\<lparr>wb_ops := wb_ops b @ [Delete k]\<rparr>"

definition batch_len :: "write_batch \<Rightarrow> nat" where "batch_len b = length (wb_ops b)"
definition batch_is_empty :: "write_batch \<Rightarrow> bool" where "batch_is_empty b \<longleftrightarrow> wb_ops b = []"

text \<open>\<^verbatim>\<open>u32::try_from(n).expect(..)\<close>.\<close>

definition u32_try_from :: "nat \<Rightarrow> string \<Rightarrow> u32 result" where
  "u32_try_from n msg = (if n < 2 ^ 32 then Inr (of_nat n) else Inl (Panic msg))"

text \<open>
  The three lines that write one length: convert, encode into the scratch array, append the
  bytes that were written.  The pair is the scratch array and the output.
\<close>

definition push_u32 :: "nat \<Rightarrow> string \<Rightarrow> bytes \<times> bytes \<Rightarrow> (bytes \<times> bytes) result" where
  "push_u32 len msg = (\<lambda>(scratch, out).
     and_then (u32_try_from len msg) (\<lambda>v.
       let (scratch', written) = encode_u32 v scratch in
       and_then (ok_or written (Panic ''u32 always fits'')) (\<lambda>n.
       and_then (slice_range scratch' 0 n) (\<lambda>enc. Inr (scratch', out @ enc)))))"

fun encode_op :: "op \<Rightarrow> bytes \<times> bytes \<Rightarrow> (bytes \<times> bytes) result" where
  "encode_op (Put k v) (scratch, out) =
     and_then (push_u32 (length k) ''key len fits in u32'' (scratch, out @ [OP_PUT]))
       (\<lambda>(scratch, out).
     and_then (push_u32 (length v) ''value len fits in u32'' (scratch, out @ k))
       (\<lambda>(scratch, out). Inr (scratch, out @ v)))"
| "encode_op (Delete k) (scratch, out) =
     and_then (push_u32 (length k) ''key len fits in u32'' (scratch, out @ [OP_DELETE]))
       (\<lambda>(scratch, out). Inr (scratch, out @ k))"

fun encode_ops :: "op list \<Rightarrow> bytes \<times> bytes \<Rightarrow> (bytes \<times> bytes) result" where
  "encode_ops [] so = Inr so"
| "encode_ops (op # ops) so = and_then (encode_op op so) (encode_ops ops)"

definition encode_into :: "write_batch \<Rightarrow> bytes \<Rightarrow> bytes result" where
  "encode_into b out =
     and_then (push_u32 (length (wb_ops b))
        ''op count never exceeds u32::MAX in any realistic batch''
        (replicate MAX_VARINT_U32_BYTES 0, out)) (\<lambda>so.
     and_then (encode_ops (wb_ops b) so) (\<lambda>(scratch, out). Inr out))"

definition batch_encode :: "write_batch \<Rightarrow> bytes result" where
  "batch_encode b = encode_into b []"

definition batch_take :: "bytes \<Rightarrow> nat \<Rightarrow> (bytes \<times> bytes) result" where
  "batch_take bs n =
     (if length bs < n then Inl (Decode (UnexpectedEof (n - length bs)))
      else Inr (take n bs, drop n bs))"

text \<open>A length and that many bytes: \<^verbatim>\<open>decode_u32\<close>, skip, \<^verbatim>\<open>take\<close>.\<close>

definition take_prefixed :: "bytes \<Rightarrow> (bytes \<times> bytes) result" where
  "take_prefixed bs =
     and_then (decode_u32 bs) (\<lambda>(len, c).
     and_then (slice_from bs c) (\<lambda>bs. batch_take bs (unat len)))"

definition decode_op :: "bytes \<Rightarrow> (op \<times> bytes) result" where
  "decode_op bs =
     (case bs of
        [] \<Rightarrow> Inl (Decode (UnexpectedEof 1))
      | tag # bs \<Rightarrow>
          if tag = OP_PUT then
            and_then (take_prefixed bs) (\<lambda>(k, bs).
            and_then (take_prefixed bs) (\<lambda>(v, bs). Inr (Put k v, bs)))
          else if tag = OP_DELETE then
            and_then (take_prefixed bs) (\<lambda>(k, bs). Inr (Delete k, bs))
          else Inl (InvalidFormat ''WriteBatch'' (''unknown op tag '' @ hex_byte tag)))"

fun decode_ops :: "nat \<Rightarrow> bytes \<Rightarrow> op list \<Rightarrow> (op list \<times> bytes) result" where
  "decode_ops 0 bs ops = Inr (ops, bs)"
| "decode_ops (Suc n) bs ops =
     and_then (decode_op bs) (\<lambda>(op, bs). decode_ops n bs (ops @ [op]))"

definition batch_decode :: "bytes \<Rightarrow> write_batch result" where
  "batch_decode bs =
     and_then (decode_u32 bs) (\<lambda>(op_count, consumed).
     if MAX_OPS_PER_BATCH < unat op_count then
       Inl (InvalidFormat ''WriteBatch''
         (''op_count '' @ dec_digits (unat op_count) @ '' exceeds limit '' @
          dec_digits MAX_OPS_PER_BATCH))
     else
       and_then (slice_from bs consumed) (\<lambda>bs.
       and_then (decode_ops (unat op_count) bs []) (\<lambda>(ops, bs).
       if bs \<noteq> [] then
         Inl (InvalidFormat ''WriteBatch''
           (dec_digits (length bs) @ '' trailing bytes after final op''))
       else Inr \<lparr>wb_ops = ops\<rparr>)))"

section \<open>The wire format\<close>

fun op_bytes :: "op \<Rightarrow> bytes" where
  "op_bytes (Put k v) = OP_PUT # leb128 (length k) @ k @ leb128 (length v) @ v"
| "op_bytes (Delete k) = OP_DELETE # leb128 (length k) @ k"

definition ops_bytes :: "op list \<Rightarrow> bytes" where
  "ops_bytes ops = leb128 (length ops) @ concat (map op_bytes ops)"

fun op_fits :: "op \<Rightarrow> bool" where
  "op_fits (Put k v) \<longleftrightarrow> length k < 2 ^ 32 \<and> length v < 2 ^ 32"
| "op_fits (Delete k) \<longleftrightarrow> length k < 2 ^ 32"

text \<open>Every count and length of the batch fits the \<^verbatim>\<open>u32\<close> it is stored in.\<close>

definition batch_fits :: "write_batch \<Rightarrow> bool" where
  "batch_fits b \<longleftrightarrow> length (wb_ops b) < 2 ^ 32 \<and> list_all op_fits (wb_ops b)"

lemma unat_of_nat_u32: "n < 2 ^ 32 \<Longrightarrow> unat (of_nat n :: u32) = n"
  by (rule unat_of_nat_less) simp

lemma push_u32_ok:
  assumes "n < 2 ^ 32" "length scratch = 5"
  obtains scratch' where "length scratch' = 5"
    "push_u32 n msg (scratch, out) = Inr (scratch', out @ leb128 n)"
proof -
  have "length (leb128 n) \<le> 5"
    using length_leb128_u32 [of "of_nat n"] assms(1) by (simp add: unat_of_nat_u32)
  then have "push_u32 n msg (scratch, out) =
      Inr (leb128 n @ drop (length (leb128 n)) scratch, out @ leb128 n)"
    using assms
    by (simp add: push_u32_def u32_try_from_def encode_u32_writes unat_of_nat_u32)
  moreover have "length (leb128 n @ drop (length (leb128 n)) scratch) = 5"
    using \<open>length (leb128 n) \<le> 5\<close> assms(2) by simp
  ultimately show thesis by (rule that [rotated])
qed

lemma encode_op_ok:
  assumes "op_fits op" "length scratch = 5"
  obtains scratch' where "length scratch' = 5"
    "encode_op op (scratch, out) = Inr (scratch', out @ op_bytes op)"
proof (cases op)
  case (Put k v)
  with assms have k: "length k < 2 ^ 32" and v: "length v < 2 ^ 32" by simp_all
  obtain s1 where s1: "length s1 = 5" "push_u32 (length k) ''key len fits in u32''
      (scratch, out @ [OP_PUT]) = Inr (s1, (out @ [OP_PUT]) @ leb128 (length k))"
    using push_u32_ok [OF k assms(2)] by blast
  obtain s2 where "length s2 = 5" "push_u32 (length v) ''value len fits in u32''
      (s1, ((out @ [OP_PUT]) @ leb128 (length k)) @ k) =
      Inr (s2, (((out @ [OP_PUT]) @ leb128 (length k)) @ k) @ leb128 (length v))"
    using push_u32_ok [OF v s1(1)] by blast
  with s1 show thesis by (intro that [of s2]) (simp_all add: Put)
next
  case (Delete k)
  with assms obtain s1 where "length s1 = 5" "push_u32 (length k) ''key len fits in u32''
      (scratch, out @ [OP_DELETE]) = Inr (s1, (out @ [OP_DELETE]) @ leb128 (length k))"
    using push_u32_ok [OF _ assms(2)] by (metis op_fits.simps(2))
  then show thesis by (intro that [of s1]) (simp_all add: Delete)
qed

lemma encode_ops_ok:
  assumes "list_all op_fits ops" "length scratch = 5"
  obtains scratch' where
    "encode_ops ops (scratch, out) = Inr (scratch', out @ concat (map op_bytes ops))"
  using assms
proof (induction ops arbitrary: scratch out thesis)
  case (Cons op ops)
  then have "op_fits op" by simp
  then obtain s1 where s1: "length s1 = 5" "encode_op op (scratch, out) = Inr (s1, out @ op_bytes op)"
    using encode_op_ok [OF _ Cons.prems(3)] by blast
  with Cons.prems Cons.IH [OF _ _ s1(1), of "out @ op_bytes op"] show ?case by auto
qed simp

lemma encode_into_fits: "batch_fits b \<Longrightarrow> encode_into b out = Inr (out @ ops_bytes (wb_ops b))"
proof -
  assume fits: "batch_fits b"
  then obtain s1 where s1: "length s1 = 5" "push_u32 (length (wb_ops b))
      ''op count never exceeds u32::MAX in any realistic batch'' (replicate 5 0, out) =
      Inr (s1, out @ leb128 (length (wb_ops b)))"
    using push_u32_ok [where n = "length (wb_ops b)" and scratch = "replicate 5 0"]
    by (metis batch_fits_def length_replicate)
  moreover from fits s1(1) obtain s2 where "encode_ops (wb_ops b)
      (s1, out @ leb128 (length (wb_ops b))) =
      Inr (s2, (out @ leb128 (length (wb_ops b))) @ concat (map op_bytes (wb_ops b)))"
    by (metis batch_fits_def encode_ops_ok)
  ultimately show ?thesis by (simp add: encode_into_def MAX_VARINT_U32_BYTES_def ops_bytes_def)
qed

lemma decode_u32_nat: "n < 2 ^ 32 \<Longrightarrow> decode_u32 (leb128 n @ rest) = Inr (of_nat n, length (leb128 n))"
  using decode_u32_leb128 [of "of_nat n" rest] by (simp add: unat_of_nat_u32)

lemma take_prefixed_bytes [simp]:
  "length k < 2 ^ 32 \<Longrightarrow> take_prefixed (leb128 (length k) @ k @ rest) = Inr (k, rest)"
  by (simp add: take_prefixed_def decode_u32_nat batch_take_def unat_of_nat_u32)

lemma decode_op_bytes: "op_fits op \<Longrightarrow> decode_op (op_bytes op @ rest) = Inr (op, rest)"
  by (cases op) (simp_all add: decode_op_def OP_PUT_def OP_DELETE_def)

lemma decode_ops_bytes:
  "list_all op_fits ops \<Longrightarrow>
     decode_ops (length ops) (concat (map op_bytes ops) @ rest) acc = Inr (acc @ ops, rest)"
  by (induction ops arbitrary: acc) (simp_all add: decode_op_bytes)

lemma batch_decode_bytes:
  "batch_fits b \<Longrightarrow> batch_decode (ops_bytes (wb_ops b)) =
     (if MAX_OPS_PER_BATCH < length (wb_ops b) then
        Inl (InvalidFormat ''WriteBatch''
          (''op_count '' @ dec_digits (length (wb_ops b)) @ '' exceeds limit '' @
           dec_digits MAX_OPS_PER_BATCH))
      else Inr b)"
  using decode_ops_bytes [of "wb_ops b" "[]" "[]"]
  by (cases b) (simp add: batch_fits_def batch_decode_def ops_bytes_def decode_u32_nat unat_of_nat_u32)

lemma no_panic_take_prefixed: "no_panic (take_prefixed bs)"
  unfolding take_prefixed_def
  by (rule no_panic_and_then) (auto dest!: decode_u32_consumed simp: batch_take_def)

lemma no_panic_decode_op: "no_panic (decode_op bs)"
  by (auto simp: decode_op_def no_panic_take_prefixed intro!: no_panic_and_then split: list.split)

lemma no_panic_decode_ops: "no_panic (decode_ops n bs ops)"
  by (induction n arbitrary: bs ops) (auto simp: no_panic_decode_op intro!: no_panic_and_then)

lemma no_panic_batch_decode: "no_panic (batch_decode bs)"
  unfolding batch_decode_def
  by (rule no_panic_and_then)
     (auto dest!: decode_u32_consumed simp: no_panic_decode_ops intro!: no_panic_and_then)

lemma take_prefixed_length: "take_prefixed bs = Inr (k, rest) \<Longrightarrow> length k < 2 ^ 32"
  using unsigned_less [where ?'a = nat and ?'b = 32]
  by (auto simp: take_prefixed_def batch_take_def result_simps split: if_splits)

lemma decode_op_fits: "decode_op bs = Inr (op, rest) \<Longrightarrow> op_fits op"
  by (auto simp: decode_op_def result_simps dest!: take_prefixed_length
      split: list.splits if_splits)

lemma decode_ops_fits:
  "decode_ops n bs acc = Inr (ops, rest) \<Longrightarrow> list_all op_fits acc \<Longrightarrow>
     list_all op_fits ops \<and> length ops = length acc + n"
  by (induction n arbitrary: bs acc)
     (fastforce simp: result_simps dest: decode_op_fits)+

lemma batch_decode_fits:
  "batch_decode bs = Inr b \<Longrightarrow> batch_fits b \<and> length (wb_ops b) \<le> MAX_OPS_PER_BATCH"
  by (auto simp: batch_decode_def result_simps batch_fits_def MAX_OPS_PER_BATCH_def
      dest!: decode_ops_fits split: if_splits)

lemma length_leb128_u32_nat: "n < 2 ^ 32 \<Longrightarrow> length (leb128 n) \<le> MAX_VARINT_U32_BYTES"
  using length_leb128_u32 [of "of_nat n"] by (simp add: unat_of_nat_u32 MAX_VARINT_U32_BYTES_def)

lemma length_op_bytes: "op_fits op \<Longrightarrow> length (op_bytes op) \<le> encoded_size_hint op"
  by (cases op) (auto intro!: add_mono length_leb128_u32_nat)

lemma length_ops_bytes:
  "batch_fits b \<Longrightarrow>
     length (ops_bytes (wb_ops b)) \<le> MAX_VARINT_U32_BYTES + sum_list (map encoded_size_hint (wb_ops b))"
proof -
  assume "batch_fits b"
  then have len: "length (wb_ops b) < 2 ^ 32" and ops: "list_all op_fits (wb_ops b)"
    by (simp_all add: batch_fits_def)
  from ops have "length (concat (map op_bytes (wb_ops b))) \<le> sum_list (map encoded_size_hint (wb_ops b))"
    by (induction "wb_ops b" rule: list.induct)
       (auto simp: length_concat list_all_iff intro!: sum_list_mono length_op_bytes)
  with length_leb128_u32_nat [OF len] show ?thesis by (simp add: ops_bytes_def)
qed

section \<open>Properties\<close>

text \<open>
  C8. A batch within the limits survives the wire: encoding appends to the buffer it is given,
  stays within the reserved capacity (so the vector never reallocates), and decoding the
  bytes gives the batch back, operation by operation.
\<close>

theorem batch_round_trip:
  assumes "batch_fits b" "batch_len b \<le> MAX_OPS_PER_BATCH"
  shows "\<exists>bs. batch_encode b = Inr bs \<and> encode_into b out = Inr (out @ bs) \<and>
    length bs \<le> MAX_VARINT_U32_BYTES + sum_list (map encoded_size_hint (wb_ops b)) \<and>
    batch_decode bs = Inr b"
  using assms length_ops_bytes [OF assms(1)]
  by (simp add: batch_encode_def encode_into_fits batch_decode_bytes batch_len_def not_less)

theorem batch_round_trip_witness:
  "\<exists>bs. batch_encode \<lparr>wb_ops = [Put [1, 2] [3], Delete [4]]\<rparr> = Inr bs \<and>
    batch_decode bs = Inr \<lparr>wb_ops = [Put [1, 2] [3], Delete [4]]\<rparr>"
  using batch_round_trip [of "\<lparr>wb_ops = [Put [1, 2] [3], Delete [4]]\<rparr>" "[]"]
  by (auto simp: batch_fits_def batch_len_def MAX_OPS_PER_BATCH_def)



text \<open>
  C10. The encoder has no counterpart of the decoder's limit: a batch with more than
  \<^verbatim>\<open>MAX_OPS_PER_BATCH\<close> operations is encoded without error, and the bytes are rejected when
  they are read back.
\<close>

theorem oversized_batch_unreadable:
  assumes "batch_fits b" "MAX_OPS_PER_BATCH < batch_len b"
  shows "\<exists>bs reason. batch_encode b = Inr bs \<and>
    batch_decode bs = Inl (InvalidFormat ''WriteBatch'' reason)"
  using assms by (simp add: batch_encode_def encode_into_fits batch_decode_bytes batch_len_def)

theorem oversized_batch_unreadable_witness:
  "\<exists>bs reason. batch_encode \<lparr>wb_ops = replicate (2 ^ 20 + 1) (Delete [])\<rparr> = Inr bs \<and>
    batch_decode bs = Inl (InvalidFormat ''WriteBatch'' reason)"
proof (rule oversized_batch_unreadable)
  show "batch_fits \<lparr>wb_ops = replicate (2 ^ 20 + 1) (Delete [])\<rparr>"
    unfolding batch_fits_def list_all_iff by (auto dest: in_set_replicate [THEN iffD1])
  show "MAX_OPS_PER_BATCH < batch_len \<lparr>wb_ops = replicate (2 ^ 20 + 1) (Delete [])\<rparr>"
    by (simp only: batch_len_def MAX_OPS_PER_BATCH_def length_replicate write_batch.simps)
qed

end
