(* ===== verification/Externs.thy ===== *)
theory Externs
  imports Prelude
begin

text \<open>
  What the engine calls and the repository does not contain, as one record that is an argument
  of every definition that reaches it: the checksums of the crates \<^verbatim>\<open>crc32c\<close> and
  \<^verbatim>\<open>xxhash_rust\<close>, AES-256-GCM of \<^verbatim>\<open>aes_gcm\<close> (key, nonce, associated data, message), HKDF with
  SHA-256 of \<^verbatim>\<open>hkdf\<close> (no salt; input key, info, output length), the answer of the global
  allocator to a layout (size, alignment), and whether the processor has AVX2.
\<close>

record externs =
  ext_crc32c :: "bytes \<Rightarrow> u32"
  ext_crc32c_append :: "u32 \<Rightarrow> bytes \<Rightarrow> u32"
  ext_xxh3_64 :: "bytes \<Rightarrow> u64"
  ext_aes256gcm_encrypt :: "bytes \<Rightarrow> bytes \<Rightarrow> bytes \<Rightarrow> bytes \<Rightarrow> bytes option"
  ext_aes256gcm_decrypt :: "bytes \<Rightarrow> bytes \<Rightarrow> bytes \<Rightarrow> bytes \<Rightarrow> bytes option"
  ext_hkdf_sha256 :: "bytes \<Rightarrow> bytes \<Rightarrow> nat \<Rightarrow> bytes option"
  ext_alloc :: "nat \<Rightarrow> nat \<Rightarrow> nat option"
  ext_avx2 :: bool

end
