(* ===== verification/Checksum.thy ===== *)
theory Checksum
  imports Externs
begin

text \<open>
  Block and record checksums, \<^verbatim>\<open>crates/paddock-core/src/checksum/\<close>: the algorithm tag, the
  one-shot hashes and the streaming CRC32C hasher.  The hash functions themselves are fields
  of the record \<open>externs\<close>, so every theorem holds for all hash functions unless it names a
  hypothesis about them.  The only one used is \<open>crc32c_streaming\<close>, the documented meaning of
  \<^verbatim>\<open>crc32c_append\<close>.
\<close>

text \<open>
  Appending to a checksum is the checksum of the concatenation, and the checksum of the
  empty string is zero.
\<close>

definition crc32c_streaming :: "externs \<Rightarrow> bool" where
  "crc32c_streaming E \<longleftrightarrow>
     ext_crc32c E [] = 0 \<and>
     (\<forall>a b. ext_crc32c_append E (ext_crc32c E a) b = ext_crc32c E (a @ b))"

section \<open>Algorithms\<close>

datatype algorithm = Crc32c | Xxh3

definition crc32c_hash :: "externs \<Rightarrow> bytes \<Rightarrow> u32" where
  "crc32c_hash E data = ext_crc32c E data"

definition xxh3_hash :: "externs \<Rightarrow> bytes \<Rightarrow> u64" where
  "xxh3_hash E data = ext_xxh3_64 E data"

fun algorithm_hash :: "externs \<Rightarrow> algorithm \<Rightarrow> bytes \<Rightarrow> u64" where
  "algorithm_hash E Crc32c data = ucast (crc32c_hash E data)"
| "algorithm_hash E Xxh3 data = xxh3_hash E data"

definition algorithm_from_tag :: "u8 \<Rightarrow> algorithm option" where
  "algorithm_from_tag tag = (if tag = 0 then Some Crc32c else if tag = 1 then Some Xxh3 else None)"

fun algorithm_tag :: "algorithm \<Rightarrow> u8" where
  "algorithm_tag Crc32c = 0"
| "algorithm_tag Xxh3 = 1"

lemma algorithm_tag_round_trip [simp]: "algorithm_from_tag (algorithm_tag a) = Some a"
  by (cases a) (simp_all add: algorithm_from_tag_def)

lemma algorithm_from_tag_Some: "algorithm_from_tag t = Some a \<longleftrightarrow> t = algorithm_tag a"
  by (cases a) (auto simp: algorithm_from_tag_def)

section \<open>The streaming hasher\<close>

record crc_hasher =
  ch_state :: u32

definition crc_hasher_new :: crc_hasher where
  "crc_hasher_new = \<lparr>ch_state = 0\<rparr>"

definition crc_hasher_update :: "externs \<Rightarrow> bytes \<Rightarrow> crc_hasher \<Rightarrow> crc_hasher" where
  "crc_hasher_update E data h = h\<lparr>ch_state := ext_crc32c_append E (ch_state h) data\<rparr>"

definition crc_hasher_finalize :: "crc_hasher \<Rightarrow> u32" where
  "crc_hasher_finalize h = ch_state h"

text \<open>Feeding chunks one after the other gives the one-shot hash of their concatenation.\<close>

lemma crc_hasher_chunks_from:
  "crc32c_streaming E \<Longrightarrow> ch_state h = ext_crc32c E done_bytes \<Longrightarrow>
     crc_hasher_finalize (fold (crc_hasher_update E) chunks h) =
       crc32c_hash E (done_bytes @ concat chunks)"
  by (induction chunks arbitrary: h done_bytes)
     (simp_all add: crc_hasher_finalize_def crc32c_hash_def crc_hasher_update_def crc32c_streaming_def)

lemma crc_hasher_chunks:
  "crc32c_streaming E \<Longrightarrow>
     crc_hasher_finalize (fold (crc_hasher_update E) chunks crc_hasher_new) =
       crc32c_hash E (concat chunks)"
  using crc_hasher_chunks_from [of E crc_hasher_new "[]" chunks]
  by (simp add: crc_hasher_new_def crc32c_streaming_def)

end
