(* ===== verification/WalFormat.thy ===== *)
theory WalFormat
  imports Checksum
begin

text \<open>
  On-disk layout of write-ahead-log segments, \<^verbatim>\<open>crates/paddock-core/src/wal/format.rs\<close>: the
  constants, the 32-byte segment header, the fragment types and the 16-byte record header,
  with their byte images.  A \<^verbatim>\<open>#[repr(C, packed)]\<close> header is a record of words; \<^verbatim>\<open>as_bytes\<close> lays
  the fields out in order, little-endian, and \<^verbatim>\<open>ref_from_bytes\<close> succeeds on slices of exactly
  the size of the header.
\<close>

section \<open>Constants\<close>

definition BLOCK_SIZE :: nat where "BLOCK_SIZE = 32 * 1024"
definition SEGMENT_HEADER_SIZE :: nat where "SEGMENT_HEADER_SIZE = 32"
definition RECORD_HEADER_SIZE :: nat where "RECORD_HEADER_SIZE = 16"
definition MAX_FRAGMENT_PAYLOAD :: nat where
  "MAX_FRAGMENT_PAYLOAD = BLOCK_SIZE - RECORD_HEADER_SIZE"
definition SEGMENT_MAGIC :: u32 where "SEGMENT_MAGIC = 0x4C574B50"
definition FORMAT_VERSION :: u32 where "FORMAT_VERSION = 1"

lemmas wal_sizes = BLOCK_SIZE_def SEGMENT_HEADER_SIZE_def RECORD_HEADER_SIZE_def
  MAX_FRAGMENT_PAYLOAD_def

section \<open>The segment header\<close>

record segment_header =
  sh_magic :: u32
  sh_version :: u32
  sh_segment_id :: u64
  sh_first_seqno :: u64
  sh_header_crc32c :: u32
  sh_reserved :: u32

definition segment_header_bytes :: "segment_header \<Rightarrow> bytes" where
  "segment_header_bytes h =
     u32_to_le (sh_magic h) @ u32_to_le (sh_version h) @ u64_to_le (sh_segment_id h) @
     u64_to_le (sh_first_seqno h) @ u32_to_le (sh_header_crc32c h) @ u32_to_le (sh_reserved h)"

definition segment_header_from_bytes :: "bytes \<Rightarrow> segment_header option" where
  "segment_header_from_bytes bs =
     (if length bs = SEGMENT_HEADER_SIZE then
        Some \<lparr>sh_magic = u32_from_le (take 4 bs), sh_version = u32_from_le (take 4 (drop 4 bs)),
              sh_segment_id = u64_from_le (take 8 (drop 8 bs)),
              sh_first_seqno = u64_from_le (take 8 (drop 16 bs)),
              sh_header_crc32c = u32_from_le (take 4 (drop 24 bs)),
              sh_reserved = u32_from_le (take 4 (drop 28 bs))\<rparr>
      else None)"

definition segment_header_new :: "u64 \<Rightarrow> u64 \<Rightarrow> segment_header" where
  "segment_header_new segment_id first_seqno =
     \<lparr>sh_magic = SEGMENT_MAGIC, sh_version = FORMAT_VERSION, sh_segment_id = segment_id,
      sh_first_seqno = first_seqno, sh_header_crc32c = 0, sh_reserved = 0\<rparr>"

definition segment_header_new_signed :: "externs \<Rightarrow> u64 \<Rightarrow> u64 \<Rightarrow> segment_header" where
  "segment_header_new_signed E segment_id first_seqno =
     (let h = segment_header_new segment_id first_seqno;
          crc = crc32c_hash E (take 24 (segment_header_bytes h))
      in h\<lparr>sh_header_crc32c := crc\<rparr>)"

definition segment_header_is_valid :: "externs \<Rightarrow> segment_header \<Rightarrow> bool" where
  "segment_header_is_valid E h \<longleftrightarrow>
     (if sh_magic h \<noteq> SEGMENT_MAGIC \<or> sh_version h \<noteq> FORMAT_VERSION then False
      else if sh_reserved h \<noteq> 0 then False
      else sh_header_crc32c h = crc32c_hash E (take 24 (segment_header_bytes h)))"

section \<open>Fragments and their headers\<close>

datatype record_type = Full | First | Middle | Last

definition record_type_from_byte :: "u8 \<Rightarrow> record_type option" where
  "record_type_from_byte tag =
     (if tag = 1 then Some Full else if tag = 2 then Some First
      else if tag = 3 then Some Middle else if tag = 4 then Some Last else None)"

fun record_type_as_byte :: "record_type \<Rightarrow> u8" where
  "record_type_as_byte Full = 1"
| "record_type_as_byte First = 2"
| "record_type_as_byte Middle = 3"
| "record_type_as_byte Last = 4"

record record_header =
  rh_payload_crc32c :: u32
  rh_length :: u16
  rh_record_type :: u8
  rh_reserved :: u8
  rh_seqno :: u64

definition record_header_bytes :: "record_header \<Rightarrow> bytes" where
  "record_header_bytes h =
     u32_to_le (rh_payload_crc32c h) @ u16_to_le (rh_length h) @
     [rh_record_type h, rh_reserved h] @ u64_to_le (rh_seqno h)"

definition record_header_from_bytes :: "bytes \<Rightarrow> record_header option" where
  "record_header_from_bytes bs =
     (if length bs = RECORD_HEADER_SIZE then
        Some \<lparr>rh_payload_crc32c = u32_from_le (take 4 bs),
              rh_length = u16_from_le (take 2 (drop 4 bs)),
              rh_record_type = bs ! 6, rh_reserved = bs ! 7,
              rh_seqno = u64_from_le (take 8 (drop 8 bs))\<rparr>
      else None)"

definition record_header_new :: "record_type \<Rightarrow> u64 \<Rightarrow> u16 \<Rightarrow> record_header" where
  "record_header_new t seqno len =
     \<lparr>rh_payload_crc32c = 0, rh_length = len, rh_record_type = record_type_as_byte t,
      rh_reserved = 0, rh_seqno = seqno\<rparr>"

definition record_header_expected_crc :: "externs \<Rightarrow> record_header \<Rightarrow> bytes \<Rightarrow> u32" where
  "record_header_expected_crc E h payload =
     (let hasher = crc_hasher_new;
          hasher = crc_hasher_update E [rh_record_type h, rh_reserved h] hasher;
          hasher = crc_hasher_update E (u64_to_le (rh_seqno h)) hasher;
          hasher = crc_hasher_update E payload hasher
      in crc_hasher_finalize hasher)"

definition record_header_sign :: "externs \<Rightarrow> bytes \<Rightarrow> record_header \<Rightarrow> record_header" where
  "record_header_sign E payload h =
     (let hasher = crc_hasher_new;
          hasher = crc_hasher_update E [rh_record_type h, rh_reserved h] hasher;
          hasher = crc_hasher_update E (u64_to_le (rh_seqno h)) hasher;
          hasher = crc_hasher_update E payload hasher
      in h\<lparr>rh_payload_crc32c := crc_hasher_finalize hasher\<rparr>)"

section \<open>Facts\<close>

lemma length_segment_header_bytes [simp]: "length (segment_header_bytes h) = 32"
  by (simp add: segment_header_bytes_def)

lemma length_record_header_bytes [simp]: "length (record_header_bytes h) = 16"
  by (simp add: record_header_bytes_def)

lemma segment_header_round_trip [simp]:
  "segment_header_from_bytes (segment_header_bytes h) = Some h"
  by (simp add: segment_header_from_bytes_def segment_header_bytes_def SEGMENT_HEADER_SIZE_def)

lemma record_header_round_trip [simp]:
  "record_header_from_bytes (record_header_bytes h) = Some h"
  by (simp add: record_header_from_bytes_def record_header_bytes_def RECORD_HEADER_SIZE_def
      nth_append)

lemma record_type_round_trip [simp]: "record_type_from_byte (record_type_as_byte t) = Some t"
  by (cases t) (simp_all add: record_type_from_byte_def)

lemma record_type_as_byte_nonzero [simp]: "record_type_as_byte t \<noteq> 0"
  by (cases t) simp_all

lemma segment_header_new_signed_valid [simp]:
  "segment_header_is_valid E (segment_header_new_signed E sid first)"
  by (simp add: segment_header_is_valid_def segment_header_new_signed_def segment_header_new_def
      segment_header_bytes_def Let_def)

lemma segment_header_new_signed_fields [simp]:
  "sh_magic (segment_header_new_signed E sid first) = SEGMENT_MAGIC"
  "sh_version (segment_header_new_signed E sid first) = FORMAT_VERSION"
  "sh_segment_id (segment_header_new_signed E sid first) = sid"
  "sh_first_seqno (segment_header_new_signed E sid first) = first"
  by (simp_all add: segment_header_new_signed_def segment_header_new_def Let_def)

lemma record_header_sign_fields [simp]:
  "rh_length (record_header_sign E p h) = rh_length h"
  "rh_record_type (record_header_sign E p h) = rh_record_type h"
  "rh_reserved (record_header_sign E p h) = rh_reserved h"
  "rh_seqno (record_header_sign E p h) = rh_seqno h"
  by (simp_all add: record_header_sign_def Let_def)

lemma record_header_new_fields [simp]:
  "rh_length (record_header_new t n l) = l"
  "rh_record_type (record_header_new t n l) = record_type_as_byte t"
  "rh_reserved (record_header_new t n l) = 0"
  "rh_seqno (record_header_new t n l) = n"
  by (simp_all add: record_header_new_def)

text \<open>The reader's check passes on what the writer signed, whatever the hash function is.\<close>

lemma record_header_sign_verifies [simp]:
  "record_header_expected_crc E (record_header_sign E p h) p =
     rh_payload_crc32c (record_header_sign E p h)"
  by (simp add: record_header_sign_def record_header_expected_crc_def Let_def)

text \<open>The header of a fragment is never the run of zeros that marks padding.\<close>

lemma record_header_bytes_not_zero:
  "rh_record_type h \<noteq> 0 \<Longrightarrow> \<not> list_all (\<lambda>b. b = 0) (record_header_bytes h)"
  by (simp add: record_header_bytes_def)

end
