(* ===== verification/Vfs.thy ===== *)
theory Vfs
  imports Prelude "HOL-Library.Char_ord"
begin

text \<open>
  The file-system seam of \<^verbatim>\<open>crates/paddock-core/src/io/vfs.rs\<close>: the traits \<^verbatim>\<open>Vfs\<close> and
  \<^verbatim>\<open>VfsFile\<close> as a record of operations over a store and its handles, the contract that the
  clients rely on as the locales \<open>file_store\<close> and \<open>file_system\<close>, and the in-memory
  implementation \<^verbatim>\<open>MemVfs\<close>, which is shown to meet the contract.

  The methods that take \<^verbatim>\<open>&self\<close> and only read (\<^verbatim>\<open>read_at\<close>, \<^verbatim>\<open>size\<close>, \<^verbatim>\<open>list\<close>) read the store;
  all others return the new store, on errors too.  Offsets and sizes are \<^verbatim>\<open>u64\<close> in the source
  and natural numbers here; the overflow checks of the source are written out.
\<close>

section \<open>The traits\<close>

record ('s, 'h) vfs =
  v_open_writable :: "string \<Rightarrow> ('s, 'h) io"
  v_open_readonly :: "string \<Rightarrow> ('s, 'h) io"
  v_rename :: "string \<Rightarrow> string \<Rightarrow> ('s, unit) io"
  v_remove :: "string \<Rightarrow> ('s, unit) io"
  v_list :: "string \<Rightarrow> 's \<Rightarrow> string list result"
  v_append :: "'h \<Rightarrow> bytes \<Rightarrow> ('s, nat) io"
  v_write_at :: "'h \<Rightarrow> bytes \<Rightarrow> nat \<Rightarrow> ('s, unit) io"
  v_sync :: "'h \<Rightarrow> ('s, unit) io"
  v_read_at :: "'h \<Rightarrow> nat \<Rightarrow> nat \<Rightarrow> 's \<Rightarrow> bytes result"
  v_size :: "'h \<Rightarrow> 's \<Rightarrow> nat result"

text \<open>
  What a client may rely on while the storage does not fail.  A handle denotes a file
  (\<open>fid\<close>), several handles may denote the same one, and \<open>contents\<close> is the byte string of a
  file.  The size bound is the one every offset has, a \<^verbatim>\<open>u64\<close>.
\<close>

definition overwrite :: "bytes \<Rightarrow> nat \<Rightarrow> bytes \<Rightarrow> bytes" where
  "overwrite old off new = take off old @ new @ drop (off + length new) old"

lemma length_overwrite [simp]: "off + length new \<le> length old \<Longrightarrow> length (overwrite old off new) = length old"
  by (simp add: overwrite_def)

lemma overwrite_front: "length new = length a \<Longrightarrow> overwrite (a @ b) 0 new = new @ b"
  by (simp add: overwrite_def)

locale file_store =
  fixes V :: "('s, 'h) vfs" and live :: "'s \<Rightarrow> 'f \<Rightarrow> bool" and contents :: "'s \<Rightarrow> 'f \<Rightarrow> bytes"
    and fid :: "'h \<Rightarrow> 'f"
  assumes append_ok: "live s (fid h) \<Longrightarrow> \<exists>s'. v_append V h d s = (s', Inr (length (contents s (fid h)))) \<and>
      contents s' (fid h) = contents s (fid h) @ d \<and>
      (\<forall>f. f \<noteq> fid h \<longrightarrow> contents s' f = contents s f) \<and> live s' = live s"
    and write_at_ok: "live s (fid h) \<Longrightarrow> off + length d \<le> length (contents s (fid h)) \<Longrightarrow>
      length (contents s (fid h)) < 2 ^ 64 \<Longrightarrow> \<exists>s'. v_write_at V h d off s = (s', Inr ()) \<and>
      contents s' (fid h) = overwrite (contents s (fid h)) off d \<and>
      (\<forall>f. f \<noteq> fid h \<longrightarrow> contents s' f = contents s f) \<and> live s' = live s"
    and sync_ok: "live s (fid h) \<Longrightarrow> v_sync V h s = (s, Inr ())"
    and read_at_ok: "live s (fid h) \<Longrightarrow> off + n \<le> length (contents s (fid h)) \<Longrightarrow>
      length (contents s (fid h)) < 2 ^ 64 \<Longrightarrow>
      v_read_at V h n off s = Inr (take n (drop off (contents s (fid h))))"
    and size_ok: "live s (fid h) \<Longrightarrow> v_size V h s = Inr (length (contents s (fid h)))"

context file_store
begin

text \<open>The effect of a successful run of appends to one file.\<close>

definition grew :: "'f \<Rightarrow> bytes \<Rightarrow> 's \<Rightarrow> 's \<Rightarrow> bool" where
  "grew f d s s' \<longleftrightarrow> contents s' f = contents s f @ d \<and>
     (\<forall>g. g \<noteq> f \<longrightarrow> contents s' g = contents s g) \<and> live s' = live s"

lemma grew_refl [simp]: "grew f [] s s"
  by (simp add: grew_def)

lemma grew_trans: "grew f d s s' \<Longrightarrow> grew f e s' s'' \<Longrightarrow> grew f (d @ e) s s''"
  by (simp add: grew_def)

lemma append_grew:
  assumes "live s (fid h)"
  obtains s' where "v_append V h d s = (s', Inr (length (contents s (fid h))))" "grew (fid h) d s s'"
  using append_ok [OF assms, of d] by (auto simp: grew_def)

end

text \<open>
  The directory on top: a path names a file, opening creates a file only when the path is
  new, a rename moves the name and keeps the file, and listing gives the names directly
  below a directory.
\<close>

locale file_system = file_store V live contents fid
  for V :: "('s, 'h) vfs" and live :: "'s \<Rightarrow> 'f \<Rightarrow> bool" and contents :: "'s \<Rightarrow> 'f \<Rightarrow> bytes"
    and fid :: "'h \<Rightarrow> 'f" +
  fixes wf :: "'s \<Rightarrow> bool" and dir :: "'s \<Rightarrow> string \<Rightarrow> 'f option"
  assumes dir_live: "wf s \<Longrightarrow> dir s p = Some f \<Longrightarrow> live s f"
    and append_dir: "wf s \<Longrightarrow> v_append V h d s = (s', r) \<Longrightarrow> wf s' \<and> dir s' = dir s"
    and write_at_dir: "wf s \<Longrightarrow> v_write_at V h d off s = (s', u) \<Longrightarrow> wf s' \<and> dir s' = dir s"
    and open_writable_ok: "wf s \<Longrightarrow> \<exists>s' h. v_open_writable V p s = (s', Inr h) \<and> wf s' \<and>
      dir s' = (dir s)(p \<mapsto> fid h) \<and> live s' (fid h) \<and>
      (\<forall>f. live s f \<longrightarrow> live s' f \<and> contents s' f = contents s f) \<and>
      (case dir s p of Some f \<Rightarrow> fid h = f | None \<Rightarrow> \<not> live s (fid h) \<and> contents s' (fid h) = [])"
    and open_readonly_ok: "wf s \<Longrightarrow> dir s p = Some f \<Longrightarrow>
      \<exists>h. v_open_readonly V p s = (s, Inr h) \<and> fid h = f"
    and open_readonly_missing: "wf s \<Longrightarrow> dir s p = None \<Longrightarrow>
      \<exists>m. v_open_readonly V p s = (s, Inl (Io NotFound m))"
    and rename_ok: "wf s \<Longrightarrow> dir s p = Some f \<Longrightarrow> \<exists>s'. v_rename V p q s = (s', Inr ()) \<and> wf s' \<and>
      dir s' = (dir s)(p := None, q \<mapsto> f) \<and> live s' = live s \<and> contents s' = contents s"
    and rename_missing: "wf s \<Longrightarrow> dir s p = None \<Longrightarrow> \<exists>m. v_rename V p q s = (s, Inl (Io NotFound m))"
    and remove_ok: "wf s \<Longrightarrow> \<exists>s'. v_remove V p s = (s', Inr ()) \<and> wf s' \<and>
      dir s' = (dir s)(p := None) \<and> live s' = live s \<and> contents s' = contents s"
    and list_ok: "wf s \<Longrightarrow> p = [] \<or> last p \<noteq> CHR ''/'' \<Longrightarrow>
      \<exists>names. v_list V p s = Inr names \<and> distinct names \<and>
        set names = {n. dir s (p @ CHR ''/'' # n) \<noteq> None \<and> CHR ''/'' \<notin> set n}"

section \<open>The in-memory implementation\<close>

text \<open>
  \<^verbatim>\<open>BTreeMap\<close>: an association list in key order.  A file is an index into the heap of
  shared byte vectors (the \<^verbatim>\<open>Arc<Mutex<Vec<u8>>>\<close>), and a handle is that index, so that a
  renamed or removed file stays reachable through the handles opened before.
\<close>

fun btree_insert :: "'k::linorder \<Rightarrow> 'v \<Rightarrow> ('k \<times> 'v) list \<Rightarrow> ('k \<times> 'v) list" where
  "btree_insert k v [] = [(k, v)]"
| "btree_insert k v ((k', v') # xs) =
     (if k = k' then (k, v) # xs
      else if k < k' then (k, v) # (k', v') # xs
      else (k', v') # btree_insert k v xs)"

definition btree_remove :: "'k \<Rightarrow> ('k \<times> 'v) list \<Rightarrow> ('k \<times> 'v) list" where
  "btree_remove k xs = filter (\<lambda>(k', v). k' \<noteq> k) xs"

record mem_vfs =
  mv_files :: "(string \<times> nat) list"
  mv_heap :: "bytes list"

definition mem_vfs_new :: mem_vfs where "mem_vfs_new = \<lparr>mv_files = [], mv_heap = []\<rparr>"

definition quoted :: "string \<Rightarrow> string" where
  "quoted s = CHR 0x27 # s @ [CHR 0x27]"

definition mem_open_writable :: "string \<Rightarrow> (mem_vfs, nat) io" where
  "mem_open_writable path s =
     (case map_of (mv_files s) path of
        Some h \<Rightarrow> (s, Inr h)
      | None \<Rightarrow>
          let h = length (mv_heap s)
          in (s\<lparr>mv_files := btree_insert path h (mv_files s), mv_heap := mv_heap s @ [[]]\<rparr>, Inr h))"

definition mem_open_readonly :: "string \<Rightarrow> (mem_vfs, nat) io" where
  "mem_open_readonly path s =
     (case map_of (mv_files s) path of
        Some h \<Rightarrow> (s, Inr h)
      | None \<Rightarrow> (s, Inl (Io NotFound (''MemVfs: missing file '' @ quoted path))))"

definition mem_rename :: "string \<Rightarrow> string \<Rightarrow> (mem_vfs, unit) io" where
  "mem_rename from to s =
     (case map_of (mv_files s) from of
        None \<Rightarrow> (s, Inl (Io NotFound (''MemVfs: rename source '' @ quoted from @ '' missing'')))
      | Some h \<Rightarrow>
          (s\<lparr>mv_files := btree_insert to h (btree_remove from (mv_files s))\<rparr>, Inr ()))"

definition mem_remove :: "string \<Rightarrow> (mem_vfs, unit) io" where
  "mem_remove path s = (s\<lparr>mv_files := btree_remove path (mv_files s)\<rparr>, Inr ())"

definition strip_prefix :: "string \<Rightarrow> string \<Rightarrow> string option" where
  "strip_prefix pre s =
     (if take (length pre) s = pre then Some (drop (length pre) s) else None)"

definition mem_list :: "string \<Rightarrow> mem_vfs \<Rightarrow> string list result" where
  "mem_list dir s =
     (let pre = (if dir \<noteq> [] \<and> last dir = CHR ''/'' then dir else dir @ [CHR ''/''])
      in Inr (filter (\<lambda>k. CHR ''/'' \<notin> set k)
            (List.map_filter (strip_prefix pre) (map fst (mv_files s)))))"

definition mem_append :: "nat \<Rightarrow> bytes \<Rightarrow> (mem_vfs, nat) io" where
  "mem_append h data s =
     (let bytes = mv_heap s ! h
      in (s\<lparr>mv_heap := (mv_heap s)[h := bytes @ data]\<rparr>, Inr (length bytes)))"

definition mem_write_at :: "nat \<Rightarrow> bytes \<Rightarrow> nat \<Rightarrow> (mem_vfs, unit) io" where
  "mem_write_at h data off s =
     (let bytes = mv_heap s ! h; end_off = off + length data
      in if 2 ^ 64 \<le> off then (s, Inl (Io InvalidInput ''MemFile: offset overflow''))
         else if 2 ^ 64 \<le> end_off
         then (s, Inl (Io InvalidInput ''MemFile: offset + length overflow''))
         else if length bytes < end_off
         then (s, Inl (Io InvalidInput ''MemFile::write_at: range extends past file end''))
         else (s\<lparr>mv_heap := (mv_heap s)[h := take off bytes @ data @ drop end_off bytes]\<rparr>, Inr ()))"

definition mem_sync :: "nat \<Rightarrow> (mem_vfs, unit) io" where
  "mem_sync h s = (s, Inr ())"

definition mem_read_at :: "nat \<Rightarrow> nat \<Rightarrow> nat \<Rightarrow> mem_vfs \<Rightarrow> bytes result" where
  "mem_read_at h n off s =
     (let bytes = mv_heap s ! h; end_off = off + n
      in if 2 ^ 64 \<le> off then Inl (Io InvalidInput ''MemFile: offset overflow'')
         else if 2 ^ 64 \<le> end_off then Inl (Io InvalidInput ''MemFile: offset + length overflow'')
         else if length bytes < end_off then Inl (Io IoUnexpectedEof ''MemFile: short read'')
         else slice_range bytes off end_off)"

definition mem_size :: "nat \<Rightarrow> mem_vfs \<Rightarrow> nat result" where
  "mem_size h s = Inr (length (mv_heap s ! h))"

definition MemVfs :: "(mem_vfs, nat) vfs" where
  "MemVfs = \<lparr>v_open_writable = mem_open_writable, v_open_readonly = mem_open_readonly,
     v_rename = mem_rename, v_remove = mem_remove, v_list = mem_list, v_append = mem_append,
     v_write_at = mem_write_at, v_sync = mem_sync, v_read_at = mem_read_at, v_size = mem_size\<rparr>"

section \<open>The in-memory implementation meets the contract\<close>

definition mem_wf :: "mem_vfs \<Rightarrow> bool" where
  "mem_wf s \<longleftrightarrow> sorted_wrt (<) (map fst (mv_files s)) \<and>
     list_all (\<lambda>(p, h). h < length (mv_heap s)) (mv_files s)"

abbreviation mem_live :: "mem_vfs \<Rightarrow> nat \<Rightarrow> bool" where
  "mem_live s h \<equiv> h < length (mv_heap s)"

abbreviation mem_contents :: "mem_vfs \<Rightarrow> nat \<Rightarrow> bytes" where
  "mem_contents s h \<equiv> mv_heap s ! h"

abbreviation mem_dir :: "mem_vfs \<Rightarrow> string \<Rightarrow> nat option" where
  "mem_dir s \<equiv> map_of (mv_files s)"

lemma map_of_btree_insert [simp]: "map_of (btree_insert k v xs) = (map_of xs)(k \<mapsto> v)"
  by (induction k v xs rule: btree_insert.induct) (auto simp: fun_eq_iff)

lemma map_of_btree_remove [simp]: "map_of (btree_remove k xs) = (map_of xs)(k := None)"
  by (induction xs) (auto simp: btree_remove_def fun_eq_iff)

lemma set_keys_btree_insert [simp]:
  "set (map fst (btree_insert k v xs)) = insert k (set (map fst xs))"
  by (induction k v xs rule: btree_insert.induct) auto

lemma sorted_btree_insert:
  "sorted_wrt (<) (map fst xs) \<Longrightarrow> sorted_wrt (<) (map fst (btree_insert k v xs))"
  by (induction k v xs rule: btree_insert.induct) (auto simp del: set_map)

lemma sorted_btree_remove:
  "sorted_wrt (<) (map fst xs) \<Longrightarrow> sorted_wrt (<) (map fst (btree_remove k xs))"
  by (induction xs) (auto simp: btree_remove_def)

lemma list_all_btree_insert:
  "list_all P xs \<Longrightarrow> P (k, v) \<Longrightarrow> list_all P (btree_insert k v xs)"
  by (induction k v xs rule: btree_insert.induct) auto

lemma list_all_btree_remove: "list_all P xs \<Longrightarrow> list_all P (btree_remove k xs)"
  by (auto simp: btree_remove_def list_all_iff)

lemmas mem_wf_btree = sorted_btree_insert sorted_btree_remove list_all_btree_insert
  list_all_btree_remove

lemma mem_wf_grow:
  "list_all (\<lambda>(p, h). h < n) xs \<Longrightarrow> list_all (\<lambda>(p, h). h < Suc n) (btree_insert p n xs)"
  by (rule list_all_btree_insert) (auto simp: list_all_iff)

lemma mem_wf_move:
  "list_all (\<lambda>(p, h). h < n) xs \<Longrightarrow> map_of xs p = Some f \<Longrightarrow>
     list_all (\<lambda>(p, h). h < n) (btree_insert q f (btree_remove p xs))"
  by (intro list_all_btree_insert list_all_btree_remove)
     (auto simp: list_all_iff dest: map_of_SomeD)

lemma mem_dir_live: "mem_wf s \<Longrightarrow> mem_dir s p = Some h \<Longrightarrow> mem_live s h"
  by (auto simp: mem_wf_def list_all_iff dest: map_of_SomeD)

lemma strip_prefix_Some: "strip_prefix pre s = Some n \<longleftrightarrow> s = pre @ n"
  by (auto simp: strip_prefix_def) (metis append_take_drop_id)

lemma strip_prefix_append [simp]: "strip_prefix pre (pre @ n) = Some n"
  by (simp add: strip_prefix_Some)

lemma set_map_filter_strip:
  "set (List.map_filter (strip_prefix pre) xs) = {n. pre @ n \<in> set xs}"
  by (induction xs) (auto simp: List.map_filter_simps strip_prefix_Some split: option.split)

lemma distinct_map_filter_strip:
  "distinct xs \<Longrightarrow> distinct (List.map_filter (strip_prefix pre) xs)"
  by (induction xs)
     (auto simp: List.map_filter_simps strip_prefix_Some set_map_filter_strip split: option.split)

lemma mem_list_ok:
  assumes "mem_wf s" "p = [] \<or> last p \<noteq> CHR ''/''"
  shows "\<exists>names. mem_list p s = Inr names \<and> distinct names \<and>
    set names = {n. mem_dir s (p @ CHR ''/'' # n) \<noteq> None \<and> CHR ''/'' \<notin> set n}"
proof -
  have "distinct (map fst (mv_files s))"
    using assms(1) by (simp add: mem_wf_def strict_sorted_iff)
  moreover have "(mem_dir s k \<noteq> None) = (k \<in> fst ` set (mv_files s))" for k
    by (simp add: map_of_eq_None_iff)
  ultimately show ?thesis
    using assms(2) by (auto simp: mem_list_def distinct_map_filter_strip set_map_filter_strip)
qed

interpretation mem: file_system MemVfs mem_live mem_contents id mem_wf mem_dir
proof unfold_locales
  show "\<exists>names. v_list MemVfs p s = Inr names \<and> distinct names \<and>
      set names = {n. mem_dir s (p @ CHR ''/'' # n) \<noteq> None \<and> CHR ''/'' \<notin> set n}"
    if "mem_wf s" "p = [] \<or> last p \<noteq> CHR ''/''" for s p
    using mem_list_ok [OF that] by (simp add: MemVfs_def)
qed (auto simp: MemVfs_def mem_append_def mem_write_at_def mem_sync_def mem_read_at_def
    mem_size_def mem_open_writable_def mem_open_readonly_def mem_rename_def mem_remove_def
    overwrite_def Let_def mem_wf_def nth_append intro: mem_wf_btree mem_wf_grow mem_wf_move mem_dir_live
    split: option.split if_splits)

end
