(* ===== verification/WalWriter.thy ===== *)
theory WalWriter
  imports WalFormat Vfs
begin

text \<open>
  The segment writer, \<^verbatim>\<open>crates/paddock-core/src/wal/writer.rs\<close>, over any file system.  The state
  of a method is the writer together with the store, so that what an operation did before it
  failed is part of its outcome.

  The layout it produces has the reference definition \<open>log_from\<close>: padding where a header does
  not fit, and one signed fragment per block.
\<close>

section \<open>The writer\<close>

record 'h segment_writer =
  sw_file :: 'h
  sw_block_offset :: nat
  sw_segment_id :: u64
  sw_bytes_written :: nat
  sw_rotate_at :: nat

type_synonym ('s, 'h, 'a) writer_io = "('h segment_writer \<times> 's, 'a) io"

definition DEFAULT_ROTATE_AT :: nat where "DEFAULT_ROTATE_AT = 64 * 1024 * 1024"

definition segment_writer_create ::
  "externs \<Rightarrow> ('s, 'h) vfs \<Rightarrow> 'h \<Rightarrow> u64 \<Rightarrow> u64 \<Rightarrow> ('s, 'h segment_writer) io" where
  "segment_writer_create E V file segment_id first_seqno =
     (let header = segment_header_new_signed E segment_id first_seqno
      in io_bind (v_append V file (segment_header_bytes header)) (\<lambda>_.
         io_return \<lparr>sw_file = file, sw_block_offset = 0, sw_segment_id = segment_id,
                    sw_bytes_written = 0, sw_rotate_at = DEFAULT_ROTATE_AT\<rparr>))"

definition set_rotate_at :: "nat \<Rightarrow> 'h segment_writer \<Rightarrow> 'h segment_writer" where
  "set_rotate_at n w = w\<lparr>sw_rotate_at := n\<rparr>"

definition should_rotate :: "'h segment_writer \<Rightarrow> bool" where
  "should_rotate w \<longleftrightarrow> sw_rotate_at w \<le> sw_bytes_written w"

text \<open>An append to the writer's file.\<close>

definition sw_append :: "('s, 'h) vfs \<Rightarrow> bytes \<Rightarrow> ('s, 'h, nat) writer_io" where
  "sw_append V data = (\<lambda>(w, s). let (s', r) = v_append V (sw_file w) data s in ((w, s'), r))"

text \<open>\<^verbatim>\<open>bytes_written.checked_add(n).expect(..)\<close>\<close>

definition sw_add_written :: "nat \<Rightarrow> ('s, 'h, unit) writer_io" where
  "sw_add_written n = (\<lambda>(w, s).
     if sw_bytes_written w + n < 2 ^ 64
     then ((w\<lparr>sw_bytes_written := sw_bytes_written w + n\<rparr>, s), Inr ())
     else ((w, s), Inl (Panic ''WAL segment bytes_written overflow'')))"

definition sw_set_block_offset :: "nat \<Rightarrow> ('s, 'h, unit) writer_io" where
  "sw_set_block_offset n = (\<lambda>(w, s). ((w\<lparr>sw_block_offset := n\<rparr>, s), Inr ()))"

definition pad_block_if_header_would_not_fit :: "('s, 'h) vfs \<Rightarrow> ('s, 'h, unit) writer_io" where
  "pad_block_if_header_would_not_fit V = (\<lambda>(w, s).
     let block_remaining = BLOCK_SIZE - sw_block_offset w
     in if block_remaining < RECORD_HEADER_SIZE then
          io_bind (sw_append V (replicate block_remaining 0)) (\<lambda>_.
          io_bind (sw_add_written block_remaining) (\<lambda>_.
          sw_set_block_offset 0)) (w, s)
        else ((w, s), Inr ()))"

definition write_fragment ::
  "externs \<Rightarrow> ('s, 'h) vfs \<Rightarrow> record_type \<Rightarrow> u64 \<Rightarrow> bytes \<Rightarrow> ('s, 'h, unit) writer_io" where
  "write_fragment E V t seqno payload = (\<lambda>(w, s).
     let header = record_header_sign E payload (record_header_new t seqno (of_nat (length payload)));
         frag_total = RECORD_HEADER_SIZE + length payload
     in io_bind (sw_append V (record_header_bytes header)) (\<lambda>_.
        io_bind (sw_append V payload) (\<lambda>_.
        io_bind (sw_set_block_offset (sw_block_offset w + frag_total)) (\<lambda>_.
        sw_add_written frag_total))) (w, s))"

fun fragment_type :: "bool \<Rightarrow> bool \<Rightarrow> record_type" where
  "fragment_type True True = Full"
| "fragment_type True False = First"
| "fragment_type False True = Last"
| "fragment_type False False = Middle"

text \<open>
  The loop of \<^verbatim>\<open>append_record\<close>.  It ends because a fragment without payload is written only
  when the block has no room left, and the next one starts a fresh block.
\<close>

function append_loop ::
  "externs \<Rightarrow> ('s, 'h) vfs \<Rightarrow> u64 \<Rightarrow> bytes \<Rightarrow> bool \<Rightarrow> 'h segment_writer \<Rightarrow> 's \<Rightarrow>
     ('h segment_writer \<times> 's) \<times> unit result" where
  "append_loop E V seqno remaining is_first w s =
     (let block_remaining = BLOCK_SIZE - sw_block_offset w;
          payload_room = block_remaining - RECORD_HEADER_SIZE;
          fragment_len = min (length remaining) payload_room;
          is_last = (fragment_len = length remaining);
          remaining' = drop fragment_len remaining
      in case write_fragment E V (fragment_type is_first is_last) seqno
                (take fragment_len remaining) (w, s) of
           (ws, Inl e) \<Rightarrow> (ws, Inl e)
         | ((w', s'), Inr _) \<Rightarrow>
             if remaining' = [] then ((w', s'), Inr ())
             else append_loop E V seqno remaining' False (w'\<lparr>sw_block_offset := 0\<rparr>) s')"
  by pat_completeness auto
termination
  by (relation "measures [\<lambda>(E, V, q, r, f, w, s). length r,
                          \<lambda>(E, V, q, r, f, w, s). sw_block_offset w]")
     (auto simp: wal_sizes)

declare append_loop.simps [simp del]

definition append_record ::
  "externs \<Rightarrow> ('s, 'h) vfs \<Rightarrow> u64 \<Rightarrow> bytes \<Rightarrow> ('s, 'h, nat) writer_io" where
  "append_record E V seqno payload = (\<lambda>(w, s).
     let record_start = sw_bytes_written w
     in io_bind (pad_block_if_header_would_not_fit V) (\<lambda>_.
        io_bind (\<lambda>(w, s). append_loop E V seqno payload True w s) (\<lambda>_.
        io_return record_start)) (w, s))"

definition segment_writer_sync :: "('s, 'h) vfs \<Rightarrow> ('s, 'h, unit) writer_io" where
  "segment_writer_sync V = (\<lambda>(w, s). let (s', r) = v_sync V (sw_file w) s in ((w, s'), r))"

section \<open>The layout\<close>

definition frag_bytes :: "externs \<Rightarrow> u64 \<Rightarrow> record_type \<times> bytes \<Rightarrow> bytes" where
  "frag_bytes E seqno = (\<lambda>(t, payload).
     record_header_bytes
       (record_header_sign E payload (record_header_new t seqno (of_nat (length payload)))) @
     payload)"

text \<open>The fragments of a record whose first header starts at offset \<open>off\<close> of a block.\<close>

function rec_frags :: "nat \<Rightarrow> bytes \<Rightarrow> bool \<Rightarrow> (record_type \<times> bytes) list" where
  "rec_frags off remaining is_first =
     (let n = min (length remaining) (BLOCK_SIZE - off - RECORD_HEADER_SIZE)
      in (fragment_type is_first (n = length remaining), take n remaining) #
         (if drop n remaining = [] then [] else rec_frags 0 (drop n remaining) False))"
  by pat_completeness auto
termination
  by (relation "measures [\<lambda>(off, r, f). length r, \<lambda>(off, r, f). off]") (auto simp: wal_sizes)

declare rec_frags.simps [simp del]

definition pad_len :: "nat \<Rightarrow> nat" where
  "pad_len off = (if BLOCK_SIZE - off < RECORD_HEADER_SIZE then BLOCK_SIZE - off else 0)"

definition start_off :: "nat \<Rightarrow> nat" where
  "start_off off = (if BLOCK_SIZE - off < RECORD_HEADER_SIZE then 0 else off)"

definition frags_bytes :: "externs \<Rightarrow> u64 \<Rightarrow> nat \<Rightarrow> bytes \<Rightarrow> bool \<Rightarrow> bytes" where
  "frags_bytes E seqno off payload is_first =
     concat (map (frag_bytes E seqno) (rec_frags off payload is_first))"

definition record_bytes :: "externs \<Rightarrow> nat \<Rightarrow> u64 \<times> bytes \<Rightarrow> bytes" where
  "record_bytes E off = (\<lambda>(seqno, payload).
     replicate (pad_len off) 0 @ frags_bytes E seqno (start_off off) payload True)"

text \<open>The records area from position \<open>pos\<close> on.\<close>

fun log_from :: "externs \<Rightarrow> nat \<Rightarrow> (u64 \<times> bytes) list \<Rightarrow> bytes" where
  "log_from E pos [] = []"
| "log_from E pos (r # rs) =
     (let bs = record_bytes E (pos mod BLOCK_SIZE) r in bs @ log_from E (pos + length bs) rs)"

definition segment_bytes :: "externs \<Rightarrow> u64 \<Rightarrow> u64 \<Rightarrow> (u64 \<times> bytes) list \<Rightarrow> bytes" where
  "segment_bytes E segment_id first_seqno recs =
     segment_header_bytes (segment_header_new_signed E segment_id first_seqno) @ log_from E 0 recs"

lemma length_frag_bytes [simp]: "length (frag_bytes E q (t, p)) = RECORD_HEADER_SIZE + length p"
  by (simp add: frag_bytes_def RECORD_HEADER_SIZE_def)

lemma frags_bytes_unfold:
  "frags_bytes E q off rem f =
     (let n = min (length rem) (BLOCK_SIZE - off - RECORD_HEADER_SIZE)
      in frag_bytes E q (fragment_type f (n = length rem), take n rem) @
         (if drop n rem = [] then [] else frags_bytes E q 0 (drop n rem) False))"
  unfolding frags_bytes_def by (subst rec_frags.simps) (simp add: Let_def)

lemma log_from_append:
  "log_from E pos (rs @ rs') = log_from E pos rs @ log_from E (pos + length (log_from E pos rs)) rs'"
  by (induction rs arbitrary: pos) (simp_all add: Let_def add.assoc)

section \<open>The writer produces the layout\<close>

text \<open>
  The counters of the writer agree with the records area: the block offset is the position
  within the current block, with a full block counted as \<^verbatim>\<open>BLOCK_SIZE\<close>.
\<close>

definition sw_inv :: "'h segment_writer \<Rightarrow> bytes \<Rightarrow> bool" where
  "sw_inv w area \<longleftrightarrow> sw_bytes_written w = length area \<and> sw_block_offset w \<le> BLOCK_SIZE \<and>
     sw_block_offset w mod BLOCK_SIZE = length area mod BLOCK_SIZE"

text \<open>A sequence of appends, stopping at the first error.\<close>

fun append_records :: "externs \<Rightarrow> ('s, 'h) vfs \<Rightarrow> (u64 \<times> bytes) list \<Rightarrow> ('s, 'h, unit) writer_io" where
  "append_records E V [] ws = (ws, Inr ())"
| "append_records E V ((q, p) # rs) ws =
     io_bind (append_record E V q p) (\<lambda>_. append_records E V rs) ws"

lemma record_bytes_mod:
  "off \<le> BLOCK_SIZE \<Longrightarrow> record_bytes E (off mod BLOCK_SIZE) r = record_bytes E off r"
  by (cases "off = BLOCK_SIZE")
     (simp_all add: record_bytes_def pad_len_def start_off_def wal_sizes split: prod.split)

lemma start_off_room: "start_off off + RECORD_HEADER_SIZE \<le> BLOCK_SIZE"
  by (auto simp: start_off_def wal_sizes)

lemma pad_then_start: "off \<le> BLOCK_SIZE \<Longrightarrow> start_off off mod BLOCK_SIZE = (off + pad_len off) mod BLOCK_SIZE"
  by (simp add: start_off_def pad_len_def)

context file_store
begin

lemma write_fragment_ok:
  assumes "live s (fid (sw_file w))" "sw_bytes_written w + RECORD_HEADER_SIZE + length p < 2 ^ 64"
  obtains s' where "write_fragment E V t q p (w, s) =
      ((w\<lparr>sw_block_offset := sw_block_offset w + RECORD_HEADER_SIZE + length p,
         sw_bytes_written := sw_bytes_written w + RECORD_HEADER_SIZE + length p\<rparr>, s'), Inr ())"
    "grew (fid (sw_file w)) (frag_bytes E q (t, p)) s s'"
proof -
  let ?f = "fid (sw_file w)"
  let ?h = "record_header_bytes (record_header_sign E p (record_header_new t q (of_nat (length p))))"
  obtain s1 where s1: "v_append V (sw_file w) ?h s = (s1, Inr (length (contents s ?f)))"
    "grew ?f ?h s s1" using append_grew [OF assms(1)] by blast
  then have "live s1 ?f" using assms(1) by (simp add: grew_def)
  then obtain s2 where s2: "v_append V (sw_file w) p s1 = (s2, Inr (length (contents s1 ?f)))"
    "grew ?f p s1 s2" using append_grew by blast
  have "grew ?f (frag_bytes E q (t, p)) s s2"
    using grew_trans [OF s1(2) s2(2)] by (simp add: frag_bytes_def)
  moreover have "write_fragment E V t q p (w, s) =
      ((w\<lparr>sw_block_offset := sw_block_offset w + RECORD_HEADER_SIZE + length p,
         sw_bytes_written := sw_bytes_written w + RECORD_HEADER_SIZE + length p\<rparr>, s2), Inr ())"
    using s1(1) s2(1) assms(2)
    by (simp add: write_fragment_def sw_append_def io_bind_def sw_set_block_offset_def
        sw_add_written_def Let_def add.assoc)
  ultimately show thesis by (rule that [rotated])
qed

lemma append_loop_ok:
  "live s (fid (sw_file w)) \<Longrightarrow> sw_block_offset w + RECORD_HEADER_SIZE \<le> BLOCK_SIZE \<Longrightarrow>
   d = frags_bytes E q (sw_block_offset w) rem f \<Longrightarrow> sw_bytes_written w + length d < 2 ^ 64 \<Longrightarrow>
   \<exists>s' off'. append_loop E V q rem f w s =
       ((w\<lparr>sw_block_offset := off', sw_bytes_written := sw_bytes_written w + length d\<rparr>, s'), Inr ()) \<and>
     grew (fid (sw_file w)) d s s' \<and> off' \<le> BLOCK_SIZE \<and>
     off' mod BLOCK_SIZE = (sw_block_offset w + length d) mod BLOCK_SIZE"
proof (induction "rec_frags (sw_block_offset w) rem f" arbitrary: rem f w s d)
  case Nil
  then show ?case by (subst (asm) rec_frags.simps) (simp add: Let_def)
next
  case (Cons fr frs)
  let ?n = "min (length rem) (BLOCK_SIZE - sw_block_offset w - RECORD_HEADER_SIZE)"
  let ?t = "fragment_type f (?n = length rem)" and ?rest = "drop ?n rem"
  let ?d = "frag_bytes E q (?t, take ?n rem)"
  let ?d' = "if ?rest = [] then [] else frags_bytes E q 0 ?rest False"
  have d: "d = ?d @ ?d'"
    using Cons.prems(3) frags_bytes_unfold [of E q "sw_block_offset w" rem f] by (simp only: Let_def)
  then have len: "length d = RECORD_HEADER_SIZE + ?n + length ?d'" by simp
  let ?w1 = "w\<lparr>sw_block_offset := sw_block_offset w + RECORD_HEADER_SIZE + length (take ?n rem),
        sw_bytes_written := sw_bytes_written w + RECORD_HEADER_SIZE + length (take ?n rem)\<rparr>"
  have "sw_bytes_written w + RECORD_HEADER_SIZE + length (take ?n rem) < 2 ^ 64"
    using Cons.prems(4) len by simp
  then obtain s1 where s1: "write_fragment E V ?t q (take ?n rem) (w, s) = ((?w1, s1), Inr ())"
      "grew (fid (sw_file w)) ?d s s1"
    by (rule write_fragment_ok [OF Cons.prems(1)])
  have loop: "append_loop E V q rem f w s =
      (if ?rest = [] then ((?w1, s1), Inr ())
       else append_loop E V q ?rest False (?w1\<lparr>sw_block_offset := 0\<rparr>) s1)"
    by (subst append_loop.simps) (simp only: Let_def s1 prod.case sum.case)
  show ?case
  proof (cases "?rest = []")
    case True
    then have "d = ?d" and len: "length d = RECORD_HEADER_SIZE + length (take ?n rem)"
      using d len by simp_all
    with s1(2) have "grew (fid (sw_file w)) d s s1" by simp
    moreover have "sw_block_offset ?w1 \<le> BLOCK_SIZE" using Cons.prems(2) by simp
    moreover have "append_loop E V q rem f w s = ((?w1, s1), Inr ())" using loop True by simp
    ultimately show ?thesis unfolding len by (intro exI [of _ s1] exI [of _ "sw_block_offset ?w1"]) (simp add: add.assoc)
  next
    case False
    let ?w2 = "?w1\<lparr>sw_block_offset := 0\<rparr>"
    have full: "sw_block_offset w + RECORD_HEADER_SIZE + ?n = BLOCK_SIZE"
      using False Cons.prems(2) by auto
    have frs: "frs = rec_frags (sw_block_offset ?w2) ?rest False"
      using Cons.hyps(2) False by (subst (asm) rec_frags.simps) (simp add: Let_def)
    have d': "?d' = frags_bytes E q (sw_block_offset ?w2) ?rest False" using False by simp
    have "live s1 (fid (sw_file ?w2))" using Cons.prems(1) s1(2) by (simp add: grew_def)
    moreover have "sw_block_offset ?w2 + RECORD_HEADER_SIZE \<le> BLOCK_SIZE" by (simp add: wal_sizes)
    moreover have "sw_bytes_written ?w2 + length ?d' < 2 ^ 64" using Cons.prems(4) len by simp
    ultimately obtain s' off' where rec:
      "append_loop E V q ?rest False ?w2 s1 = ((?w2\<lparr>sw_block_offset := off',
         sw_bytes_written := sw_bytes_written ?w2 + length ?d'\<rparr>, s'), Inr ())"
      "grew (fid (sw_file ?w2)) ?d' s1 s'" "off' \<le> BLOCK_SIZE"
      "off' mod BLOCK_SIZE = (sw_block_offset ?w2 + length ?d') mod BLOCK_SIZE"
      using Cons.hyps(1) [OF frs _ _ d'] by blast
    have "grew (fid (sw_file w)) d s s'"
      unfolding d using s1(2) rec(2) by (intro grew_trans) simp_all
    moreover have "off' mod BLOCK_SIZE = (sw_block_offset w + length d) mod BLOCK_SIZE"
    proof -
      have "sw_block_offset w + length d = BLOCK_SIZE + length ?d'" using full len by simp
      then show ?thesis using rec(4) by simp
    qed
    moreover have "append_loop E V q rem f w s =
      ((w\<lparr>sw_block_offset := off', sw_bytes_written := sw_bytes_written w + length d\<rparr>, s'), Inr ())"
      unfolding loop using rec(1) False len by (simp add: add.assoc)
    ultimately show ?thesis using rec(3) by blast
  qed
qed

lemma pad_block_ok:
  assumes "live s (fid (sw_file w))" "sw_bytes_written w + pad_len (sw_block_offset w) < 2 ^ 64"
  obtains s' where "pad_block_if_header_would_not_fit V (w, s) =
      ((w\<lparr>sw_block_offset := start_off (sw_block_offset w),
         sw_bytes_written := sw_bytes_written w + pad_len (sw_block_offset w)\<rparr>, s'), Inr ())"
    "grew (fid (sw_file w)) (replicate (pad_len (sw_block_offset w)) 0) s s'"
proof (cases "BLOCK_SIZE - sw_block_offset w < RECORD_HEADER_SIZE")
  case True
  obtain s' where "v_append V (sw_file w) (replicate (BLOCK_SIZE - sw_block_offset w) 0) s =
      (s', Inr (length (contents s (fid (sw_file w)))))"
    "grew (fid (sw_file w)) (replicate (BLOCK_SIZE - sw_block_offset w) 0) s s'"
    using append_grew [OF assms(1)] by blast
  with True assms(2) show thesis
    by (intro that [of s'])
       (simp_all add: pad_block_if_header_would_not_fit_def sw_append_def io_bind_def
         sw_add_written_def sw_set_block_offset_def pad_len_def start_off_def Let_def)
next
  case False
  then show thesis
    by (intro that [of s])
       (simp_all add: pad_block_if_header_would_not_fit_def pad_len_def start_off_def)
qed

lemma append_record_ok:
  assumes "live s (fid (sw_file w))" "sw_inv w area"
    and d: "d = record_bytes E (length area mod BLOCK_SIZE) (q, p)"
    and fits: "length area + length d < 2 ^ 64"
  obtains w' s' where "append_record E V q p (w, s) = ((w', s'), Inr (length area))"
    "grew (fid (sw_file w)) d s s'" "sw_inv w' (area @ d)" "sw_file w' = sw_file w"
    "sw_segment_id w' = sw_segment_id w" "sw_rotate_at w' = sw_rotate_at w"
proof -
  let ?off = "sw_block_offset w" and ?f = "fid (sw_file w)"
  let ?pad = "replicate (pad_len ?off) (0 :: u8)"
  let ?d = "frags_bytes E q (start_off ?off) p True"
  have off: "?off \<le> BLOCK_SIZE" "sw_bytes_written w = length area"
      "?off mod BLOCK_SIZE = length area mod BLOCK_SIZE"
    using assms(2) by (simp_all add: sw_inv_def)
  have dd: "d = ?pad @ ?d" using record_bytes_mod [OF off(1), of E "(q, p)"] off(3) d
    by (simp add: record_bytes_def)
  let ?w1 = "w\<lparr>sw_block_offset := start_off ?off,
      sw_bytes_written := sw_bytes_written w + pad_len ?off\<rparr>"
  obtain s1 where s1: "pad_block_if_header_would_not_fit V (w, s) = ((?w1, s1), Inr ())"
    "grew ?f ?pad s s1"
  proof (rule pad_block_ok [OF assms(1)])
    show "sw_bytes_written w + pad_len ?off < 2 ^ 64" using fits off(2) dd by simp
  qed blast
  have "live s1 (fid (sw_file ?w1))" using assms(1) s1(2) by (simp add: grew_def)
  moreover have "sw_bytes_written ?w1 + length ?d < 2 ^ 64" using fits off(2) dd by simp
  ultimately obtain s2 off' where s2: "append_loop E V q p True ?w1 s1 =
       ((?w1\<lparr>sw_block_offset := off', sw_bytes_written := sw_bytes_written ?w1 + length ?d\<rparr>, s2), Inr ())"
     "grew ?f ?d s1 s2" "off' \<le> BLOCK_SIZE"
     "off' mod BLOCK_SIZE = (start_off ?off + length ?d) mod BLOCK_SIZE"
    using append_loop_ok [of s1 ?w1 ?d E q p True] start_off_room by auto
  have "(start_off ?off + length ?d) mod BLOCK_SIZE = (length area + length d) mod BLOCK_SIZE"
  proof -
    have "(start_off ?off + length ?d) mod BLOCK_SIZE = (?off + pad_len ?off + length ?d) mod BLOCK_SIZE"
      by (rule mod_add_cong [OF pad_then_start [OF off(1)] refl])
    also have "\<dots> = (length area + (pad_len ?off + length ?d)) mod BLOCK_SIZE"
      unfolding add.assoc by (rule mod_add_cong [OF off(3) refl])
    finally show ?thesis unfolding dd by simp
  qed
  then have inv: "sw_inv (?w1\<lparr>sw_block_offset := off',
      sw_bytes_written := sw_bytes_written ?w1 + length ?d\<rparr>) (area @ d)"
    using s2(3,4) off(2) dd by (simp add: sw_inv_def)
  have "append_record E V q p (w, s) = ((?w1\<lparr>sw_block_offset := off',
      sw_bytes_written := sw_bytes_written ?w1 + length ?d\<rparr>, s2), Inr (sw_bytes_written w))"
    by (simp only: append_record_def io_bind_def Let_def prod.case s1(1) s2(1) sum.case
        io_return_def)
  then have app: "append_record E V q p (w, s) = ((?w1\<lparr>sw_block_offset := off',
      sw_bytes_written := sw_bytes_written ?w1 + length ?d\<rparr>, s2), Inr (length area))"
    by (simp only: off(2))
  have "grew ?f d s s2" unfolding dd using s1(2) s2(2) by (rule grew_trans)
  from that [OF app this inv] show thesis by simp
qed

lemma append_records_ok:
  "live s (fid (sw_file w)) \<Longrightarrow> sw_inv w area \<Longrightarrow>
   length area + length (log_from E (length area) rs) < 2 ^ 64 \<Longrightarrow>
   \<exists>w' s'. append_records E V rs (w, s) = ((w', s'), Inr ()) \<and>
     grew (fid (sw_file w)) (log_from E (length area) rs) s s' \<and>
     sw_inv w' (area @ log_from E (length area) rs) \<and> sw_file w' = sw_file w"
proof (induction rs arbitrary: w s area)
  case (Cons r rs)
  obtain q p where r: "r = (q, p)" by (cases r)
  let ?d = "record_bytes E (length area mod BLOCK_SIZE) (q, p)"
  have len: "length area + length ?d < 2 ^ 64" using Cons.prems(3) by (simp add: r Let_def)
  obtain w1 s1 where 1: "append_record E V q p (w, s) = ((w1, s1), Inr (length area))"
    "grew (fid (sw_file w)) ?d s s1" "sw_inv w1 (area @ ?d)" "sw_file w1 = sw_file w"
    using append_record_ok [OF Cons.prems(1,2) refl len] by blast
  have "live s1 (fid (sw_file w1))" using Cons.prems(1) 1(2,4) by (simp add: grew_def)
  with Cons.IH [of s1 w1 "area @ ?d"] 1 Cons.prems(3) obtain w2 s2 where
    "append_records E V rs (w1, s1) = ((w2, s2), Inr ())"
    "grew (fid (sw_file w)) (log_from E (length area + length ?d) rs) s1 s2"
    "sw_inv w2 (area @ ?d @ log_from E (length area + length ?d) rs)" "sw_file w2 = sw_file w"
    by (auto simp: r Let_def add.assoc)
  with 1 show ?case by (auto simp: r Let_def intro: grew_trans)
qed (simp add: sw_inv_def)

lemma segment_writer_create_ok:
  assumes "live s (fid h)" "contents s (fid h) = []"
  obtains w s' where "segment_writer_create E V h sid first s = (s', Inr w)" "sw_file w = h"
    "sw_inv w []" "grew (fid h) (segment_bytes E sid first []) s s'"
proof -
  obtain s' where "v_append V h (segment_header_bytes (segment_header_new_signed E sid first)) s =
      (s', Inr (length (contents s (fid h))))"
    "grew (fid h) (segment_bytes E sid first []) s s'"
    using append_grew [OF assms(1)] by (auto simp: segment_bytes_def)
  then show thesis
    by (intro that [of s'])
       (auto simp: segment_writer_create_def Let_def sw_inv_def io_bind_def BLOCK_SIZE_def)
qed

end

end
