(* ===== verification/WalReader.thy ===== *)
theory WalReader
  imports WalWriter
begin

text \<open>
  The segment reader and replay, \<^verbatim>\<open>crates/paddock-core/src/wal/reader.rs\<close>, over any file
  system: opening a segment, reading one logical record, joining its fragments, and driving
  the reader to the end with a callback.

  Both loops terminate: every round of \<open>next_loop\<close> moves the cursor on or returns, and every
  record that \<open>replay\<close> hands out has consumed at least a header.
\<close>

section \<open>The reader\<close>

record record_view =
  rv_seqno :: u64
  rv_payload :: bytes

datatype read_outcome =
    Record record_view
  | EndOfSegment
  | ReadTornTail nat string

datatype replay_outcome =
    Clean
  | ReplayTornTail nat string

record 'h segment_reader =
  sr_file :: 'h
  sr_file_size :: nat
  sr_cursor :: nat
  sr_header :: segment_header

record fragment =
  fr_record_type :: record_type
  fr_seqno :: u64
  fr_payload :: bytes

datatype fragment_step =
    Got fragment
  | SkipBlock
  | FragmentTornTail string

datatype assembly_step =
    Continue
  | Complete record_view

definition segment_reader_open ::
  "externs \<Rightarrow> ('s, 'h) vfs \<Rightarrow> 'h \<Rightarrow> 's \<Rightarrow> 'h segment_reader result" where
  "segment_reader_open E V file s =
     and_then (v_size V file s) (\<lambda>file_size.
     if file_size < SEGMENT_HEADER_SIZE then
       Inl (InvalidFormat ''wal segment''
         (''file too short: '' @ dec_digits file_size @ '' bytes (need at least '' @
          dec_digits SEGMENT_HEADER_SIZE @ '')''))
     else
       and_then (v_read_at V file SEGMENT_HEADER_SIZE 0 s) (\<lambda>buf.
       case segment_header_from_bytes buf of
         None \<Rightarrow> Inl (invalid_format_static ''wal segment header'' ''size mismatch'')
       | Some header \<Rightarrow>
           if sh_magic header \<noteq> SEGMENT_MAGIC then
             Inl (invalid_format_static ''wal segment header'' ''bad magic'')
           else if sh_version header \<noteq> FORMAT_VERSION then
             Inl (InvalidFormat ''wal segment header''
               (''unsupported version '' @ dec_digits (unat (sh_version header)) @
                '' (this build understands '' @ dec_digits (unat FORMAT_VERSION) @ '')''))
           else if \<not> segment_header_is_valid E header then
             Inl (Corruption ''wal segment header'' ''checksum mismatch'')
           else Inr \<lparr>sr_file = file, sr_file_size = file_size, sr_cursor = 0, sr_header = header\<rparr>))"

definition skip_block_padding_if_needed :: "nat \<Rightarrow> 'h segment_reader \<Rightarrow> 'h segment_reader" where
  "skip_block_padding_if_needed records_area_end r =
     (let block_offset = sr_cursor r mod BLOCK_SIZE;
          block_remaining = BLOCK_SIZE - block_offset
      in if block_remaining < RECORD_HEADER_SIZE then
           let next_block = sr_cursor r + block_remaining
           in if next_block \<le> records_area_end then r\<lparr>sr_cursor := next_block\<rparr> else r
         else r)"

definition handle_tail ::
  "('s, 'h) vfs \<Rightarrow> 's \<Rightarrow> 'h segment_reader \<Rightarrow> nat \<Rightarrow> record_view option \<Rightarrow> nat \<Rightarrow> read_outcome result"
  where
  "handle_tail V s r records_area_end assembled record_start_cursor =
     (if assembled \<noteq> None then
        Inr (ReadTornTail record_start_cursor ''segment ended mid-fragment'')
      else
        let bytes_remaining = records_area_end - sr_cursor r
        in if bytes_remaining = 0 then Inr EndOfSegment
           else and_then (v_read_at V (sr_file r) bytes_remaining
                   (SEGMENT_HEADER_SIZE + sr_cursor r) s) (\<lambda>tail.
                if list_all (\<lambda>b. b = 0) tail then Inr EndOfSegment
                else Inr (ReadTornTail record_start_cursor
                       ''stray bytes shorter than a record header at segment tail'')))"

definition read_fragment ::
  "externs \<Rightarrow> ('s, 'h) vfs \<Rightarrow> 's \<Rightarrow> 'h segment_reader \<Rightarrow> 'h segment_reader \<times> fragment_step result" where
  "read_fragment E V s r =
     (let file_offset = SEGMENT_HEADER_SIZE + sr_cursor r in
      case v_read_at V (sr_file r) RECORD_HEADER_SIZE file_offset s of
        Inl e \<Rightarrow> (r, Inl e)
      | Inr header_bytes \<Rightarrow>
          if list_all (\<lambda>b. b = 0) header_bytes then
            (r\<lparr>sr_cursor := (sr_cursor r div BLOCK_SIZE + 1) * BLOCK_SIZE\<rparr>, Inr SkipBlock)
          else
            (r, case record_header_from_bytes header_bytes of
                  None \<Rightarrow> Inl (invalid_format_static ''wal record header'' ''size mismatch'')
                | Some header \<Rightarrow>
                    let payload_len = unat (rh_length header);
                        payload_offset = file_offset + RECORD_HEADER_SIZE
                    in if MAX_FRAGMENT_PAYLOAD < payload_len then
                         Inr (FragmentTornTail ''fragment length exceeds block size'')
                       else if sr_file_size r < payload_offset + payload_len then
                         Inr (FragmentTornTail ''fragment payload truncated by segment EOF'')
                       else
                         and_then (v_read_at V (sr_file r) payload_len payload_offset s) (\<lambda>payload.
                         if record_header_expected_crc E header payload \<noteq> rh_payload_crc32c header then
                           Inr (FragmentTornTail ''fragment crc32c mismatch'')
                         else
                           and_then (ok_or (record_type_from_byte (rh_record_type header))
                             (InvalidFormat ''wal record header''
                               (''invalid record_type byte '' @ hex_byte (rh_record_type header))))
                             (\<lambda>t. Inr (Got \<lparr>fr_record_type = t, fr_seqno = rh_seqno header,
                                             fr_payload = payload\<rparr>)))))"

fun assemble :: "record_view option \<Rightarrow> fragment \<Rightarrow> record_view option \<times> assembly_step result" where
  "assemble state frag =
     (let seqno = fr_seqno frag; payload = fr_payload frag in
      case (fr_record_type frag, state) of
        (Full, None) \<Rightarrow> (None, Inr (Complete \<lparr>rv_seqno = seqno, rv_payload = payload\<rparr>))
      | (Full, Some _) \<Rightarrow>
          (state, Inl (Corruption ''wal segment'' ''FULL fragment encountered mid-record assembly''))
      | (First, None) \<Rightarrow> (Some \<lparr>rv_seqno = seqno, rv_payload = payload\<rparr>, Inr Continue)
      | (First, Some _) \<Rightarrow>
          (state, Inl (Corruption ''wal segment'' ''FIRST fragment encountered mid-record assembly''))
      | (Middle, None) \<Rightarrow>
          (state, Inl (Corruption ''wal segment''
             ''Middle fragment encountered without a preceding FIRST''))
      | (Last, None) \<Rightarrow>
          (state, Inl (Corruption ''wal segment''
             ''Last fragment encountered without a preceding FIRST''))
      | (Middle, Some view) \<Rightarrow>
          if rv_seqno view \<noteq> seqno then
            (state, Inl (Corruption ''wal segment''
               (''MIDDLE fragment seqno '' @ dec_digits (unat seqno) @
                '' does not match in-progress '' @ dec_digits (unat (rv_seqno view)))))
          else (Some (view\<lparr>rv_payload := rv_payload view @ payload\<rparr>), Inr Continue)
      | (Last, Some view) \<Rightarrow>
          if rv_seqno view \<noteq> seqno then
            (state, Inl (Corruption ''wal segment''
               (''LAST fragment seqno '' @ dec_digits (unat seqno) @
                '' does not match in-progress '' @ dec_digits (unat (rv_seqno view)))))
          else (None, Inr (Complete (view\<lparr>rv_payload := rv_payload view @ payload\<rparr>))))"

declare assemble.simps [simp del]

text \<open>
  The loop of \<^verbatim>\<open>next_record\<close>.  A successful \<open>read_fragment\<close> that skips a block has moved the
  cursor itself, so the reader it returns is used from there on.
\<close>

lemma skip_block_padding_cursor [simp]: "sr_cursor r \<le> sr_cursor (skip_block_padding_if_needed e r)"
  by (simp add: skip_block_padding_if_needed_def Let_def)

lemma read_fragment_skips:
  "read_fragment E V s r = (r', Inr SkipBlock) \<Longrightarrow> sr_cursor r < sr_cursor r'"
  by (auto simp: read_fragment_def Let_def result_simps wal_sizes ok_or_def
      split: sum.splits option.splits if_splits)

lemma read_fragment_got:
  "read_fragment E V s r = (r', Inr (Got frag)) \<Longrightarrow> r' = r"
  by (auto simp: read_fragment_def Let_def result_simps split: sum.splits if_splits)

function next_loop ::
  "externs \<Rightarrow> ('s, 'h) vfs \<Rightarrow> 's \<Rightarrow> nat \<Rightarrow> nat \<Rightarrow> record_view option \<Rightarrow> 'h segment_reader \<Rightarrow>
     'h segment_reader \<times> read_outcome result" where
  "next_loop E V s start area_end assembled r0 =
     (let r = skip_block_padding_if_needed area_end r0 in
      if area_end < sr_cursor r + RECORD_HEADER_SIZE
      then (r, handle_tail V s r area_end assembled start)
      else case read_fragment E V s r of
             (r', Inl e) \<Rightarrow> (r', Inl e)
           | (r', Inr step) \<Rightarrow>
               (case step of
                  SkipBlock \<Rightarrow> next_loop E V s start area_end assembled r'
                | FragmentTornTail reason \<Rightarrow> (r', Inr (ReadTornTail start reason))
                | Got frag \<Rightarrow>
                    let r'' = r'\<lparr>sr_cursor := sr_cursor r' + (RECORD_HEADER_SIZE + length (fr_payload frag))\<rparr>
                    in case assemble assembled frag of
                         (st, Inl e) \<Rightarrow> (r'', Inl e)
                       | (st, Inr Continue) \<Rightarrow> next_loop E V s start area_end st r''
                       | (st, Inr (Complete view)) \<Rightarrow> (r'', Inr (Record view))))"
  by pat_completeness auto
termination
proof (relation "measure (\<lambda>(E, V, s, start, area_end, assembled, r). area_end - sr_cursor r)",
    goal_cases)
  case (3 E V s start area_end assembled r0 r r')
  then have "read_fragment E V s r = (r', Inr SkipBlock)" by simp
  then have "sr_cursor r < sr_cursor r'" by (rule read_fragment_skips)
  moreover have "sr_cursor r0 \<le> sr_cursor r" using 3 by simp
  moreover have "sr_cursor r + 16 \<le> area_end" using 3(2) by (simp add: RECORD_HEADER_SIZE_def)
  ultimately have "area_end - sr_cursor r' < area_end - sr_cursor r0" by linarith
  then show ?case by simp
next
  case (2 E V s start area_end assembled r0 r r' y step frag r'')
  then have "read_fragment E V s r = (r', Inr (Got frag))" by simp
  then have "r' = r" by (rule read_fragment_got)
  moreover have "sr_cursor r0 \<le> sr_cursor r" using 2 by simp
  moreover have "sr_cursor r + 16 \<le> area_end" using 2(2) by (simp add: RECORD_HEADER_SIZE_def)
  moreover have "sr_cursor r' < sr_cursor r''" using 2(6) by (simp add: RECORD_HEADER_SIZE_def)
  ultimately have "area_end - sr_cursor r'' < area_end - sr_cursor r0" by simp
  then show ?case by simp
qed simp

declare next_loop.simps [simp del]

definition next_record ::
  "externs \<Rightarrow> ('s, 'h) vfs \<Rightarrow> 's \<Rightarrow> 'h segment_reader \<Rightarrow> 'h segment_reader \<times> read_outcome result" where
  "next_record E V s r =
     next_loop E V s (sr_cursor r) (sr_file_size r - SEGMENT_HEADER_SIZE) None r"

lemma read_fragment_file_size: "read_fragment E V s r = (r', x) \<Longrightarrow> sr_file_size r' = sr_file_size r"
  by (auto simp: read_fragment_def Let_def split: sum.splits if_splits)

lemma handle_tail_not_record: "handle_tail V s r e a st \<noteq> Inr (Record view)"
  by (auto simp: handle_tail_def Let_def result_simps split: if_splits)

text \<open>A record that is handed out has moved the cursor, from a point before the end.\<close>

lemma next_loop_progress:
  "next_loop E V s start area_end assembled r = (r', Inr (Record view)) \<Longrightarrow>
     sr_cursor r < sr_cursor r' \<and> sr_cursor r < area_end \<and> sr_file_size r' = sr_file_size r"
proof (induction E V s start area_end assembled r rule: next_loop.induct)
  case (1 E V s start area_end assembled r0)
  define r where "r = skip_block_padding_if_needed area_end r0"
  have r0: "sr_cursor r0 \<le> sr_cursor r" "sr_file_size r = sr_file_size r0"
    by (simp_all add: r_def skip_block_padding_if_needed_def Let_def)
  from "1.prems" obtain r1 step where inside: "\<not> area_end < sr_cursor r + RECORD_HEADER_SIZE"
    and step: "read_fragment E V s r = (r1, Inr step)"
    by (subst (asm) next_loop.simps)
       (auto simp: Let_def r_def [symmetric] handle_tail_not_record
         split: if_splits prod.splits sum.splits)
  have size: "sr_file_size r1 = sr_file_size r0" using read_fragment_file_size [OF step] r0(2) by simp
  have end_ok: "sr_cursor r0 < area_end" using inside r0(1) by (simp add: RECORD_HEADER_SIZE_def)
  show ?case
  proof (cases step)
    case (Got frag)
    have r1: "r1 = r" using step unfolding Got by (rule read_fragment_got)
    let ?r2 = "r1\<lparr>sr_cursor := sr_cursor r1 + (RECORD_HEADER_SIZE + length (fr_payload frag))\<rparr>"
    have r2: "sr_cursor r0 < sr_cursor ?r2" using r0(1) r1 by (simp add: RECORD_HEADER_SIZE_def)
    obtain st res where asm: "assemble assembled frag = (st, res)" by fastforce
    have eq: "next_loop E V s start area_end assembled r0 =
        (case res of Inl e \<Rightarrow> (?r2, Inl e)
         | Inr Continue \<Rightarrow> next_loop E V s start area_end st ?r2
         | Inr (Complete view) \<Rightarrow> (?r2, Inr (Record view)))"
      using inside step asm by (subst next_loop.simps) (simp add: Let_def r_def [symmetric] Got)
    show ?thesis
    proof (cases "res = Inr Continue")
      case True
      with eq "1.prems" have "next_loop E V s start area_end st ?r2 = (r', Inr (Record view))" by simp
      with "1.IH"(1) [OF r_def inside step [symmetric] refl Got refl asm [symmetric] True refl]
      show ?thesis using r2 end_ok size by fastforce
    next
      case False
      with eq "1.prems" have "r' = ?r2" by (auto split: sum.splits assembly_step.splits)
      then show ?thesis using r2 end_ok size by simp
    qed
  next
    case SkipBlock
    have "sr_cursor r < sr_cursor r1" using step unfolding SkipBlock by (rule read_fragment_skips)
    moreover have "next_loop E V s start area_end assembled r1 = (r', Inr (Record view))"
      using "1.prems" inside step SkipBlock
      by (subst (asm) next_loop.simps) (simp add: Let_def r_def [symmetric])
    ultimately show ?thesis
      using "1.IH"(2) [OF r_def inside step [symmetric] refl SkipBlock] r0(1) end_ok size by auto
  next
    case (FragmentTornTail reason)
    then show ?thesis using "1.prems" inside step
      by (subst (asm) next_loop.simps) (simp add: Let_def r_def [symmetric])
  qed
qed

lemma next_record_progress:
  "next_record E V s r = (r', Inr (Record view)) \<Longrightarrow>
     sr_file_size r' = sr_file_size r \<and>
     sr_file_size r - SEGMENT_HEADER_SIZE - sr_cursor r' < sr_file_size r - SEGMENT_HEADER_SIZE - sr_cursor r"
  unfolding next_record_def by (drule next_loop_progress) auto

text \<open>
  \<^verbatim>\<open>replay\<close>: the closure \<open>on_record\<close> works on a state of its own, here threaded through.
\<close>

function replay ::
  "externs \<Rightarrow> ('s, 'h) vfs \<Rightarrow> 's \<Rightarrow> (record_view \<Rightarrow> ('c, unit) io) \<Rightarrow> 'h segment_reader \<Rightarrow> 'c \<Rightarrow>
     ('h segment_reader \<times> 'c) \<times> replay_outcome result" where
  "replay E V s on_record r acc =
     (case next_record E V s r of
        (r', Inl e) \<Rightarrow> ((r', acc), Inl e)
      | (r', Inr (Record view)) \<Rightarrow>
          (case on_record view acc of
             (acc', Inl e) \<Rightarrow> ((r', acc'), Inl e)
           | (acc', Inr _) \<Rightarrow> replay E V s on_record r' acc')
      | (r', Inr EndOfSegment) \<Rightarrow> ((r', acc), Inr Clean)
      | (r', Inr (ReadTornTail truncate_to reason)) \<Rightarrow>
          ((r', acc), Inr (ReplayTornTail truncate_to reason)))"
  by pat_completeness auto
termination
  by (relation "measure (\<lambda>(E, V, s, f, r, acc). sr_file_size r - SEGMENT_HEADER_SIZE - sr_cursor r)")
     (auto dest!: next_record_progress [OF sym])

declare replay.simps [simp del]

section \<open>Reading back what the writer wrote\<close>

definition view_of :: "u64 \<times> bytes \<Rightarrow> record_view" where
  "view_of r = \<lparr>rv_seqno = fst r, rv_payload = snd r\<rparr>"

text \<open>Handing a list of records to the closure, stopping at its first error.\<close>

fun feed :: "(record_view \<Rightarrow> ('c, unit) io) \<Rightarrow> record_view list \<Rightarrow> ('c, unit) io" where
  "feed f [] acc = (acc, Inr ())"
| "feed f (v # vs) acc = io_bind (f v) (\<lambda>_. feed f vs) acc"

text \<open>The closure that collects the records.\<close>

definition collect :: "record_view \<Rightarrow> (record_view list, unit) io" where
  "collect v acc = (acc @ [v], Inr ())"

lemma feed_collect [simp]: "feed collect vs acc = (acc @ vs, Inr ())"
  by (induction vs arbitrary: acc) (simp_all add: collect_def)

lemma skip_padding_id:
  "sr_cursor r mod BLOCK_SIZE + RECORD_HEADER_SIZE \<le> BLOCK_SIZE \<Longrightarrow>
     skip_block_padding_if_needed e r = r"
  by (simp add: skip_block_padding_if_needed_def Let_def)

lemma next_block_aligned: "(c + (BLOCK_SIZE - c mod BLOCK_SIZE)) mod BLOCK_SIZE = 0"
proof -
  have "c mod BLOCK_SIZE < BLOCK_SIZE" by (simp add: BLOCK_SIZE_def)
  then have "c + (BLOCK_SIZE - c mod BLOCK_SIZE) = (c - c mod BLOCK_SIZE) + BLOCK_SIZE"
    using mod_less_eq_dividend [of c BLOCK_SIZE] by linarith
  then show ?thesis by (simp add: minus_mod_eq_mult_div)
qed

lemma next_loop_after_skip:
  "next_loop E V s start e a (skip_block_padding_if_needed e r) = next_loop E V s start e a r"
proof -
  have "skip_block_padding_if_needed e (skip_block_padding_if_needed e r) =
      skip_block_padding_if_needed e r"
  proof (cases "skip_block_padding_if_needed e r = r")
    case False
    then have "sr_cursor (skip_block_padding_if_needed e r) mod BLOCK_SIZE = 0"
      by (auto simp: skip_block_padding_if_needed_def Let_def next_block_aligned split: if_splits)
    then show ?thesis by (intro skip_padding_id) (simp add: wal_sizes)
  qed simp
  then show ?thesis
    using next_loop.simps [of E V s start e a r]
      next_loop.simps [of E V s start e a "skip_block_padding_if_needed e r"] by argo
qed

text \<open>Folding in a fragment of the record that is being assembled.\<close>

lemma assemble_fragment:
  "(f \<Longrightarrow> acc = []) \<Longrightarrow>
     assemble (if f then None else Some \<lparr>rv_seqno = q, rv_payload = acc\<rparr>)
       \<lparr>fr_record_type = fragment_type f l, fr_seqno = q, fr_payload = p\<rparr> =
     (if l then (None, Inr (Complete \<lparr>rv_seqno = q, rv_payload = acc @ p\<rparr>))
      else (Some \<lparr>rv_seqno = q, rv_payload = acc @ p\<rparr>, Inr Continue))"
  by (cases f; cases l) (simp_all add: assemble.simps)

text \<open>
  The payload length of the first fragment of what is left of a record, and the part that has
  been assembled before it.
\<close>

definition frag_len :: "nat \<Rightarrow> bytes \<Rightarrow> nat" where
  "frag_len off rem = min (length rem) (BLOCK_SIZE - off - RECORD_HEADER_SIZE)"

definition part :: "bool \<Rightarrow> u64 \<Rightarrow> bytes \<Rightarrow> record_view option" where
  "part f q acc = (if f then None else Some \<lparr>rv_seqno = q, rv_payload = acc\<rparr>)"

lemma frags_bytes_split:
  "frags_bytes E q off rem f =
     frag_bytes E q (fragment_type f (frag_len off rem = length rem), take (frag_len off rem) rem) @
     (if frag_len off rem = length rem then []
      else frags_bytes E q 0 (drop (frag_len off rem) rem) False)"
  by (subst frags_bytes_unfold) (auto simp: Let_def frag_len_def)

lemma rec_frags_rest:
  "fr # frs = rec_frags off rem f \<Longrightarrow> frag_len off rem \<noteq> length rem \<Longrightarrow>
     frs = rec_frags 0 (drop (frag_len off rem) rem) False"
  by (subst (asm) rec_frags.simps) (auto simp: Let_def frag_len_def)

lemma rec_frags_not_Nil: "rec_frags off rem f \<noteq> []"
  by (subst rec_frags.simps) (simp add: Let_def)

text \<open>The outcomes that end a replay at the record starting at a given position.\<close>

definition ends_at :: "nat \<Rightarrow> read_outcome \<Rightarrow> bool" where
  "ends_at start out \<longleftrightarrow> out = EndOfSegment \<or> (\<exists>reason. out = ReadTornTail start reason)"

lemma skip_to_start:
  assumes "sr_cursor r = c" "c \<le> e" "pad_len (c mod BLOCK_SIZE) \<le> e - c"
  shows "skip_block_padding_if_needed e r = r\<lparr>sr_cursor := c + pad_len (c mod BLOCK_SIZE)\<rparr>"
    and "(c + pad_len (c mod BLOCK_SIZE)) mod BLOCK_SIZE = start_off (c mod BLOCK_SIZE)"
  using assms next_block_aligned [of c]
  by (auto simp: skip_block_padding_if_needed_def Let_def pad_len_def start_off_def)

context file_store
begin

definition reads :: "'h segment_reader \<Rightarrow> 's \<Rightarrow> bytes \<Rightarrow> bool" where
  "reads r s area \<longleftrightarrow> live s (fid (sr_file r)) \<and> sr_file_size r = length (contents s (fid (sr_file r))) \<and>
     sr_file_size r < 2 ^ 64 \<and> SEGMENT_HEADER_SIZE \<le> sr_file_size r \<and>
     area = drop SEGMENT_HEADER_SIZE (contents s (fid (sr_file r)))"

lemma reads_cursor [simp]: "reads (r\<lparr>sr_cursor := c\<rparr>) s area = reads r s area"
  by (simp add: reads_def)

lemma reads_size: "reads r s area \<Longrightarrow> sr_file_size r = SEGMENT_HEADER_SIZE + length area"
  by (simp add: reads_def)

lemma read_area:
  "reads r s area \<Longrightarrow> c + n \<le> length area \<Longrightarrow>
     v_read_at V (sr_file r) n (SEGMENT_HEADER_SIZE + c) s = Inr (take n (drop c area))"
  by (subst read_at_ok) (auto simp: reads_def add.commute)

lemma read_fragment_frag:
  assumes r: "reads r s area" and area: "drop (sr_cursor r) area = frag_bytes E q (t, p) @ rest"
    and p: "length p \<le> MAX_FRAGMENT_PAYLOAD"
  shows "read_fragment E V s r = (r, Inr (Got \<lparr>fr_record_type = t, fr_seqno = q, fr_payload = p\<rparr>))"
proof -
  let ?h = "record_header_sign E p (record_header_new t q (of_nat (length p)))"
  have len: "sr_cursor r + (16 + length p) \<le> length area"
    using arg_cong [OF area, of length] by (auto simp: RECORD_HEADER_SIZE_def split: nat_diff_split_asm)
  have hdr: "take 16 (drop (sr_cursor r) area) = record_header_bytes ?h"
    using area by (simp add: frag_bytes_def)
  have "drop (sr_cursor r + 16) area = drop 16 (drop (sr_cursor r) area)" by (simp add: add.commute)
  then have pay: "take (length p) (drop (sr_cursor r + 16) area) = p"
    using area by (simp add: frag_bytes_def)
  have u16: "unat (of_nat (length p) :: u16) = length p"
    using p by (intro unat_of_nat_less) (simp add: wal_sizes)
  have "v_read_at V (sr_file r) 16 (SEGMENT_HEADER_SIZE + sr_cursor r) s = Inr (record_header_bytes ?h)"
    using read_area [OF r, of "sr_cursor r" 16] len hdr by simp
  moreover have "v_read_at V (sr_file r) (length p) (SEGMENT_HEADER_SIZE + sr_cursor r + 16) s = Inr p"
    using read_area [OF r, of "sr_cursor r + 16" "length p"] len pay by (simp add: add.assoc)
  moreover have "\<not> list_all (\<lambda>b. b = 0) (record_header_bytes ?h)"
    by (rule record_header_bytes_not_zero) simp
  ultimately show ?thesis
    using p len reads_size [OF r]
    by (simp add: read_fragment_def Let_def RECORD_HEADER_SIZE_def u16)
qed

lemma next_loop_got:
  assumes r: "reads r s area" and area: "drop (sr_cursor r) area = frag_bytes E q (t, p) @ rest"
    and off: "sr_cursor r mod BLOCK_SIZE + RECORD_HEADER_SIZE + length p \<le> BLOCK_SIZE"
  shows "next_loop E V s start (length area) assembled r =
    (let r' = r\<lparr>sr_cursor := sr_cursor r + (RECORD_HEADER_SIZE + length p)\<rparr>
     in case assemble assembled \<lparr>fr_record_type = t, fr_seqno = q, fr_payload = p\<rparr> of
          (st, Inl e) \<Rightarrow> (r', Inl e)
        | (st, Inr Continue) \<Rightarrow> next_loop E V s start (length area) st r'
        | (st, Inr (Complete view)) \<Rightarrow> (r', Inr (Record view)))"
proof -
  have "length p \<le> MAX_FRAGMENT_PAYLOAD" using off by (simp add: MAX_FRAGMENT_PAYLOAD_def)
  then have "read_fragment E V s r =
      (r, Inr (Got \<lparr>fr_record_type = t, fr_seqno = q, fr_payload = p\<rparr>))"
    by (rule read_fragment_frag [OF r area])
  moreover have "skip_block_padding_if_needed (length area) r = r"
    using off by (intro skip_padding_id) simp
  moreover have "\<not> length area < sr_cursor r + RECORD_HEADER_SIZE"
    using arg_cong [OF area, of length] by (auto split: nat_diff_split_asm simp: RECORD_HEADER_SIZE_def)
  ultimately show ?thesis by (subst next_loop.simps) (simp add: Let_def)
qed

text \<open>The first fragment of what is left of a record, and where the reader is after it.\<close>

lemma next_loop_first_frag:
  assumes r: "reads r s area" and off: "sr_cursor r mod BLOCK_SIZE = off" "off + RECORD_HEADER_SIZE \<le> BLOCK_SIZE"
    and n: "n = frag_len off rem" and acc: "f \<Longrightarrow> acc = []"
    and area: "drop (sr_cursor r) area = frag_bytes E q (fragment_type f (n = length rem), take n rem) @ rest"
    and r': "r' = r\<lparr>sr_cursor := sr_cursor r + (RECORD_HEADER_SIZE + n)\<rparr>"
  shows "next_loop E V s start (length area) (part f q acc) r =
      (if n = length rem then (r', Inr (Record \<lparr>rv_seqno = q, rv_payload = acc @ rem\<rparr>))
       else next_loop E V s start (length area) (part False q (acc @ take n rem)) r')"
    and "n \<noteq> length rem \<Longrightarrow> sr_cursor r' mod BLOCK_SIZE = 0"
    and "drop (sr_cursor r') area = rest"
proof -
  let ?t = "fragment_type f (n = length rem)"
  have len: "length (take n rem) = n" by (simp add: n frag_len_def)
  have "sr_cursor r mod BLOCK_SIZE + RECORD_HEADER_SIZE + length (take n rem) \<le> BLOCK_SIZE"
    using off by (simp add: n frag_len_def)
  note got = next_loop_got [OF r area this, unfolded Let_def len r' [symmetric]]
  have "assemble (part f q acc) \<lparr>fr_record_type = ?t, fr_seqno = q, fr_payload = take n rem\<rparr> =
      (if n = length rem then (None, Inr (Complete \<lparr>rv_seqno = q, rv_payload = acc @ take n rem\<rparr>))
       else (Some \<lparr>rv_seqno = q, rv_payload = acc @ take n rem\<rparr>, Inr Continue))"
    unfolding part_def by (rule assemble_fragment [OF acc])
  then show "next_loop E V s start (length area) (part f q acc) r =
      (if n = length rem then (r', Inr (Record \<lparr>rv_seqno = q, rv_payload = acc @ rem\<rparr>))
       else next_loop E V s start (length area) (part False q (acc @ take n rem)) r')"
    unfolding got by (simp add: part_def)
  show "sr_cursor r' mod BLOCK_SIZE = 0" if "n \<noteq> length rem"
  proof -
    have "off + (RECORD_HEADER_SIZE + n) = BLOCK_SIZE" using that off by (auto simp: n frag_len_def)
    then show ?thesis using off(1) by (simp add: r') (metis mod_add_left_eq mod_self)
  qed
  have "drop (sr_cursor r') area = drop (length (frag_bytes E q (?t, take n rem))) (drop (sr_cursor r) area)"
    by (simp add: r' len add.commute del: length_take)
  then show "drop (sr_cursor r') area = rest" unfolding area by simp
qed

text \<open>A record whose bytes are all there is read back, whatever follows.\<close>

lemma next_loop_frags:
  "reads r s area \<Longrightarrow> sr_cursor r mod BLOCK_SIZE = off \<Longrightarrow> off + RECORD_HEADER_SIZE \<le> BLOCK_SIZE \<Longrightarrow>
   drop (sr_cursor r) area = frags_bytes E q off rem f @ rest \<Longrightarrow> (f \<Longrightarrow> acc = []) \<Longrightarrow>
   next_loop E V s start (length area) (part f q acc) r =
     (r\<lparr>sr_cursor := sr_cursor r + length (frags_bytes E q off rem f)\<rparr>,
      Inr (Record \<lparr>rv_seqno = q, rv_payload = acc @ rem\<rparr>))"
proof (induction "rec_frags off rem f" arbitrary: off rem f r acc)
  case Nil
  then show ?case using rec_frags_not_Nil by metis
next
  case (Cons fr frs)
  let ?n = "frag_len off rem"
  let ?r' = "r\<lparr>sr_cursor := sr_cursor r + (RECORD_HEADER_SIZE + ?n)\<rparr>"
  let ?d' = "if ?n = length rem then [] else frags_bytes E q 0 (drop ?n rem) False"
  have area: "drop (sr_cursor r) area = frag_bytes E q (fragment_type f (?n = length rem), take ?n rem) @ (?d' @ rest)"
    unfolding Cons.prems(4) by (subst frags_bytes_split) simp
  note first = next_loop_first_frag [OF Cons.prems(1,2,3) refl Cons.prems(5) area refl]
  have len: "length (frags_bytes E q off rem f) = RECORD_HEADER_SIZE + ?n + length ?d'"
    by (subst frags_bytes_split) (simp add: frag_len_def)
  show ?case
  proof (cases "?n = length rem")
    case True
    then show ?thesis using first(1) len by simp
  next
    case False
    have "next_loop E V s start (length area) (part False q (acc @ take ?n rem)) ?r' =
      (?r'\<lparr>sr_cursor := sr_cursor ?r' + length (frags_bytes E q 0 (drop ?n rem) False)\<rparr>,
       Inr (Record \<lparr>rv_seqno = q, rv_payload = (acc @ take ?n rem) @ drop ?n rem\<rparr>))"
      using Cons.prems(1) first(2,3) False
      by (intro Cons.hyps(1) rec_frags_rest [OF Cons.hyps(2)]) (simp_all add: wal_sizes)
    then show ?thesis using first(1) False len by (simp add: add.assoc)
  qed
qed

text \<open>
  A record that the end of the file cuts short is never handed out, and is no error: the
  segment just ends, or its tail is reported as torn from the start of that record.
\<close>

lemma handle_tail_ends:
  assumes "reads r s area" "sr_cursor r \<le> length area"
  shows "\<exists>out. handle_tail V s r (length area) assembled start = Inr out \<and> ends_at start out"
proof -
  have "v_read_at V (sr_file r) (length area - sr_cursor r) (SEGMENT_HEADER_SIZE + sr_cursor r) s =
      Inr (take (length area - sr_cursor r) (drop (sr_cursor r) area))"
    using assms by (intro read_area) simp_all
  then show ?thesis by (auto simp: handle_tail_def Let_def ends_at_def)
qed

lemma next_loop_short_header:
  assumes "reads r s area" "sr_cursor r \<le> length area" "length area < sr_cursor r + RECORD_HEADER_SIZE"
    "skip_block_padding_if_needed (length area) r = r"
  shows "\<exists>r' out. next_loop E V s start (length area) assembled r = (r', Inr out) \<and> ends_at start out"
  using handle_tail_ends [OF assms(1,2), of assembled start] assms(3,4)
  by (subst next_loop.simps) auto

lemma read_fragment_short_payload:
  assumes r: "reads r s area" and p: "length p \<le> MAX_FRAGMENT_PAYLOAD"
    and area: "drop (sr_cursor r) area = take m (frag_bytes E q (t, p))"
    and m: "16 \<le> m" "m < 16 + length p"
  shows "\<exists>reason. read_fragment E V s r = (r, Inr (FragmentTornTail reason))"
proof -
  let ?h = "record_header_sign E p (record_header_new t q (of_nat (length p)))"
  have len: "length area = sr_cursor r + m"
    using arg_cong [OF area, of length] m by (auto simp: RECORD_HEADER_SIZE_def split: nat_diff_split_asm)
  have "take 16 (drop (sr_cursor r) area) = record_header_bytes ?h"
    using m by (simp add: area frag_bytes_def take_append min_def)
  then have "v_read_at V (sr_file r) 16 (SEGMENT_HEADER_SIZE + sr_cursor r) s = Inr (record_header_bytes ?h)"
    using read_area [OF r, of "sr_cursor r" 16] len m by simp
  moreover have "unat (of_nat (length p) :: u16) = length p"
    using p by (intro unat_of_nat_less) (simp add: wal_sizes)
  moreover have "\<not> list_all (\<lambda>b. b = 0) (record_header_bytes ?h)"
    by (rule record_header_bytes_not_zero) simp
  ultimately show ?thesis
    using p len m reads_size [OF r] by (simp add: read_fragment_def Let_def RECORD_HEADER_SIZE_def)
qed

lemma next_loop_trunc:
  "reads r s area \<Longrightarrow> sr_cursor r mod BLOCK_SIZE = off \<Longrightarrow> off + RECORD_HEADER_SIZE \<le> BLOCK_SIZE \<Longrightarrow>
   sr_cursor r \<le> length area \<Longrightarrow> drop (sr_cursor r) area = take m (frags_bytes E q off rem f) \<Longrightarrow>
   m < length (frags_bytes E q off rem f) \<Longrightarrow> (f \<Longrightarrow> acc = []) \<Longrightarrow>
   \<exists>r' out. next_loop E V s start (length area) (part f q acc) r = (r', Inr out) \<and> ends_at start out"
proof (induction "rec_frags off rem f" arbitrary: off rem f r acc m)
  case Nil
  then show ?case using rec_frags_not_Nil by metis
next
  case (Cons fr frs)
  let ?n = "frag_len off rem"
  let ?d = "frag_bytes E q (fragment_type f (?n = length rem), take ?n rem)"
  let ?d' = "if ?n = length rem then [] else frags_bytes E q 0 (drop ?n rem) False"
  have skip: "skip_block_padding_if_needed (length area) r = r"
    using Cons.prems(2,3) by (intro skip_padding_id) simp
  have split: "frags_bytes E q off rem f = ?d @ ?d'" by (rule frags_bytes_split)
  have ln: "length (take ?n rem) = ?n" "length ?d = 16 + ?n"
    by (simp_all add: frag_len_def RECORD_HEADER_SIZE_def)
  have len: "length area = sr_cursor r + m"
    using arg_cong [OF Cons.prems(5), of length] Cons.prems(4,6) by simp
  consider "m < 16" | "16 \<le> m" "m < 16 + ?n" | "16 + ?n \<le> m" by linarith
  then show ?case
  proof cases
    case 1
    then show ?thesis
      using next_loop_short_header [OF Cons.prems(1,4) _ skip] len by (simp add: RECORD_HEADER_SIZE_def)
  next
    case 2
    have pl: "length (take ?n rem) \<le> MAX_FRAGMENT_PAYLOAD"
      by (simp add: frag_len_def MAX_FRAGMENT_PAYLOAD_def)
    have cut: "drop (sr_cursor r) area = take m ?d" using Cons.prems(5) 2 ln unfolding split by simp
    obtain reason where "read_fragment E V s r = (r, Inr (FragmentTornTail reason))"
      using read_fragment_short_payload [OF Cons.prems(1) pl cut 2(1)] 2(2) ln(1) by auto
    then show ?thesis using 2 len skip
      by (subst next_loop.simps) (simp add: RECORD_HEADER_SIZE_def ends_at_def)
  next
    case 3
    have False': "?n \<noteq> length rem" using Cons.prems(6) 3 ln unfolding split by auto
    have area: "drop (sr_cursor r) area = ?d @ take (m - (16 + ?n)) ?d'"
      using Cons.prems(5) 3 ln unfolding split by simp
    note first = next_loop_first_frag [OF Cons.prems(1,2,3) refl Cons.prems(7) area refl]
    let ?r' = "r\<lparr>sr_cursor := sr_cursor r + (RECORD_HEADER_SIZE + ?n)\<rparr>"
    have cut: "drop (sr_cursor ?r') area = take (m - (16 + ?n)) (frags_bytes E q 0 (drop ?n rem) False)"
      using first(3) False' by simp
    have short: "m - (16 + ?n) < length (frags_bytes E q 0 (drop ?n rem) False)"
      using Cons.prems(6) 3 ln False' unfolding split by simp
    have "\<exists>r' out. next_loop E V s start (length area) (part False q (acc @ take ?n rem)) ?r' = (r', Inr out) \<and>
        ends_at start out"
      using Cons.prems(1) first(2) False' 3 len
      by (intro Cons.hyps(1) [OF rec_frags_rest [OF Cons.hyps(2) False'] _ _ _ _ cut short])
         (simp_all add: wal_sizes)
    then show ?thesis using first(1) False' by simp
  qed
qed

lemma next_record_loop:
  "reads r s area \<Longrightarrow>
     next_record E V s r = next_loop E V s (sr_cursor r) (length area) (part True q []) r"
  by (simp add: next_record_def reads_size part_def)

lemma next_record_log:
  assumes r: "reads r s area" and c: "sr_cursor r = c"
    and area: "drop c area = record_bytes E (c mod BLOCK_SIZE) (q, p) @ rest" and le: "c \<le> length area"
  shows "next_record E V s r =
    (r\<lparr>sr_cursor := c + length (record_bytes E (c mod BLOCK_SIZE) (q, p))\<rparr>, Inr (Record (view_of (q, p))))"
proof -
  let ?off = "c mod BLOCK_SIZE"
  let ?r1 = "r\<lparr>sr_cursor := c + pad_len ?off\<rparr>"
  have "pad_len ?off \<le> length area - c"
    using arg_cong [OF area, of length] le by (simp add: record_bytes_def)
  note skip = skip_to_start [OF c le this]
  have "drop (sr_cursor ?r1) area = drop (pad_len ?off) (drop c area)" by (simp add: add.commute)
  then have "drop (sr_cursor ?r1) area = frags_bytes E q (start_off ?off) p True @ rest"
    unfolding area by (simp add: record_bytes_def)
  then have "next_loop E V s c (length area) (part True q []) ?r1 =
     (?r1\<lparr>sr_cursor := sr_cursor ?r1 + length (frags_bytes E q (start_off ?off) p True)\<rparr>,
      Inr (Record \<lparr>rv_seqno = q, rv_payload = [] @ p\<rparr>))"
    using r skip(2) start_off_room by (intro next_loop_frags) simp_all
  then have "next_loop E V s c (length area) (part True q []) r =
     (?r1\<lparr>sr_cursor := sr_cursor ?r1 + length (frags_bytes E q (start_off ?off) p True)\<rparr>,
      Inr (Record \<lparr>rv_seqno = q, rv_payload = [] @ p\<rparr>))"
    using next_loop_after_skip [of E V s c "length area" "part True q []" r] skip(1) by simp
  then show ?thesis
    using next_record_loop [OF r, of E q] c by (simp add: view_of_def record_bytes_def add.assoc)
qed

lemma next_record_end:
  assumes r: "reads r s area" and c: "sr_cursor r = length area"
  shows "next_record E V s r = (r, Inr EndOfSegment)"
proof -
  have "skip_block_padding_if_needed (length area) r = r"
    using mod_less_divisor [of BLOCK_SIZE "length area"]
    by (simp add: skip_block_padding_if_needed_def Let_def c BLOCK_SIZE_def)
  then show ?thesis
    unfolding next_record_loop [OF r, where q = 0]
    by (subst next_loop.simps) (simp add: c handle_tail_def RECORD_HEADER_SIZE_def part_def)
qed

lemma next_record_trunc:
  assumes r: "reads r s area" and c: "sr_cursor r = c" and le: "c \<le> length area"
    and area: "drop c area = take m (record_bytes E (c mod BLOCK_SIZE) (q, p))"
    and m: "m < length (record_bytes E (c mod BLOCK_SIZE) (q, p))"
  shows "\<exists>r' out. next_record E V s r = (r', Inr out) \<and> ends_at c out"
proof -
  let ?off = "c mod BLOCK_SIZE"
  let ?r1 = "r\<lparr>sr_cursor := c + pad_len ?off\<rparr>" and ?d = "frags_bytes E q (start_off ?off) p True"
  have len: "length area = c + m" using arg_cong [OF area, of length] le m by simp
  show ?thesis
  proof (cases "m < pad_len ?off")
    case True
    then have "skip_block_padding_if_needed (length area) r = r" "m < RECORD_HEADER_SIZE"
      by (auto simp: skip_block_padding_if_needed_def Let_def c len pad_len_def split: if_splits)
    then show ?thesis
      unfolding next_record_loop [OF r, where q = q]
      using next_loop_short_header [OF r, of E c] c len by simp
  next
    case False
    then have "pad_len ?off \<le> length area - c" using len by simp
    note skip = skip_to_start [OF c le this]
    have "drop (sr_cursor ?r1) area = drop (pad_len ?off) (drop c area)" by (simp add: add.commute)
    then have "drop (sr_cursor ?r1) area = take (m - pad_len ?off) ?d"
      unfolding area using False by (simp add: record_bytes_def)
    moreover have "m - pad_len ?off < length ?d" using m False by (simp add: record_bytes_def)
    ultimately have "\<exists>r' out. next_loop E V s c (length area) (part True q []) ?r1 = (r', Inr out) \<and> ends_at c out"
      using r skip(2) start_off_room False len
      by (intro next_loop_trunc [where off = "start_off ?off"]) simp_all
    then show ?thesis
      unfolding next_record_loop [OF r, where q = q]
      using next_loop_after_skip [of E V s c "length area" "part True q []" r] skip(1) c by simp
  qed
qed

lemma replay_log:
  "reads r s area \<Longrightarrow> sr_cursor r = pos \<Longrightarrow> pos \<le> length area \<Longrightarrow>
   drop pos area = log_from E pos rs @ rest \<Longrightarrow> feed f (map view_of rs) acc = (acc', Inr ()) \<Longrightarrow>
   replay E V s f r acc = replay E V s f (r\<lparr>sr_cursor := pos + length (log_from E pos rs)\<rparr>) acc'"
proof (induction rs arbitrary: r pos acc)
  case (Cons rec rs)
  obtain q p where rec: "rec = (q, p)" by (cases rec)
  let ?d = "record_bytes E (pos mod BLOCK_SIZE) (q, p)"
  let ?r' = "r\<lparr>sr_cursor := pos + length ?d\<rparr>"
  have area: "drop pos area = ?d @ log_from E (pos + length ?d) rs @ rest"
    using Cons.prems(4) by (simp add: rec Let_def)
  note nxt = next_record_log [OF Cons.prems(1,2) area Cons.prems(3)]
  obtain acc1 where acc1: "f (view_of (q, p)) acc = (acc1, Inr ())" "feed f (map view_of rs) acc1 = (acc', Inr ())"
    using Cons.prems(5) by (auto simp: rec io_bind_def split: prod.splits sum.splits)
  have "pos + length ?d \<le> length area" using arg_cong [OF area, of length] Cons.prems(3) by simp
  moreover have "drop (pos + length ?d) area = log_from E (pos + length ?d) rs @ rest"
    using arg_cong [OF area, of "drop (length ?d)"] by (simp add: add.commute)
  ultimately have "replay E V s f ?r' acc1 =
      replay E V s f (?r'\<lparr>sr_cursor := pos + length ?d + length (log_from E (pos + length ?d) rs)\<rparr>) acc'"
    using Cons.prems(1) acc1(2) by (intro Cons.IH) simp_all
  moreover have "replay E V s f r acc = replay E V s f ?r' acc1"
    by (subst replay.simps) (simp add: nxt acc1(1))
  ultimately show ?case by (simp add: rec Let_def add.assoc)
next
  case Nil
  then show ?case by (cases r) simp
qed

lemma replay_end:
  "reads r s area \<Longrightarrow> sr_cursor r = length area \<Longrightarrow> replay E V s f r acc = ((r, acc), Inr Clean)"
  by (subst replay.simps) (simp add: next_record_end)

lemma replay_trunc:
  assumes "reads r s area" "sr_cursor r = c" "c \<le> length area"
    "drop c area = take m (record_bytes E (c mod BLOCK_SIZE) (q, p))"
    "m < length (record_bytes E (c mod BLOCK_SIZE) (q, p))"
  shows "\<exists>r' out. replay E V s f r acc = ((r', acc), Inr out) \<and>
    (out = Clean \<or> (\<exists>reason. out = ReplayTornTail c reason))"
proof -
  obtain r' out where "next_record E V s r = (r', Inr out)" "ends_at c out"
    using next_record_trunc [OF assms] by blast
  then show ?thesis by (subst replay.simps) (auto simp: ends_at_def)
qed

lemma segment_reader_open_ok:
  assumes "live s (fid h)" "contents s (fid h) = segment_header_bytes (segment_header_new_signed E sid first) @ area"
    "length (contents s (fid h)) < 2 ^ 64"
  obtains r where "segment_reader_open E V h s = Inr r" "reads r s area" "sr_cursor r = 0"
proof -
  have "v_read_at V h 32 0 s = Inr (segment_header_bytes (segment_header_new_signed E sid first))"
    using read_at_ok [OF assms(1), of 0 32] assms(2,3) by simp
  then have "segment_reader_open E V h s = Inr \<lparr>sr_file = h, sr_file_size = 32 + length area, sr_cursor = 0,
      sr_header = segment_header_new_signed E sid first\<rparr>"
    using size_ok [OF assms(1)] assms(2)
    by (simp add: segment_reader_open_def SEGMENT_HEADER_SIZE_def)
  then show thesis
    using assms by (elim that) (simp_all add: reads_def SEGMENT_HEADER_SIZE_def)
qed

lemma replay_from_start:
  assumes "reads r s area" "sr_cursor r = 0" "area = log_from E 0 rs @ rest"
  shows "replay E V s collect r [] =
    replay E V s collect (r\<lparr>sr_cursor := length (log_from E 0 rs)\<rparr>) (map view_of rs)"
  using replay_log [OF assms(1,2), of E rs rest collect "[]"] assms(3) by simp

end

text \<open>Cutting a log short keeps a number of whole records and a part of the next.\<close>

lemma log_from_take:
  "\<exists>k tail. k \<le> length rs \<and> take n (log_from E pos rs) = log_from E pos (take k rs) @ tail \<and>
     (k = length rs \<and> tail = [] \<or>
      k < length rs \<and> (\<exists>m. tail = take m (record_bytes E ((pos + length (log_from E pos (take k rs))) mod BLOCK_SIZE) (rs ! k)) \<and>
        m < length (record_bytes E ((pos + length (log_from E pos (take k rs))) mod BLOCK_SIZE) (rs ! k))))"
proof (induction rs arbitrary: n pos)
  case (Cons r rs)
  let ?d = "record_bytes E (pos mod BLOCK_SIZE) r"
  show ?case
  proof (cases "n < length ?d")
    case True
    then show ?thesis by (intro exI [of _ 0] exI [of _ "take n ?d"]) (auto simp: Let_def)
  next
    case False
    obtain k tail where k: "k \<le> length rs" "take (n - length ?d) (log_from E (pos + length ?d) rs) =
        log_from E (pos + length ?d) (take k rs) @ tail"
      "k = length rs \<and> tail = [] \<or> k < length rs \<and> (\<exists>m. tail = take m (record_bytes E ((pos + length ?d +
         length (log_from E (pos + length ?d) (take k rs))) mod BLOCK_SIZE) (rs ! k)) \<and>
        m < length (record_bytes E ((pos + length ?d + length (log_from E (pos + length ?d) (take k rs))) mod BLOCK_SIZE) (rs ! k)))"
      using Cons.IH [of "n - length ?d" "pos + length ?d"] by blast
    then show ?thesis using False
      by (intro exI [of _ "Suc k"] exI [of _ tail]) (simp add: Let_def add.assoc)
  qed
qed simp

lemma replay_collect_extends:
  "replay E V s collect r acc = ((r', acc'), out) \<Longrightarrow> \<exists>more. acc' = acc @ more"
proof (induction E V s "collect" r acc rule: replay.induct)
  case (1 E V s r acc)
  obtain r1 res where n: "next_record E V s r = (r1, res)" by fastforce
  show ?case
  proof (cases "\<exists>v. res = Inr (Record v)")
    case True
    then obtain v where v: "res = Inr (Record v)" by blast
    then have "replay E V s collect r1 (acc @ [v]) = ((r', acc'), out)"
      using "1.prems" n by (subst (asm) replay.simps) (simp add: collect_def)
    then show ?thesis using "1.hyps" [OF n [symmetric, unfolded v] refl refl] by (force simp: collect_def)
  next
    case False
    then show ?thesis using "1.prems" n
      by (subst (asm) replay.simps) (auto split: sum.splits read_outcome.splits)
  qed
qed

context file_store
begin

lemma segment_round_trip:
  assumes "live s (fid h)" "contents s (fid h) = []" "length (segment_bytes E sid first recs) < 2 ^ 64"
  shows "\<exists>w s1 w' s2 r r'. segment_writer_create E V h sid first s = (s1, Inr w) \<and>
    append_records E V recs (w, s1) = ((w', s2), Inr ()) \<and>
    contents s2 (fid h) = segment_bytes E sid first recs \<and>
    segment_reader_open E V h s2 = Inr r \<and>
    replay E V s2 collect r [] = ((r', map view_of recs), Inr Clean)"
proof -
  obtain w s1 where w: "segment_writer_create E V h sid first s = (s1, Inr w)" "sw_file w = h"
    "sw_inv w []" "grew (fid h) (segment_bytes E sid first []) s s1"
    using segment_writer_create_ok [OF assms(1,2)] by blast
  have s1: "live s1 (fid (sw_file w))" using assms(1) w(2,4) by (simp add: grew_def)
  have "length ([] :: bytes) + length (log_from E (length ([] :: bytes)) recs) < 2 ^ 64"
    using assms(3) by (simp add: segment_bytes_def)
  from append_records_ok [OF s1 w(3) this] obtain w' s2 where s2:
    "append_records E V recs (w, s1) = ((w', s2), Inr ())"
    "grew (fid h) (log_from E 0 recs) s1 s2" using w(2) by auto
  have live: "live s2 (fid h)" and cont: "contents s2 (fid h) = segment_bytes E sid first recs"
    using assms(1,2) w(4) s2(2) by (simp_all add: grew_def segment_bytes_def)
  have "length (contents s2 (fid h)) < 2 ^ 64" using cont assms(3) by simp
  then obtain r where r: "segment_reader_open E V h s2 = Inr r" "reads r s2 (log_from E 0 recs)"
    "sr_cursor r = 0" by (rule segment_reader_open_ok [OF live cont [unfolded segment_bytes_def]])
  have "replay E V s2 collect r [] =
      replay E V s2 collect (r\<lparr>sr_cursor := length (log_from E 0 recs)\<rparr>) (map view_of recs)"
    by (rule replay_from_start [OF r(2,3), where rest = "[]"]) simp
  also have "\<dots> = ((r\<lparr>sr_cursor := length (log_from E 0 recs)\<rparr>, map view_of recs), Inr Clean)"
    using r(2) by (intro replay_end) simp_all
  finally show ?thesis using w(1) s2(1) r(1) cont by blast
qed

lemma segment_crash_replay:
  assumes "live s (fid h)" "contents s (fid h) = take n (segment_bytes E sid first recs)"
    and n: "SEGMENT_HEADER_SIZE \<le> n" "n \<le> length (segment_bytes E sid first recs)" "n < 2 ^ 64"
  shows "\<exists>r r' k out. segment_reader_open E V h s = Inr r \<and>
    replay E V s collect r [] = ((r', map view_of (take k recs)), Inr out) \<and> k \<le> length recs \<and>
    length (segment_bytes E sid first (take k recs)) \<le> n \<and>
    (k < length recs \<longrightarrow> n < length (segment_bytes E sid first (take (Suc k) recs))) \<and>
    (out = Clean \<or> (\<exists>reason. out = ReplayTornTail (length (log_from E 0 (take k recs))) reason))"
proof -
  let ?area = "take (n - 32) (log_from E 0 recs)"
  have cont: "contents s (fid h) = segment_header_bytes (segment_header_new_signed E sid first) @ ?area"
    using assms(2) n(1) by (simp add: segment_bytes_def SEGMENT_HEADER_SIZE_def)
  have "length (contents s (fid h)) < 2 ^ 64" using assms(2) n(3) by simp
  then obtain r where r: "segment_reader_open E V h s = Inr r" "reads r s ?area" "sr_cursor r = 0"
    by (rule segment_reader_open_ok [OF assms(1) cont])
  obtain k tail where k: "k \<le> length recs" "?area = log_from E 0 (take k recs) @ tail"
    and tail: "k = length recs \<and> tail = [] \<or> k < length recs \<and>
      (\<exists>m. tail = take m (record_bytes E (length (log_from E 0 (take k recs)) mod BLOCK_SIZE) (recs ! k)) \<and>
        m < length (record_bytes E (length (log_from E 0 (take k recs)) mod BLOCK_SIZE) (recs ! k)))"
    using log_from_take [of recs "n - 32" E 0] unfolding add_0 by blast
  let ?c = "length (log_from E 0 (take k recs))"
  let ?r1 = "r\<lparr>sr_cursor := ?c\<rparr>"
  have rep: "replay E V s collect r [] = replay E V s collect ?r1 (map view_of (take k recs))"
    by (rule replay_from_start [OF r(2,3) k(2)])
  have la: "length ?area = n - 32"
    using n by (simp add: segment_bytes_def SEGMENT_HEADER_SIZE_def)
  have area: "length ?area = n - 32" "?c + length tail = n - 32" "drop ?c ?area = tail"
    using la unfolding k(2) by simp_all
  have fit: "length (segment_bytes E sid first (take k recs)) \<le> n"
    using area n(1) by (simp add: segment_bytes_def SEGMENT_HEADER_SIZE_def)
  show ?thesis
  proof (cases "k = length recs")
    case True
    then have "tail = []" using tail by simp
    then have "replay E V s collect ?r1 (map view_of (take k recs)) = ((?r1, map view_of (take k recs)), Inr Clean)"
      using r(2) area by (intro replay_end [where area = ?area]) simp_all
    then have "replay E V s collect r [] = ((?r1, map view_of (take k recs)), Inr Clean)" using rep by simp
    then show ?thesis using r(1) k(1) fit True
      by (intro exI [of _ r] exI [of _ ?r1] exI [of _ k] exI [of _ Clean]) simp
  next
    case False
    obtain q p where qp: "recs ! k = (q, p)" by fastforce
    from False tail qp obtain m where m: "tail = take m (record_bytes E (?c mod BLOCK_SIZE) (q, p))"
      "m < length (record_bytes E (?c mod BLOCK_SIZE) (q, p))" "k < length recs" by auto
    have "\<exists>r' out. replay E V s collect ?r1 (map view_of (take k recs)) = ((r', map view_of (take k recs)), Inr out) \<and>
        (out = Clean \<or> (\<exists>reason. out = ReplayTornTail ?c reason))"
      using r(2) area m by (intro replay_trunc [where area = ?area]) simp_all
    moreover have "n < length (segment_bytes E sid first (take (Suc k) recs))"
      using area m n(1) qp
      by (simp add: take_Suc_conv_app_nth log_from_append segment_bytes_def Let_def SEGMENT_HEADER_SIZE_def)
    ultimately show ?thesis unfolding rep [symmetric] using r(1) k(1) fit by blast
  qed
qed

lemma segment_prefix_replay:
  assumes "live s (fid h)" "contents s (fid h) = segment_bytes E sid first recs @ garbage"
    "length (contents s (fid h)) < 2 ^ 64"
  shows "\<exists>r r' more out. segment_reader_open E V h s = Inr r \<and>
    replay E V s collect r [] = ((r', map view_of recs @ more), out)"
proof -
  let ?area = "log_from E 0 recs @ garbage"
  have cont: "contents s (fid h) = segment_header_bytes (segment_header_new_signed E sid first) @ ?area"
    using assms(2) by (simp add: segment_bytes_def)
  obtain r where r: "segment_reader_open E V h s = Inr r" "reads r s ?area" "sr_cursor r = 0"
    by (rule segment_reader_open_ok [OF assms(1) cont assms(3)])
  have "replay E V s collect r [] =
      replay E V s collect (r\<lparr>sr_cursor := length (log_from E 0 recs)\<rparr>) (map view_of recs)"
    by (rule replay_from_start [OF r(2,3) refl])
  moreover obtain r' acc out where
    "replay E V s collect (r\<lparr>sr_cursor := length (log_from E 0 recs)\<rparr>) (map view_of recs) = ((r', acc), out)"
    by (metis surj_pair)
  ultimately show ?thesis using r(1) replay_collect_extends by metis
qed

end

section \<open>Properties\<close>

text \<open>
  C2. What was appended is what is replayed: create a segment in an empty file, append any
  records, and a reader opened on the file hands out exactly these records, in order, with
  their sequence numbers, and reports a clean end.  The only limit is that the segment stays
  below \<^verbatim>\<open>2^64\<close> bytes.  Nothing is assumed of the checksum functions.
\<close>

theorem wal_round_trip:
  assumes "h < length (mv_heap s)" "mv_heap s ! h = []"
    and "length (segment_bytes E sid first recs) < 2 ^ 64"
  shows "\<exists>w s1 w' s2 r r'. segment_writer_create E MemVfs h sid first s = (s1, Inr w) \<and>
    append_records E MemVfs recs (w, s1) = ((w', s2), Inr ()) \<and>
    segment_reader_open E MemVfs h s2 = Inr r \<and>
    replay E MemVfs s2 collect r [] = ((r', map view_of recs), Inr Clean)"
  using mem.segment_round_trip [where h = h and s = s] assms by simp blast

theorem wal_round_trip_witness:
  "\<exists>E w s1 w' s2 r r'. segment_writer_create E MemVfs 0 7 1 \<lparr>mv_files = [], mv_heap = [[]]\<rparr> = (s1, Inr w) \<and>
    append_records E MemVfs [(1, [10, 20]), (2, [])] (w, s1) = ((w', s2), Inr ()) \<and>
    segment_reader_open E MemVfs 0 s2 = Inr r \<and>
    replay E MemVfs s2 collect r [] =
      ((r', [\<lparr>rv_seqno = 1, rv_payload = [10, 20]\<rparr>, \<lparr>rv_seqno = 2, rv_payload = []\<rparr>]), Inr Clean)"
  using wal_round_trip [of 0 "\<lparr>mv_files = [], mv_heap = [[]]\<rparr>" E 7 1 "[(1, [10, 20]), (2, [])]"]
  by (simp add: segment_bytes_def record_bytes_def pad_len_def start_off_def wal_sizes Let_def
      frags_bytes_unfold view_of_def) blast

text \<open>
  C1. A crash loses only the tail.  Cut the file of a segment anywhere after its header: the
  segment still opens, replay succeeds, and it hands out exactly the records that lie
  completely before the cut, in order, none of them altered and nothing after them.  The end
  is reported as clean or as torn at the end of the last whole record.
\<close>

theorem wal_crash_replay:
  assumes "h < length (mv_heap s)" "mv_heap s ! h = take n (segment_bytes E sid first recs)"
    and "SEGMENT_HEADER_SIZE \<le> n" "n \<le> length (segment_bytes E sid first recs)" "n < 2 ^ 64"
  shows "\<exists>r r' k out. segment_reader_open E MemVfs h s = Inr r \<and>
    replay E MemVfs s collect r [] = ((r', map view_of (take k recs)), Inr out) \<and> k \<le> length recs \<and>
    length (segment_bytes E sid first (take k recs)) \<le> n \<and>
    (k < length recs \<longrightarrow> n < length (segment_bytes E sid first (take (Suc k) recs))) \<and>
    (out = Clean \<or> (\<exists>reason. out = ReplayTornTail (length (log_from E 0 (take k recs))) reason))"
  using mem.segment_crash_replay [where h = h and s = s and n = n] assms by simp

theorem wal_crash_replay_witness:
  "\<exists>E r r' k out. segment_reader_open E MemVfs 0
      \<lparr>mv_files = [], mv_heap = [take 50 (segment_bytes E 7 1 [(1, [10]), (2, [20])])]\<rparr> = Inr r \<and>
    replay E MemVfs \<lparr>mv_files = [], mv_heap = [take 50 (segment_bytes E 7 1 [(1, [10]), (2, [20])])]\<rparr>
      collect r [] = ((r', map view_of (take k [(1, [10]), (2, [20])])), Inr out)"
  using wal_crash_replay [of 0 "\<lparr>mv_files = [], mv_heap = [take 50 (segment_bytes E 7 1 [(1, [10]), (2, [20])])]\<rparr>"
      50 E 7 1 "[(1, [10]), (2, [20])]"]
  by (simp add: segment_bytes_def record_bytes_def pad_len_def start_off_def wal_sizes Let_def
      frags_bytes_unfold) blast

text \<open>
  C3. Whatever bytes follow the records of a segment, a torn write or a corrupted block, all
  the records before them are handed out first, in order.
\<close>

theorem wal_prefix_replay:
  assumes "h < length (mv_heap s)" "mv_heap s ! h = segment_bytes E sid first recs @ garbage"
    and "length (mv_heap s ! h) < 2 ^ 64"
  shows "\<exists>r r' more out. segment_reader_open E MemVfs h s = Inr r \<and>
    replay E MemVfs s collect r [] = ((r', map view_of recs @ more), out)"
  using mem.segment_prefix_replay [where h = h and s = s] assms by simp

theorem wal_prefix_replay_witness:
  "\<exists>E r r' more out. segment_reader_open E MemVfs 0
      \<lparr>mv_files = [], mv_heap = [segment_bytes E 7 1 [(1, [10])] @ [1, 2, 3]]\<rparr> = Inr r \<and>
    replay E MemVfs \<lparr>mv_files = [], mv_heap = [segment_bytes E 7 1 [(1, [10])] @ [1, 2, 3]]\<rparr>
      collect r [] = ((r', \<lparr>rv_seqno = 1, rv_payload = [10]\<rparr> # more), out)"
  using wal_prefix_replay [of 0 "\<lparr>mv_files = [], mv_heap = [segment_bytes E 7 1 [(1, [10])] @ [1, 2, 3]]\<rparr>"
      E 7 1 "[(1, [10])]" "[1, 2, 3]"]
  by (simp add: segment_bytes_def record_bytes_def pad_len_def start_off_def wal_sizes Let_def
      frags_bytes_unfold view_of_def) blast

end
