(* ===== verification/Arena.thy ===== *)
theory Arena
  imports Prelude
begin

text \<open>
  The bump allocator of \<^verbatim>\<open>crates/paddock-core/src/memtable/arena.rs\<close>.  A slab is known by its
  number, in the order of allocation; the list of capacities has the current slab first, as
  the chain of \<^verbatim>\<open>prev\<close> pointers does.  A pointer into the arena is the number of a slab and an
  offset into it.  Memory is not modelled here: what is shown is that the regions handed out
  are aligned, lie within their slabs behind the header, and never overlap, which is what the
  users of the arena rely on when they write to them.
\<close>

section \<open>The model\<close>

definition INITIAL_SLAB_SIZE :: nat where "INITIAL_SLAB_SIZE = 256 * 1024"
definition MAX_SLAB_SIZE :: nat where "MAX_SLAB_SIZE = 4 * 1024 * 1024"
definition DEFAULT_ALIGN :: nat where "DEFAULT_ALIGN = 8"
definition SLAB_HEADER_SIZE :: nat where "SLAB_HEADER_SIZE = 16"

record arena =
  ar_slabs :: "nat list"
  ar_bump_offset :: nat
  ar_next_slab_size :: nat
  ar_bytes_used :: nat
  ar_bytes_reserved :: nat

definition arena_new :: arena where
  "arena_new = \<lparr>ar_slabs = [], ar_bump_offset = 0, ar_next_slab_size = INITIAL_SLAB_SIZE,
     ar_bytes_used = 0, ar_bytes_reserved = 0\<rparr>"

definition round_up :: "nat \<Rightarrow> nat \<Rightarrow> nat" where
  "round_up v multiple =
     (let r = v mod multiple in if r = 0 then v else v + (multiple - r))"

fun is_power_of_two :: "nat \<Rightarrow> bool" where
  "is_power_of_two n \<longleftrightarrow> (if n \<le> 1 then n = 1 else even n \<and> is_power_of_two (n div 2))"

declare is_power_of_two.simps [simp del]

text \<open>\<^verbatim>\<open>saturating_mul\<close> on a 64-bit \<^verbatim>\<open>usize\<close>.\<close>

definition saturating_mul :: "nat \<Rightarrow> nat \<Rightarrow> nat" where
  "saturating_mul a b = min (a * b) (2 ^ 64 - 1)"

definition grow :: "nat \<Rightarrow> arena \<Rightarrow> arena" where
  "grow capacity a =
     a\<lparr>ar_slabs := capacity # ar_slabs a, ar_bump_offset := 0,
       ar_bytes_reserved := ar_bytes_reserved a + capacity,
       ar_next_slab_size := min (saturating_mul (ar_next_slab_size a) 2) MAX_SLAB_SIZE\<rparr>"

definition request :: "nat \<Rightarrow> nat \<Rightarrow> nat" where
  "request sz align = max (round_up sz align) 1"

definition fits_head :: "arena \<Rightarrow> nat \<Rightarrow> nat \<Rightarrow> bool" where
  "fits_head a sz align \<longleftrightarrow>
     (case ar_slabs a of
        [] \<Rightarrow> False
      | slab_cap # _ \<Rightarrow>
          round_up (SLAB_HEADER_SIZE + ar_bump_offset a) align + request sz align \<le> slab_cap)"

definition new_slab_size :: "arena \<Rightarrow> nat \<Rightarrow> nat \<Rightarrow> nat" where
  "new_slab_size a sz align =
     (let want = max (request sz align + SLAB_HEADER_SIZE + align) (ar_next_slab_size a)
      in min want (max MAX_SLAB_SIZE want))"

lemma round_up_bounds: "0 < m \<Longrightarrow> v \<le> round_up v m \<and> round_up v m < v + m"
  using mod_less_divisor [of m v] by (auto simp: round_up_def Let_def simp del: mod_less_divisor)

lemma round_up_dvd [simp]: "0 < m \<Longrightarrow> m dvd round_up v m"
proof -
  assume "0 < m"
  then have "v mod m < m" by simp
  then have "v + (m - v mod m) = (v - v mod m) + m"
    using mod_less_eq_dividend [of v m] by linarith
  moreover have "m dvd v - v mod m" by (rule dvd_minus_mod)
  ultimately have "m dvd v + (m - v mod m)" by (metis dvd_add dvd_refl)
  then show ?thesis by (auto simp: round_up_def Let_def mod_eq_0_iff_dvd simp del: add_diff_assoc)
qed

lemma power_of_two_pos [dest]: "is_power_of_two n \<Longrightarrow> 0 < n"
  by (subst (asm) is_power_of_two.simps) (auto split: if_splits)

lemma fits_after_grow:
  "0 < align \<Longrightarrow> fits_head (grow (new_slab_size a sz align) a) sz align"
  using round_up_bounds [of align SLAB_HEADER_SIZE]
  by (auto simp: fits_head_def grow_def new_slab_size_def Let_def)

text \<open>
  \<^verbatim>\<open>allocate\<close> calls itself after growing; the new slab has room, so the second call returns.
\<close>

function allocate :: "nat \<Rightarrow> nat \<Rightarrow> arena \<Rightarrow> (arena \<times> (nat \<times> nat)) result" where
  "allocate sz align a =
     (if \<not> is_power_of_two align then Inl (Panic ''alignment must be a power of two'')
      else if fits_head a sz align then
        let aligned_start = round_up (SLAB_HEADER_SIZE + ar_bump_offset a) align;
            end_off = aligned_start + request sz align
        in Inr (a\<lparr>ar_bump_offset := end_off - SLAB_HEADER_SIZE,
                  ar_bytes_used := ar_bytes_used a + request sz align\<rparr>,
                (length (ar_slabs a) - 1, aligned_start))
      else allocate sz align (grow (new_slab_size a sz align) a))"
  by pat_completeness auto
termination
  by (relation "measure (\<lambda>(sz, align, a). if fits_head a sz align then 0 else 1)")
     (auto simp: fits_after_grow)

declare allocate.simps [simp del]

section \<open>Regions\<close>

text \<open>A region is the number of its slab, its offset and its length.\<close>

type_synonym region = "nat \<times> nat \<times> nat"

fun allocate_all :: "(nat \<times> nat) list \<Rightarrow> arena \<Rightarrow> (arena \<times> region list) result" where
  "allocate_all [] a = Inr (a, [])"
| "allocate_all ((sz, align) # reqs) a =
     and_then (allocate sz align a) (\<lambda>(a, (slab, off)).
     and_then (allocate_all reqs a) (\<lambda>(a, rs). Inr (a, (slab, off, request sz align) # rs)))"

definition slab_cap :: "arena \<Rightarrow> nat \<Rightarrow> nat" where
  "slab_cap a i = rev (ar_slabs a) ! i"

text \<open>A region that an arena may have handed out: behind the header of its slab, within it,
  and below the bump offset when the slab is the current one.\<close>

fun handed_out :: "arena \<Rightarrow> region \<Rightarrow> bool" where
  "handed_out a (i, off, len) \<longleftrightarrow>
     i < length (ar_slabs a) \<and> SLAB_HEADER_SIZE \<le> off \<and> off + len \<le> slab_cap a i \<and>
     (i = length (ar_slabs a) - 1 \<longrightarrow> off + len \<le> SLAB_HEADER_SIZE + ar_bump_offset a)"

fun disjoint_regions :: "region \<Rightarrow> region \<Rightarrow> bool" where
  "disjoint_regions (i, off, len) (j, off', len') \<longleftrightarrow> i \<noteq> j \<or> off + len \<le> off' \<or> off' + len' \<le> off"

text \<open>Every region handed out before stays where it is, and the new one keeps clear of it.\<close>

lemma allocate_step:
  assumes "allocate sz align a = Inr (a', (i, off))"
  shows "handed_out a' (i, off, request sz align) \<and> align dvd off \<and> sz \<le> request sz align \<and>
    (\<forall>r. handed_out a r \<longrightarrow> handed_out a' r \<and> disjoint_regions r (i, off, request sz align))"
  using assms
proof (induction sz align a rule: allocate.induct)
  case (1 sz align a)
  have pow: "is_power_of_two align"
    using "1.prems" by (subst (asm) allocate.simps) (simp split: if_splits)
  then have pos: "0 < align" by auto
  have sz: "sz \<le> request sz align"
    using round_up_bounds [OF pos, of sz] by (auto simp: request_def)
  show ?case
  proof (cases "fits_head a sz align")
    case True
    then obtain cap caps where slabs: "ar_slabs a = cap # caps"
      and fits: "round_up (SLAB_HEADER_SIZE + ar_bump_offset a) align + request sz align \<le> cap"
      by (auto simp: fits_head_def split: list.splits)
    from "1.prems" pow True have a': "a' = a\<lparr>ar_bump_offset :=
          round_up (SLAB_HEADER_SIZE + ar_bump_offset a) align + request sz align - SLAB_HEADER_SIZE,
        ar_bytes_used := ar_bytes_used a + request sz align\<rparr>"
      and i: "i = length caps" "off = round_up (SLAB_HEADER_SIZE + ar_bump_offset a) align"
      by (auto simp: allocate.simps [of sz align a] slabs Let_def)
    have le: "SLAB_HEADER_SIZE + ar_bump_offset a \<le> off"
      using round_up_bounds [OF pos] i by simp
    have "handed_out a' (i, off, request sz align)"
      using fits le i by (simp add: a' slab_cap_def slabs nth_append)
    moreover have "handed_out a' r \<and> disjoint_regions r (i, off, request sz align)" if "handed_out a r" for r
      using that le by (cases r) (auto simp: a' slabs i slab_cap_def)
    ultimately show ?thesis using i(2) pos sz by simp
  next
    case False
    let ?g = "grow (new_slab_size a sz align) a"
    have "handed_out ?g r" if "handed_out a r" for r
      using that by (cases r) (auto simp: grow_def slab_cap_def nth_append)
    moreover have "allocate sz align ?g = Inr (a', (i, off))"
      using "1.prems" pow False by (simp add: allocate.simps [of sz align a])
    ultimately show ?thesis using "1.IH" [OF _ False] pow by blast
  qed
qed

lemma allocate_total: "is_power_of_two align \<Longrightarrow> \<exists>a' p. allocate sz align a = Inr (a', p)"
  by (induction sz align a rule: allocate.induct)
     (subst allocate.simps, auto simp: Let_def)

lemma allocate_all_total:
  "list_all (\<lambda>(sz, align). is_power_of_two align) reqs \<Longrightarrow> \<exists>a' rs. allocate_all reqs a = Inr (a', rs)"
proof (induction reqs arbitrary: a)
  case (Cons req reqs)
  obtain sz align where req: "req = (sz, align)" by fastforce
  with Cons.prems obtain a1 p where "allocate sz align a = Inr (a1, p)"
    using allocate_total by fastforce
  with Cons.IH [of a1] Cons.prems show ?case by (auto simp: req split: prod.splits)
qed simp

lemma allocate_all_regions:
  "allocate_all reqs a = Inr (a', rs) \<Longrightarrow> \<forall>r \<in> set old. handed_out a r \<Longrightarrow>
     sorted_wrt disjoint_regions old \<Longrightarrow>
     (\<forall>r \<in> set (old @ rs). handed_out a' r) \<and> sorted_wrt disjoint_regions (old @ rs) \<and>
     list_all2 (\<lambda>(sz, align) (i, off, len). align dvd off \<and> sz \<le> len) reqs rs"
proof (induction reqs arbitrary: a rs old)
  case (Cons req reqs)
  obtain sz align where req: "req = (sz, align)" by fastforce
  from Cons.prems(1) obtain a1 i off rs1 where 1: "allocate sz align a = Inr (a1, (i, off))"
    "allocate_all reqs a1 = Inr (a', rs1)" "rs = (i, off, request sz align) # rs1"
    by (auto simp: req result_simps)
  note step = allocate_step [OF 1(1)]
  have "\<forall>r \<in> set (old @ [(i, off, request sz align)]). handed_out a1 r"
    using step Cons.prems(2) by (auto simp del: handed_out.simps)
  moreover have "sorted_wrt disjoint_regions (old @ [(i, off, request sz align)])"
    using step Cons.prems(2,3) unfolding sorted_wrt_append
    by (auto simp del: handed_out.simps disjoint_regions.simps split_paired_All)
  ultimately show ?case
    using Cons.IH [OF 1(2), of "old @ [(i, off, request sz align)]"] step 1(3) req by simp
qed simp

section \<open>Properties\<close>



end
