(* ===== verification/SkipList.thy ===== *)
theory SkipList
  imports Arena "HOL-Library.Product_Lexorder" "HOL-Library.Multiset"
begin

text \<open>
  The memtable, \<^verbatim>\<open>crates/paddock-core/src/memtable/skiplist.rs\<close>, at the level of its pointers.
  The nodes are numbered in the order of their allocation and a pointer is the number of a
  node (\<open>None\<close> is null); every node has its array of forward pointers, and the head is node 0.
  The layout of a node inside its arena region is left out, its size is not: every allocation
  goes through the arena, whose regions are disjoint (theory Arena).

  The loops follow pointers, so they end only on well-formed lists: they are partial
  functions into \<open>option\<close>, where \<open>None\<close> is a loop that does not return, and the invariant
  \<open>sl_inv\<close> is shown to make every call return.  The abstraction of a list is the list of its
  entries in internal-key order; insertion and lookup refine the operations on that list.
\<close>

section \<open>The model\<close>

definition MAX_HEIGHT :: nat where "MAX_HEIGHT = 12"
definition BRANCH :: u32 where "BRANCH = 4"
definition NODE_HEADER_SIZE :: nat where "NODE_HEADER_SIZE = 24"
definition ATOMIC_PTR_SIZE :: nat where "ATOMIC_PTR_SIZE = 8"

datatype op_type = OpPut | OpTombstone

definition op_type_from_byte :: "u8 \<Rightarrow> op_type option" where
  "op_type_from_byte b = (if b = 0 then Some OpPut else if b = 1 then Some OpTombstone else None)"

fun op_type_byte :: "op_type \<Rightarrow> u8" where
  "op_type_byte OpPut = 0"
| "op_type_byte OpTombstone = 1"

record node =
  nd_height :: nat
  nd_op_type :: op_type
  nd_key :: key
  nd_value :: bytes
  nd_seqno :: u64
  nd_forward :: "nat option list"

record skip_list =
  sl_arena :: arena
  sl_nodes :: "node list"
  sl_max_height :: nat
  sl_rng_state :: u32
  sl_len :: nat

definition compare_internal_key :: "key \<Rightarrow> u64 \<Rightarrow> key \<Rightarrow> u64 \<Rightarrow> ordering" where
  "compare_internal_key left_key left_seqno right_key right_seqno =
     (case cmp left_key right_key of
        Equal \<Rightarrow> cmp right_seqno left_seqno
      | other \<Rightarrow> other)"

text \<open>The load of a forward pointer.\<close>

definition forward :: "node list \<Rightarrow> nat \<Rightarrow> nat \<Rightarrow> nat option" where
  "forward nodes p level = nd_forward (nodes ! p) ! level"

definition set_forward :: "nat \<Rightarrow> nat \<Rightarrow> nat option \<Rightarrow> node list \<Rightarrow> node list" where
  "set_forward p level q nodes =
     nodes[p := (nodes ! p)\<lparr>nd_forward := (nd_forward (nodes ! p))[level := q]\<rparr>]"

definition build_head :: "arena \<Rightarrow> (arena \<times> node) result" where
  "build_head a =
     and_then (allocate (NODE_HEADER_SIZE + MAX_HEIGHT * ATOMIC_PTR_SIZE) 8 a) (\<lambda>(a, _).
     Inr (a, \<lparr>nd_height = MAX_HEIGHT, nd_op_type = OpPut, nd_key = [], nd_value = [], nd_seqno = 0,
              nd_forward = replicate MAX_HEIGHT None\<rparr>))"

definition skip_list_new :: "skip_list result" where
  "skip_list_new =
     and_then (build_head arena_new) (\<lambda>(a, head).
     Inr \<lparr>sl_arena = a, sl_nodes = [head], sl_max_height = 1, sl_rng_state = 0x9E3779B9, sl_len = 0\<rparr>)"

definition sl_is_empty :: "skip_list \<Rightarrow> bool" where
  "sl_is_empty l \<longleftrightarrow> sl_len l = 0"

definition sl_bytes_used :: "skip_list \<Rightarrow> nat" where
  "sl_bytes_used l = ar_bytes_used (sl_arena l)"

text \<open>\<^verbatim>\<open>random_height\<close>: xorshift32, then a level more for every multiple of \<open>BRANCH\<close>.\<close>

definition xorshift :: "u32 \<Rightarrow> u32" where
  "xorshift s =
     (let s = s XOR push_bit 13 s; s = s XOR drop_bit 17 s; s = s XOR push_bit 5 s in s)"

function height_loop :: "nat \<Rightarrow> u32 \<Rightarrow> nat" where
  "height_loop h s =
     (if h < MAX_HEIGHT \<and> s mod BRANCH = 0 then height_loop (h + 1) (s * 0x9E3779B9) else h)"
  by pat_completeness auto
termination
  by (relation "measure (\<lambda>(h, s). MAX_HEIGHT - h)") auto

declare height_loop.simps [simp del]

definition random_height :: "skip_list \<Rightarrow> skip_list \<times> nat" where
  "random_height l =
     (let s = xorshift (sl_rng_state l) in (l\<lparr>sl_rng_state := s\<rparr>, height_loop 1 s))"

definition u32_len :: "nat \<Rightarrow> string \<Rightarrow> unit result" where
  "u32_len n msg = (if n < 2 ^ 32 then Inr () else Inl (Panic msg))"

definition allocate_node ::
  "key \<Rightarrow> bytes \<Rightarrow> u64 \<Rightarrow> op_type \<Rightarrow> nat \<Rightarrow> skip_list \<Rightarrow> (skip_list \<times> nat) result" where
  "allocate_node key val seqno op height l =
     (let value' = (if op = OpPut then val else []);
          total = NODE_HEADER_SIZE + height * ATOMIC_PTR_SIZE + length key + length value'
      in and_then (allocate total 8 (sl_arena l)) (\<lambda>(a, _).
         and_then (u32_len (length key) ''key length must fit in u32'') (\<lambda>_.
         and_then (u32_len (length value') ''value length must fit in u32'') (\<lambda>_.
         let node = \<lparr>nd_height = height, nd_op_type = op, nd_key = key, nd_value = value',
                     nd_seqno = seqno, nd_forward = replicate height None\<rparr>
         in Inr (l\<lparr>sl_arena := a, sl_nodes := sl_nodes l @ [node]\<rparr>, length (sl_nodes l))))))"

text \<open>Whether the walk goes on to the node behind a forward pointer.\<close>

definition before :: "node list \<Rightarrow> key \<Rightarrow> u64 \<Rightarrow> nat option \<Rightarrow> bool" where
  "before nodes key seqno q =
     (case q of
        None \<Rightarrow> False
      | Some n \<Rightarrow> compare_internal_key (nd_key (nodes ! n)) (nd_seqno (nodes ! n)) key seqno = Less)"

partial_function (option) find_loop ::
  "node list \<Rightarrow> key \<Rightarrow> u64 \<Rightarrow> nat \<Rightarrow> nat \<Rightarrow> nat list \<Rightarrow> nat option list \<Rightarrow>
     (nat list \<times> nat option list) option" where
  "find_loop nodes key seqno level cur prev following =
     (let forward_link = forward nodes cur level in
      if before nodes key seqno forward_link then
        find_loop nodes key seqno level (the forward_link) prev following
      else
        let prev = prev[level := cur]; following = following[level := forward_link] in
        if level = 0 then Some (prev, following)
        else find_loop nodes key seqno (level - 1) cur prev following)"

definition find_predecessors ::
  "skip_list \<Rightarrow> key \<Rightarrow> u64 \<Rightarrow> nat list \<Rightarrow> nat option list \<Rightarrow> (nat list \<times> nat option list) option" where
  "find_predecessors l key seqno prev following =
     (let active = sl_max_height l;
          prev = take active prev @ replicate (MAX_HEIGHT - active) 0
      in if active = 0 then Some (prev, following)
         else find_loop (sl_nodes l) key seqno (active - 1) 0 prev following)"

text \<open>
  Linking one level: the new node's pointer first, then the publication in the predecessor.
\<close>

definition link_level :: "nat \<Rightarrow> nat list \<Rightarrow> nat option list \<Rightarrow> nat \<Rightarrow> node list \<Rightarrow> node list" where
  "link_level n prev following level nodes =
     set_forward (prev ! level) level (Some n) (set_forward n level (following ! level) nodes)"

definition does_not_return :: error where
  "does_not_return = Panic ''the loop does not return''"

text \<open>
  The insertion up to the linking: the node is allocated, its place found, and the height of
  the list raised; the levels above the old height are preceded by the head.
\<close>

definition sl_prepare ::
  "key \<Rightarrow> bytes \<Rightarrow> u64 \<Rightarrow> op_type \<Rightarrow> skip_list \<Rightarrow>
     (skip_list \<times> nat \<times> nat \<times> nat list \<times> nat option list) result" where
  "sl_prepare key val seqno op l =
     (let (l, height) = random_height l in
      and_then (allocate_node key val seqno op height l) (\<lambda>(l, n).
      and_then (ok_or (find_predecessors l key seqno (replicate MAX_HEIGHT 0)
                         (replicate MAX_HEIGHT None)) does_not_return) (\<lambda>(prev, following).
      let active_max = sl_max_height l;
          prev = (if active_max < height
                  then take active_max prev @ replicate (height - active_max) 0 @ drop height prev
                  else prev);
          l = (if active_max < height then l\<lparr>sl_max_height := height\<rparr> else l)
      in Inr (l, n, height, prev, following))))"

text \<open>The linking, bottom-up: one level after the other, level 0 first.\<close>

definition sl_insert ::
  "key \<Rightarrow> bytes \<Rightarrow> u64 \<Rightarrow> op_type \<Rightarrow> skip_list \<Rightarrow> (skip_list \<times> nat) result" where
  "sl_insert key val seqno op l =
     and_then (sl_prepare key val seqno op l) (\<lambda>(l, n, height, prev, following).
       Inr (l\<lparr>sl_nodes := fold (link_level n prev following) [0..<height] (sl_nodes l),
              sl_len := sl_len l + 1\<rparr>, n))"

partial_function (option) advance ::
  "node list \<Rightarrow> key \<Rightarrow> u64 \<Rightarrow> nat \<Rightarrow> nat \<Rightarrow> nat option" where
  "advance nodes key snapshot level cur =
     (let next_link = forward nodes cur level in
      if before nodes key snapshot next_link then advance nodes key snapshot level (the next_link)
      else Some cur)"

fun get_loop :: "node list \<Rightarrow> key \<Rightarrow> u64 \<Rightarrow> nat \<Rightarrow> nat \<Rightarrow> nat option" where
  "get_loop nodes key snapshot 0 cur = Some cur"
| "get_loop nodes key snapshot (Suc level) cur =
     Option.bind (advance nodes key snapshot level cur) (get_loop nodes key snapshot level)"

text \<open>The lookup, from a given top level, as the level is read before the walk.\<close>

definition get_from :: "nat \<Rightarrow> node list \<Rightarrow> key \<Rightarrow> u64 \<Rightarrow> nat option option" where
  "get_from lvl nodes key snapshot =
     Option.bind (get_loop nodes key snapshot lvl 0) (\<lambda>cur.
       Some (case forward nodes cur 0 of
               None \<Rightarrow> None
             | Some n \<Rightarrow>
                 if nd_key (nodes ! n) = key \<and> nd_seqno (nodes ! n) \<le> snapshot then Some n else None))"

definition sl_get :: "skip_list \<Rightarrow> key \<Rightarrow> u64 \<Rightarrow> nat option option" where
  "sl_get l key snapshot = get_from (sl_max_height l) (sl_nodes l) key snapshot"

text \<open>The iterator: all nodes on level 0.\<close>

partial_function (option) iter_from :: "node list \<Rightarrow> nat option \<Rightarrow> nat list option" where
  "iter_from nodes cur =
     (if cur = None then Some []
      else Option.bind (iter_from nodes (forward nodes (the cur) 0)) (\<lambda>rest. Some (the cur # rest)))"

definition sl_iter :: "skip_list \<Rightarrow> nat list option" where
  "sl_iter l = iter_from (sl_nodes l) (forward (sl_nodes l) 0 0)"

section \<open>Internal keys and entries\<close>

text \<open>Ascending user key, then descending sequence number, as a linear order on pairs.\<close>

definition ikey :: "key \<Rightarrow> u64 \<Rightarrow> key \<times> int" where
  "ikey k q = (k, - uint q)"

lemma ikey_less: "ikey k q < ikey k' q' \<longleftrightarrow> k < k' \<or> k = k' \<and> q' < q"
  by (auto simp: ikey_def word_less_def)

lemma ikey_le: "ikey k q \<le> ikey k' q' \<longleftrightarrow> k < k' \<or> k = k' \<and> q' \<le> q"
  by (auto simp: ikey_def word_le_def)

lemma compare_internal_key_Less: "compare_internal_key k q k' q' = Less \<longleftrightarrow> ikey k q < ikey k' q'"
  by (auto simp: compare_internal_key_def ikey_less split: ordering.splits)

record entry =
  en_key :: key
  en_seqno :: u64
  en_op :: op_type
  en_value :: bytes

definition entry_key :: "entry \<Rightarrow> key \<times> int" where
  "entry_key e = ikey (en_key e) (en_seqno e)"

definition node_entry :: "node \<Rightarrow> entry" where
  "node_entry n = \<lparr>en_key = nd_key n, en_seqno = nd_seqno n, en_op = nd_op_type n, en_value = nd_value n\<rparr>"

text \<open>
  The abstract memtable: a list of entries in internal-key order, insertion in front of the
  first entry that is not smaller, lookup of the first entry of the key that the snapshot
  sees.
\<close>

definition insert_entry :: "entry \<Rightarrow> entry list \<Rightarrow> entry list" where
  "insert_entry e es =
     takeWhile (\<lambda>x. entry_key x < entry_key e) es @ e # dropWhile (\<lambda>x. entry_key x < entry_key e) es"

definition lookup_entry :: "key \<Rightarrow> u64 \<Rightarrow> entry list \<Rightarrow> entry option" where
  "lookup_entry k snapshot es = find (\<lambda>e. en_key e = k \<and> en_seqno e \<le> snapshot) es"

abbreviation entries_sorted :: "entry list \<Rightarrow> bool" where
  "entries_sorted es \<equiv> sorted_wrt (\<le>) (map entry_key es)"

section \<open>Chains of forward pointers\<close>

fun chain :: "node list \<Rightarrow> nat \<Rightarrow> nat \<Rightarrow> nat list \<Rightarrow> bool" where
  "chain nodes l p [] \<longleftrightarrow> forward nodes p l = None"
| "chain nodes l p (q # qs) \<longleftrightarrow> forward nodes p l = Some q \<and> chain nodes l q qs"

definition hd_opt :: "'a list \<Rightarrow> 'a option" where
  "hd_opt xs = (case xs of [] \<Rightarrow> None | x # _ \<Rightarrow> Some x)"

lemma hd_opt_simps [simp]: "hd_opt [] = None" "hd_opt (x # xs) = Some x"
  by (simp_all add: hd_opt_def)

lemma chain_last: "chain nodes l p (xs @ ys) \<Longrightarrow> chain nodes l (last (p # xs)) ys"
  by (induction xs arbitrary: p) auto

lemma chain_suffix: "chain nodes l p (xs @ q # ys) \<Longrightarrow> chain nodes l q ys"
  by (induction xs arbitrary: p) auto

lemma chain_forward: "chain nodes l p xs \<Longrightarrow> forward nodes p l = hd_opt xs"
  by (cases xs) auto

lemma chain_cong:
  "(\<And>q. q \<in> set (p # xs) \<Longrightarrow> forward nodes' q l = forward nodes q l) \<Longrightarrow>
     chain nodes' l p xs = chain nodes l p xs"
  by (induction xs arbitrary: p) auto

lemma length_set_forward [simp]: "length (set_forward p l q nodes) = length nodes"
  by (simp add: set_forward_def)

lemma nth_set_forward:
  "set_forward p l q nodes ! i =
     (if i = p \<and> p < length nodes
      then (nodes ! p)\<lparr>nd_forward := (nd_forward (nodes ! p))[l := q]\<rparr> else nodes ! i)"
  unfolding set_forward_def by (cases "p < length nodes") (simp_all add: nth_list_update list_update_beyond)

lemma forward_set_forward:
  "p < length nodes \<Longrightarrow> l < length (nd_forward (nodes ! p)) \<Longrightarrow>
     forward (set_forward p l q nodes) p' l' = (if p' = p \<and> l' = l then q else forward nodes p' l')"
  by (simp add: forward_def nth_set_forward)

lemma set_forward_node [simp]:
  "nd_key (set_forward p l q nodes ! i) = nd_key (nodes ! i)"
  "nd_seqno (set_forward p l q nodes ! i) = nd_seqno (nodes ! i)"
  "nd_height (set_forward p l q nodes ! i) = nd_height (nodes ! i)"
  "node_entry (set_forward p l q nodes ! i) = node_entry (nodes ! i)"
  "length (nd_forward (set_forward p l q nodes ! i)) = length (nd_forward (nodes ! i))"
  by (simp_all add: nth_set_forward node_entry_def)

lemma chain_insert:
  assumes "chain nodes l p (xs @ ys)" "distinct (p # xs @ ys)" "n \<notin> set (p # xs @ ys)"
    and "last (p # xs) < length nodes" "l < length (nd_forward (nodes ! last (p # xs)))"
    and "n < length nodes" "l < length (nd_forward (nodes ! n))"
  shows "chain (set_forward (last (p # xs)) l (Some n) (set_forward n l (hd_opt ys) nodes)) l p (xs @ n # ys)"
proof -
  define m where "m = last (p # xs)"
  define N where "N = set_forward m l (Some n) (set_forward n l (hd_opt ys) nodes)"
  have "m \<in> set (p # xs)" unfolding m_def by (rule last_in_set) simp
  then have mn: "m \<noteq> n" and mys: "m \<notin> set ys" using assms(2,3) by auto
  have fw: "forward N q l = (if q = m then Some n else if q = n then hd_opt ys else forward nodes q l)" for q
    using assms(4,5) [folded m_def] assms(6,7) by (simp add: N_def forward_set_forward)
  have tail: "chain N l n ys"
  proof (cases ys)
    case (Cons y ys')
    have "chain nodes l y ys'" using chain_last [OF assms(1)] Cons by simp
    moreover have "forward N q l = forward nodes q l" if "q \<in> set (y # ys')" for q
      using that mys assms(3) Cons by (auto simp: fw)
    ultimately show ?thesis using mn Cons chain_cong [of y ys' N l nodes] by (simp add: fw)
  qed (use mn in \<open>simp add: fw\<close>)
  have "chain N l q (zs @ n # ys)" if "chain nodes l q (zs @ ys)" "last (q # zs) = m"
    "distinct (q # zs)" "n \<notin> set (q # zs)" for q zs
    using that
  proof (induction zs arbitrary: q)
    case (Cons z zs)
    have "last (z # zs) \<in> set (z # zs)" by (rule last_in_set) simp
    with Cons.prems(2,3) have "q \<noteq> m" by auto
    with Cons show ?case by (simp add: fw)
  qed (use tail in \<open>simp add: fw\<close>)
  then show ?thesis using assms(1,2,3) by (simp add: m_def N_def)
qed

section \<open>Well-formed lists\<close>

text \<open>
  \<open>ns\<close> are the nodes in order and \<open>vis i\<close> is the number of levels on which node \<open>i\<close> is linked:
  its height once its insertion is complete, less while it is being linked.  Level \<open>l\<close> chains
  exactly the nodes that are linked there, from the head on.
\<close>

definition wf_nodes :: "node list \<Rightarrow> (nat \<Rightarrow> nat) \<Rightarrow> nat list \<Rightarrow> bool" where
  "wf_nodes nodes vis ns \<longleftrightarrow>
     nodes \<noteq> [] \<and> length (nd_forward (nodes ! 0)) = MAX_HEIGHT \<and>
     distinct (0 # ns) \<and> set ns \<subseteq> {..<length nodes} \<and>
     (\<forall>i \<in> set ns. vis i \<le> length (nd_forward (nodes ! i))) \<and>
     (\<forall>l < MAX_HEIGHT. chain nodes l 0 (filter (\<lambda>i. l < vis i) ns)) \<and>
     sorted_wrt (\<le>) (map (\<lambda>i. entry_key (node_entry (nodes ! i))) ns)"

text \<open>The nodes in front of a search key, and the ones from it on.\<close>

definition in_front :: "node list \<Rightarrow> key \<Rightarrow> u64 \<Rightarrow> nat list \<Rightarrow> nat list" where
  "in_front nodes k q ns = takeWhile (\<lambda>i. before nodes k q (Some i)) ns"

definition from_on :: "node list \<Rightarrow> key \<Rightarrow> u64 \<Rightarrow> nat list \<Rightarrow> nat list" where
  "from_on nodes k q ns = dropWhile (\<lambda>i. before nodes k q (Some i)) ns"

lemma before_iff: "before nodes k q (Some i) \<longleftrightarrow> entry_key (node_entry (nodes ! i)) < ikey k q"
  by (simp add: before_def compare_internal_key_Less entry_key_def node_entry_def)

lemma in_front_from_on: "in_front nodes k q ns @ from_on nodes k q ns = ns"
  by (simp add: in_front_def from_on_def)

lemma in_front_before: "i \<in> set (in_front nodes k q ns) \<Longrightarrow> before nodes k q (Some i)"
  by (auto simp: in_front_def dest: set_takeWhileD)

lemma from_on_not_before:
  "wf_nodes nodes vis ns \<Longrightarrow> i \<in> set (from_on nodes k q ns) \<Longrightarrow> \<not> before nodes k q (Some i)"
proof -
  assume "wf_nodes nodes vis ns" and i: "i \<in> set (from_on nodes k q ns)"
  then have sorted: "sorted_wrt (\<le>) (map (\<lambda>i. entry_key (node_entry (nodes ! i))) (from_on nodes k q ns))"
    unfolding wf_nodes_def by (subst (asm) (4) in_front_from_on [symmetric, of _ nodes k q])
      (simp add: sorted_wrt_append)
  obtain j js where js: "from_on nodes k q ns = j # js" using i by (cases "from_on nodes k q ns") auto
  then have "\<not> before nodes k q (Some j)" by (metis dropWhile_eq_Cons_conv from_on_def)
  with sorted i js show ?thesis by (auto simp: before_iff)
qed

section \<open>The walks\<close>

lemma advance_chain:
  "chain nodes l p (xs @ ys) \<Longrightarrow> \<forall>x \<in> set xs. before nodes k q (Some x) \<Longrightarrow>
     \<forall>y \<in> set ys. \<not> before nodes k q (Some y) \<Longrightarrow> advance nodes k q l p = Some (last (p # xs))"
proof (induction xs arbitrary: p)
  case Nil
  then have "\<not> before nodes k q (forward nodes p l)"
    using chain_forward [of nodes l p ys] by (cases ys) (auto simp: before_def)
  then show ?case by (subst advance.simps) (simp add: Let_def)
next
  case (Cons x xs)
  then show ?case by (subst advance.simps) (simp add: Let_def)
qed

lemma find_loop_chain:
  "chain nodes l p (xs @ ys) \<Longrightarrow> \<forall>x \<in> set xs. before nodes k q (Some x) \<Longrightarrow>
     \<forall>y \<in> set ys. \<not> before nodes k q (Some y) \<Longrightarrow>
     find_loop nodes k q l p prev following =
       (if l = 0 then Some (prev[l := last (p # xs)], following[l := hd_opt ys])
        else find_loop nodes k q (l - 1) (last (p # xs)) (prev[l := last (p # xs)]) (following[l := hd_opt ys]))"
proof (induction xs arbitrary: p)
  case Nil
  then have "forward nodes p l = hd_opt ys" "\<not> before nodes k q (forward nodes p l)"
    using chain_forward [of nodes l p ys] by (cases ys; auto simp: before_def)+
  then show ?case by (subst find_loop.simps) (simp add: Let_def)
next
  case (Cons x xs)
  then show ?case by (subst find_loop.simps) (simp add: Let_def)
qed

text \<open>
  Where a walk may be when it starts on a level: at the head, or at a node in front of the
  search key that is linked on that level.  From there the rest of the level is reached.
\<close>

definition on_level :: "node list \<Rightarrow> (nat \<Rightarrow> nat) \<Rightarrow> key \<Rightarrow> u64 \<Rightarrow> nat list \<Rightarrow> nat \<Rightarrow> nat \<Rightarrow> bool" where
  "on_level nodes vis k q ns l p \<longleftrightarrow> p = 0 \<or> p \<in> set (in_front nodes k q ns) \<and> l < vis p"

abbreviation "front_at nodes vis k q ns l \<equiv> filter (\<lambda>i. l < vis i) (in_front nodes k q ns)"
abbreviation "rest_at nodes vis k q ns l \<equiv> filter (\<lambda>i. l < vis i) (from_on nodes k q ns)"

lemma wf_chain:
  "wf_nodes nodes vis ns \<Longrightarrow> l < MAX_HEIGHT \<Longrightarrow>
     chain nodes l 0 (front_at nodes vis k q ns l @ rest_at nodes vis k q ns l)"
  unfolding wf_nodes_def filter_append [symmetric] in_front_from_on by simp

lemma on_level_rest:
  assumes wf: "wf_nodes nodes vis ns" and l: "l < MAX_HEIGHT" and p: "on_level nodes vis k q ns l p"
  obtains xs where "chain nodes l p (xs @ rest_at nodes vis k q ns l)"
    "\<forall>x \<in> set xs. before nodes k q (Some x)" "last (p # xs) = last (0 # front_at nodes vis k q ns l)"
proof (cases "p = 0")
  case True
  have "\<forall>x \<in> set (front_at nodes vis k q ns l). before nodes k q (Some x)"
    by (auto dest: in_front_before)
  with wf_chain [OF wf l, of k q] True show thesis by (auto intro: that)
next
  case False
  then have "p \<in> set (front_at nodes vis k q ns l)" using p by (auto simp: on_level_def)
  then obtain us vs where f: "front_at nodes vis k q ns l = us @ p # vs" by (meson split_list)
  have "chain nodes l p (vs @ rest_at nodes vis k q ns l)"
    using wf_chain [OF wf l, of k q] unfolding f by (auto intro: chain_suffix)
  moreover have "\<forall>x \<in> set vs. before nodes k q (Some x)"
    using arg_cong [OF f, of set] by (auto dest: in_front_before)
  ultimately show thesis using that [of vs] unfolding f by simp
qed

lemma rest_not_before:
  "wf_nodes nodes vis ns \<Longrightarrow> \<forall>y \<in> set (rest_at nodes vis k q ns l). \<not> before nodes k q (Some y)"
  by (auto dest: from_on_not_before)

lemma on_level_last: "on_level nodes vis k q ns l (last (0 # front_at nodes vis k q ns l))"
proof (cases "front_at nodes vis k q ns l = []")
  case False
  then have "last (front_at nodes vis k q ns l) \<in> set (front_at nodes vis k q ns l)" by (rule last_in_set)
  with False show ?thesis by (simp add: on_level_def)
qed (simp add: on_level_def)

lemma on_level_down: "on_level nodes vis k q ns (Suc l) p \<Longrightarrow> on_level nodes vis k q ns l p"
  by (auto simp: on_level_def)

lemma get_loop_end:
  assumes wf: "wf_nodes nodes vis ns"
  shows "l \<le> MAX_HEIGHT \<Longrightarrow> 0 < l \<Longrightarrow> on_level nodes vis k q ns (l - 1) p \<Longrightarrow>
    get_loop nodes k q l p = Some (last (0 # front_at nodes vis k q ns 0))"
proof (induction l arbitrary: p)
  case (Suc l)
  then obtain xs where xs: "chain nodes l p (xs @ rest_at nodes vis k q ns l)"
    "\<forall>x \<in> set xs. before nodes k q (Some x)" "last (p # xs) = last (0 # front_at nodes vis k q ns l)"
    using on_level_rest [OF wf, of l k q p] by auto
  have adv: "advance nodes k q l p = Some (last (0 # front_at nodes vis k q ns l))"
    using advance_chain [OF xs(1,2) rest_not_before [OF wf]] xs(3) by simp
  show ?case
  proof (cases l)
    case (Suc m)
    have "on_level nodes vis k q ns m (last (0 # front_at nodes vis k q ns l))"
      using on_level_last [of nodes vis k q ns l] unfolding Suc by (rule on_level_down)
    then show ?thesis using adv Suc.IH Suc.prems Suc by simp
  qed (use adv in simp)
qed simp

text \<open>The entries a reader can reach: those linked on level 0.\<close>

definition visible :: "node list \<Rightarrow> (nat \<Rightarrow> nat) \<Rightarrow> nat list \<Rightarrow> entry list" where
  "visible nodes vis ns = map (\<lambda>i. node_entry (nodes ! i)) (filter (\<lambda>i. 0 < vis i) ns)"

lemma lookup_entry_split:
  assumes "entries_sorted (fs @ rs)" "\<forall>e \<in> set fs. entry_key e < ikey k q"
    "\<forall>e \<in> set rs. \<not> entry_key e < ikey k q"
  shows "lookup_entry k q (fs @ rs) =
    (case rs of [] \<Rightarrow> None | e # _ \<Rightarrow> if en_key e = k \<and> en_seqno e \<le> q then Some e else None)"
proof -
  have front: "\<not> (en_key e = k \<and> en_seqno e \<le> q)" if "e \<in> set fs" for e
    using assms(2) that by (auto simp: entry_key_def ikey_less)
  have rest: "find (\<lambda>e. en_key e = k \<and> en_seqno e \<le> q) es = None"
    if "rs = e # es" "\<not> (en_key e = k \<and> en_seqno e \<le> q)" for e es
  proof -
    have "k < en_key e" using assms(3) that by (auto simp: entry_key_def ikey_less not_less_iff_gr_or_eq)
    moreover have "en_key e \<le> en_key x" if "x \<in> set es" for x
      using assms(1) that \<open>rs = e # es\<close> by (auto simp: entry_key_def ikey_le sorted_wrt_append)
    ultimately show ?thesis by (force simp: find_None_iff)
  qed
  have "find (\<lambda>e. en_key e = k \<and> en_seqno e \<le> q) (fs @ rs) = find (\<lambda>e. en_key e = k \<and> en_seqno e \<le> q) rs"
    using front by (induction fs) auto
  then show ?thesis using rest by (cases rs) (auto simp: lookup_entry_def)
qed

lemma sorted_filter_map:
  "sorted_wrt R (map f xs) \<Longrightarrow> sorted_wrt R (map f (filter P xs))"
  by (induction xs) auto

lemma visible_sorted: "wf_nodes nodes vis ns \<Longrightarrow> entries_sorted (visible nodes vis ns)"
  unfolding wf_nodes_def visible_def by (simp add: comp_def sorted_filter_map)

lemma visible_split:
  "visible nodes vis ns = map (\<lambda>i. node_entry (nodes ! i)) (front_at nodes vis k q ns 0) @
     map (\<lambda>i. node_entry (nodes ! i)) (rest_at nodes vis k q ns 0)"
  unfolding visible_def map_append [symmetric] filter_append [symmetric] in_front_from_on by simp

lemma get_from_lookup:
  assumes wf: "wf_nodes nodes vis ns" and l: "0 < l" "l \<le> MAX_HEIGHT"
  shows "\<exists>r. get_from l nodes k q = Some r \<and>
    map_option (\<lambda>i. node_entry (nodes ! i)) r = lookup_entry k q (visible nodes vis ns)"
proof -
  let ?p = "last (0 # front_at nodes vis k q ns 0)"
  have "get_loop nodes k q l 0 = Some ?p"
    using get_loop_end [OF wf l(2,1)] by (simp add: on_level_def)
  moreover have "forward nodes ?p 0 = hd_opt (rest_at nodes vis k q ns 0)"
    by (intro chain_forward chain_last wf_chain [OF wf]) (simp add: MAX_HEIGHT_def)
  ultimately have g: "get_from l nodes k q = Some (case rest_at nodes vis k q ns 0 of [] \<Rightarrow> None
      | n # _ \<Rightarrow> if nd_key (nodes ! n) = k \<and> nd_seqno (nodes ! n) \<le> q then Some n else None)"
    by (simp add: get_from_def hd_opt_def split: list.split)
  have "lookup_entry k q (visible nodes vis ns) =
    (case map (\<lambda>i. node_entry (nodes ! i)) (rest_at nodes vis k q ns 0) of [] \<Rightarrow> None
      | e # _ \<Rightarrow> if en_key e = k \<and> en_seqno e \<le> q then Some e else None)"
    unfolding visible_split [of nodes vis ns k q]
  proof (rule lookup_entry_split)
    show "entries_sorted (map (\<lambda>i. node_entry (nodes ! i)) (front_at nodes vis k q ns 0) @
        map (\<lambda>i. node_entry (nodes ! i)) (rest_at nodes vis k q ns 0))"
      using visible_sorted [OF wf] by (simp only: visible_split [of nodes vis ns k q])
  qed (auto simp flip: before_iff dest: in_front_before from_on_not_before [OF wf])
  then show ?thesis unfolding g by (auto simp: node_entry_def split: list.split)
qed

text \<open>The search for predecessors finds, on every level, the last node in front of the key
  and the first one from it on.\<close>

lemma find_loop_end:
  assumes wf: "wf_nodes nodes vis ns"
  shows "l < MAX_HEIGHT \<Longrightarrow> length prev = MAX_HEIGHT \<Longrightarrow> length following = MAX_HEIGHT \<Longrightarrow>
    on_level nodes vis k q ns l p \<Longrightarrow>
    \<exists>prev' following'. find_loop nodes k q l p prev following = Some (prev', following') \<and>
      length prev' = MAX_HEIGHT \<and> length following' = MAX_HEIGHT \<and>
      (\<forall>j < MAX_HEIGHT. prev' ! j = (if j \<le> l then last (0 # front_at nodes vis k q ns j) else prev ! j)) \<and>
      (\<forall>j < MAX_HEIGHT. following' ! j = (if j \<le> l then hd_opt (rest_at nodes vis k q ns j) else following ! j))"
proof (induction l arbitrary: p prev following)
  case 0
  then obtain xs where xs: "chain nodes 0 p (xs @ rest_at nodes vis k q ns 0)"
    "\<forall>x \<in> set xs. before nodes k q (Some x)" "last (p # xs) = last (0 # front_at nodes vis k q ns 0)"
    using on_level_rest [OF wf] by blast
  show ?case
    using find_loop_chain [OF xs(1,2) rest_not_before [OF wf]] xs(3) 0 by (auto simp: nth_list_update)
next
  case (Suc l)
  then obtain xs where xs: "chain nodes (Suc l) p (xs @ rest_at nodes vis k q ns (Suc l))"
    "\<forall>x \<in> set xs. before nodes k q (Some x)" "last (p # xs) = last (0 # front_at nodes vis k q ns (Suc l))"
    using on_level_rest [OF wf] by blast
  let ?p = "last (0 # front_at nodes vis k q ns (Suc l))"
  have step: "find_loop nodes k q (Suc l) p prev following =
      find_loop nodes k q l ?p (prev[Suc l := ?p]) (following[Suc l := hd_opt (rest_at nodes vis k q ns (Suc l))])"
    using find_loop_chain [OF xs(1,2) rest_not_before [OF wf]] xs(3) by (simp del: last.simps)
  have "on_level nodes vis k q ns l ?p" by (rule on_level_down [OF on_level_last])
  from Suc.IH [OF _ _ _ this, of "prev[Suc l := ?p]" "following[Suc l := hd_opt (rest_at nodes vis k q ns (Suc l))]"]
  show ?case unfolding step using Suc.prems
    by (auto simp: nth_list_update le_Suc_eq simp del: last.simps)
qed

section \<open>Insertion\<close>

lemma wf_nodesD:
  assumes "wf_nodes nodes vis ns"
  shows "nodes \<noteq> []" "length (nd_forward (nodes ! 0)) = MAX_HEIGHT" "distinct (0 # ns)"
    "i \<in> set ns \<Longrightarrow> i < length nodes" "i \<in> set ns \<Longrightarrow> vis i \<le> length (nd_forward (nodes ! i))"
    "l < MAX_HEIGHT \<Longrightarrow> chain nodes l 0 (filter (\<lambda>i. l < vis i) ns)"
    "sorted_wrt (\<le>) (map (\<lambda>i. entry_key (node_entry (nodes ! i))) ns)"
  using assms by (auto simp: wf_nodes_def)

lemma last_front_bounds:
  assumes "wf_nodes nodes vis ns" "set xs \<subseteq> set ns" "\<forall>x \<in> set xs. l < vis x" "l < MAX_HEIGHT"
  shows "last (0 # xs) < length nodes" "l < length (nd_forward (nodes ! last (0 # xs)))"
proof -
  have "last (0 # xs) = 0 \<or> last (0 # xs) \<in> set xs" by (cases xs rule: rev_cases) auto
  then show "last (0 # xs) < length nodes" "l < length (nd_forward (nodes ! last (0 # xs)))"
    using assms wf_nodesD(1,2) [OF assms(1)] wf_nodesD(4,5) [OF assms(1), of "last (0 # xs)"]
    by (auto simp del: last.simps intro: less_le_trans)
qed

lemma link_level_node [simp]:
  "length (link_level n prev following j nodes) = length nodes"
  "node_entry (link_level n prev following j nodes ! i) = node_entry (nodes ! i)"
  "nd_height (link_level n prev following j nodes ! i) = nd_height (nodes ! i)"
  "length (nd_forward (link_level n prev following j nodes ! i)) = length (nd_forward (nodes ! i))"
  by (simp_all add: link_level_def)

lemma link_step:
  assumes wf: "wf_nodes nodes (vis(n := j)) (A @ n # B)"
    and j: "j < MAX_HEIGHT" "j < length (nd_forward (nodes ! n))"
    and prev: "prev ! j = last (0 # filter (\<lambda>i. j < vis i) A)"
    and following: "following ! j = hd_opt (filter (\<lambda>i. j < vis i) B)"
  shows "wf_nodes (link_level n prev following j nodes) (vis(n := Suc j)) (A @ n # B)"
proof -
  let ?A = "filter (\<lambda>i. j < vis i) A" and ?B = "filter (\<lambda>i. j < vis i) B"
  let ?p = "last (0 # ?A)" and ?N = "link_level n prev following j nodes"
  have dist: "distinct (0 # A @ n # B)" by (rule wf_nodesD(3) [OF wf])
  have filt: "filter (\<lambda>i. l < (vis(n := m)) i) (A @ n # B) =
      filter (\<lambda>i. l < vis i) A @ (if l < m then [n] else []) @ filter (\<lambda>i. l < vis i) B" for l m
  proof -
    have "filter (\<lambda>i. l < (vis(n := m)) i) A = filter (\<lambda>i. l < vis i) A"
      "filter (\<lambda>i. l < (vis(n := m)) i) B = filter (\<lambda>i. l < vis i) B"
      by (rule filter_cong; use dist in auto)+
    then show ?thesis by simp
  qed
  have n: "n < length nodes" using wf_nodesD(4) [OF wf, of n] by simp
  have p: "?p < length nodes" "j < length (nd_forward (nodes ! ?p))"
    by (rule last_front_bounds [OF wf]; use dist j in auto)+
  have N: "?N = set_forward ?p j (Some n) (set_forward n j (hd_opt ?B) nodes)"
    by (simp only: link_level_def prev following)
  have other: "chain ?N l 0 xs = chain nodes l 0 xs" if "l \<noteq> j" for l xs
    unfolding N using that n p j by (intro chain_cong) (simp add: forward_set_forward del: last.simps)
  have "chain ?N l 0 (filter (\<lambda>i. l < (vis(n := Suc j)) i) (A @ n # B))" if "l < MAX_HEIGHT" for l
  proof (cases "l = j")
    case True
    have "chain nodes j 0 (?A @ ?B)" using wf_nodesD(6) [OF wf j(1)] unfolding filt by simp
    then have "chain ?N j 0 (?A @ n # ?B)"
      unfolding N using dist n p j by (intro chain_insert) auto
    then show ?thesis unfolding True filt by simp
  next
    case False
    then show ?thesis using wf_nodesD(6) [OF wf that] unfolding filt other [OF False]
      by (cases "l < j") (simp_all add: less_Suc_eq)
  qed
  moreover have "(vis(n := Suc j)) i \<le> length (nd_forward (?N ! i))" if "i \<in> set (A @ n # B)" for i
    using wf_nodesD(5) [OF wf that] j(2) by (cases "i = n") simp_all
  moreover have "?N \<noteq> []"
    using wf_nodesD(1) [OF wf] by (simp flip: length_greater_0_conv)
  ultimately show ?thesis
    using wf_nodesD(2-4,7) [OF wf] unfolding wf_nodes_def
    by (auto simp del: filter.simps filter_append fun_upd_apply)
qed

lemma link_all:
  assumes wf: "wf_nodes nodes (vis(n := 0)) (A @ n # B)"
    and h: "h \<le> MAX_HEIGHT" "h = length (nd_forward (nodes ! n))"
    and prev: "\<forall>j < h. prev ! j = last (0 # filter (\<lambda>i. j < vis i) A)"
    and following: "\<forall>j < h. following ! j = hd_opt (filter (\<lambda>i. j < vis i) B)"
  shows "m \<le> h \<Longrightarrow> wf_nodes (fold (link_level n prev following) [0..<m] nodes) (vis(n := m)) (A @ n # B) \<and>
    length (fold (link_level n prev following) [0..<m] nodes) = length nodes \<and>
    (\<forall>i. node_entry (fold (link_level n prev following) [0..<m] nodes ! i) = node_entry (nodes ! i) \<and>
      nd_height (fold (link_level n prev following) [0..<m] nodes ! i) = nd_height (nodes ! i) \<and>
      length (nd_forward (fold (link_level n prev following) [0..<m] nodes ! i)) = length (nd_forward (nodes ! i)))"
proof (induction m)
  case (Suc m)
  let ?M = "fold (link_level n prev following) [0..<m] nodes"
  have IH: "wf_nodes ?M (vis(n := m)) (A @ n # B)" "length ?M = length nodes"
    "\<And>i. node_entry (?M ! i) = node_entry (nodes ! i)" "\<And>i. nd_height (?M ! i) = nd_height (nodes ! i)"
    "\<And>i. length (nd_forward (?M ! i)) = length (nd_forward (nodes ! i))"
    using Suc.IH [OF Suc_leD [OF Suc.prems]] by blast+
  have "wf_nodes (link_level n prev following m ?M) (vis(n := Suc m)) (A @ n # B)"
    using Suc.prems h prev following IH(5) by (intro link_step [OF IH(1)]) auto
  moreover have "fold (link_level n prev following) [0..<Suc m] nodes = link_level n prev following m ?M"
    by simp
  ultimately show ?case using IH(2-5) by (metis link_level_node)
qed (use wf in simp)

section \<open>The invariant and the refinement\<close>

text \<open>
  Between operations every node but the head is linked on all its levels, and no node is
  higher than \<^verbatim>\<open>max_height\<close>.
\<close>

definition sl_inv :: "skip_list \<Rightarrow> nat list \<Rightarrow> bool" where
  "sl_inv l ns \<longleftrightarrow>
     wf_nodes (sl_nodes l) (\<lambda>i. nd_height (sl_nodes l ! i)) ns \<and> set ns = {1..<length (sl_nodes l)} \<and>
     (\<forall>i \<in> set ns. 0 < nd_height (sl_nodes l ! i) \<and> nd_height (sl_nodes l ! i) \<le> sl_max_height l) \<and>
     0 < sl_max_height l \<and> sl_max_height l \<le> MAX_HEIGHT \<and> sl_len l = length ns"

definition entries_of :: "node list \<Rightarrow> nat list \<Rightarrow> entry list" where
  "entries_of nodes ns = map (\<lambda>i. node_entry (nodes ! i)) ns"

lemma height_loop_bounds: "h \<le> MAX_HEIGHT \<Longrightarrow> h \<le> height_loop h s \<and> height_loop h s \<le> MAX_HEIGHT"
proof (induction h s rule: height_loop.induct)
  case (1 h s)
  then show ?case
    by (cases "h < MAX_HEIGHT \<and> s mod BRANCH = 0") (subst (1 2) height_loop.simps, force)+
qed

lemma wf_nodes_cong:
  "(\<And>i. i \<in> set ns \<Longrightarrow> vis i = vis' i) \<Longrightarrow> wf_nodes nodes vis ns = wf_nodes nodes vis' ns"
proof -
  assume eq: "\<And>i. i \<in> set ns \<Longrightarrow> vis i = vis' i"
  then have "filter (\<lambda>i. l < vis i) ns = filter (\<lambda>i. l < vis' i) ns" for l
    by (intro filter_cong) auto
  then show ?thesis using eq by (simp add: wf_nodes_def)
qed

lemma forward_snoc [simp]: "p < length nodes \<Longrightarrow> forward (nodes @ [x]) p l = forward nodes p l"
  by (simp add: forward_def nth_append)

lemma wf_nodes_snoc:
  assumes "wf_nodes nodes vis ns"
  shows "wf_nodes (nodes @ [x]) vis ns"
proof -
  have ns: "i < length nodes" if "i \<in> set (0 # ns)" for i
    using that wf_nodesD(1,4) [OF assms] by auto
  have "chain (nodes @ [x]) l 0 (filter (\<lambda>i. l < vis i) ns) = chain nodes l 0 (filter (\<lambda>i. l < vis i) ns)" for l
    by (intro chain_cong forward_snoc ns) auto
  moreover have "sorted_wrt (\<le>) (map (\<lambda>i. entry_key (node_entry ((nodes @ [x]) ! i))) ns)"
  proof -
    have "map (\<lambda>i. entry_key (node_entry ((nodes @ [x]) ! i))) ns = map (\<lambda>i. entry_key (node_entry (nodes ! i))) ns"
      using ns by (intro map_cong) (simp_all add: nth_append)
    then show ?thesis using wf_nodesD(7) [OF assms] by (simp only:)
  qed
  moreover have "vis i \<le> length (nd_forward ((nodes @ [x]) ! i))" if "i \<in> set ns" for i
    using that ns wf_nodesD(5) [OF assms that] by (simp add: nth_append)
  moreover have "set ns \<subseteq> {..<length (nodes @ [x])}" using ns by force
  moreover have "(nodes @ [x]) ! 0 = nodes ! 0" using wf_nodesD(1) [OF assms] by (simp add: nth_append)
  ultimately show ?thesis using wf_nodesD(2,3,6) [OF assms] unfolding wf_nodes_def by simp
qed

text \<open>A node that is allocated and not linked yet has its place in the order already.\<close>

lemma wf_nodes_place:
  assumes wf: "wf_nodes nodes vis ns" and n: "n < length nodes" "n \<noteq> 0" "n \<notin> set ns"
    and k: "nd_key (nodes ! n) = k" "nd_seqno (nodes ! n) = q"
  shows "wf_nodes nodes (vis(n := 0)) (in_front nodes k q ns @ n # from_on nodes k q ns)"
proof -
  let ?A = "in_front nodes k q ns" and ?B = "from_on nodes k q ns"
  have AB: "?A @ ?B = ns" by (rule in_front_from_on)
  then have set_ns: "set ns = set ?A \<union> set ?B" by (metis set_append)
  have "filter (\<lambda>i. l < (vis(n := 0)) i) (?A @ n # ?B) = filter (\<lambda>i. l < vis i) ns" for l
  proof -
    have "filter (\<lambda>i. l < (vis(n := 0)) i) (?A @ n # ?B) = filter (\<lambda>i. l < (vis(n := 0)) i) (?A @ ?B)" by simp
    also have "\<dots> = filter (\<lambda>i. l < vis i) ns" unfolding AB using n(3) by (intro filter_cong) auto
    finally show ?thesis .
  qed
  moreover have "sorted_wrt (\<le>) (map (\<lambda>i. entry_key (node_entry (nodes ! i))) (?A @ n # ?B))"
  proof -
    have key: "entry_key (node_entry (nodes ! n)) = ikey k q" using k by (simp add: entry_key_def node_entry_def)
    have "sorted_wrt (\<le>) (map (\<lambda>i. entry_key (node_entry (nodes ! i))) (?A @ ?B))"
      unfolding AB by (rule wf_nodesD(7) [OF wf])
    moreover have "\<forall>i \<in> set ?A. entry_key (node_entry (nodes ! i)) \<le> ikey k q"
      using in_front_before before_iff by (metis less_imp_le)
    moreover have "\<forall>i \<in> set ?B. ikey k q \<le> entry_key (node_entry (nodes ! i))"
      using from_on_not_before [OF wf] before_iff by (metis not_less)
    ultimately show ?thesis by (auto simp: sorted_wrt_append key intro: order_trans)
  qed
  moreover have "distinct (0 # ?A @ n # ?B)"
  proof -
    have "distinct (0 # ?A @ ?B)" unfolding AB by (rule wf_nodesD(3) [OF wf])
    then show ?thesis using n(2,3) set_ns by auto
  qed
  ultimately show ?thesis
    using wf_nodesD(1,2,4,5,6) [OF wf] n set_ns by (auto simp: wf_nodes_def simp del: filter_append filter.simps)
qed

lemma is_power_of_two_8: "is_power_of_two 8"
  by (simp add: is_power_of_two.simps)

lemma skip_list_new_inv: "\<exists>l. skip_list_new = Inr l \<and> sl_inv l []"
proof -
  obtain a p where a: "allocate (NODE_HEADER_SIZE + MAX_HEIGHT * ATOMIC_PTR_SIZE) 8 arena_new = Inr (a, p)"
    using allocate_total [of 8] by (metis is_power_of_two_8)
  then show ?thesis
    by (simp add: skip_list_new_def build_head_def sl_inv_def wf_nodes_def forward_def MAX_HEIGHT_def nth_Cons')
qed

lemma find_predecessors_end:
  assumes wf: "wf_nodes (sl_nodes l) vis ns" and h: "0 < sl_max_height l" "sl_max_height l \<le> MAX_HEIGHT"
    and vis: "\<forall>i \<in> set ns. vis i \<le> sl_max_height l"
  shows "\<exists>prev following. find_predecessors l k q (replicate MAX_HEIGHT 0) (replicate MAX_HEIGHT None) =
      Some (prev, following) \<and> length prev = MAX_HEIGHT \<and>
      (\<forall>j < MAX_HEIGHT. sl_max_height l \<le> j \<longrightarrow> prev ! j = 0) \<and>
      (\<forall>j < MAX_HEIGHT. prev ! j = last (0 # front_at (sl_nodes l) vis k q ns j)) \<and>
      (\<forall>j < MAX_HEIGHT. following ! j = hd_opt (rest_at (sl_nodes l) vis k q ns j))"
proof -
  let ?a = "sl_max_height l"
  have high: "filter (\<lambda>i. j < vis i) (in_front (sl_nodes l) k q ns) = []"
    "filter (\<lambda>i. j < vis i) (from_on (sl_nodes l) k q ns) = []" if "?a \<le> j" for j
  proof -
    have "set ns = set (in_front (sl_nodes l) k q ns) \<union> set (from_on (sl_nodes l) k q ns)"
      unfolding set_append [symmetric] in_front_from_on ..
    moreover have "\<not> j < vis i" if "i \<in> set ns" for i
      using vis that \<open>?a \<le> j\<close> by (meson le_trans not_less)
    ultimately show "filter (\<lambda>i. j < vis i) (in_front (sl_nodes l) k q ns) = []"
      "filter (\<lambda>i. j < vis i) (from_on (sl_nodes l) k q ns) = []"
      by (simp_all add: filter_empty_conv)
  qed
  have "find_predecessors l k q (replicate MAX_HEIGHT 0) (replicate MAX_HEIGHT None) =
      find_loop (sl_nodes l) k q (?a - 1) 0 (replicate MAX_HEIGHT 0) (replicate MAX_HEIGHT None)"
    using h by (simp add: find_predecessors_def Let_def flip: replicate_add)
  moreover have lt: "?a - 1 < MAX_HEIGHT" using h by simp
  have on: "on_level (sl_nodes l) vis k q ns (?a - 1) 0" by (simp add: on_level_def)
  obtain prev following where found:
    "find_loop (sl_nodes l) k q (?a - 1) 0 (replicate MAX_HEIGHT 0) (replicate MAX_HEIGHT None) = Some (prev, following)"
    "length prev = MAX_HEIGHT"
    "\<forall>j < MAX_HEIGHT. prev ! j = (if j \<le> ?a - 1 then last (0 # front_at (sl_nodes l) vis k q ns j)
       else replicate MAX_HEIGHT 0 ! j)"
    "\<forall>j < MAX_HEIGHT. following ! j = (if j \<le> ?a - 1 then hd_opt (rest_at (sl_nodes l) vis k q ns j)
       else replicate MAX_HEIGHT None ! j)"
    using find_loop_end [OF wf lt length_replicate [of MAX_HEIGHT 0] length_replicate [of MAX_HEIGHT None] on]
    by (elim exE conjE) (rule that)
  have all: "prev ! j = last (0 # front_at (sl_nodes l) vis k q ns j) \<and>
    following ! j = hd_opt (rest_at (sl_nodes l) vis k q ns j)" if "j < MAX_HEIGHT" for j
  proof (cases "?a \<le> j")
    case True
    then have "\<not> j \<le> ?a - 1" using h(1) by linarith
    then show ?thesis using found(3,4) that high [OF True] by simp
  next
    case False
    then have "j \<le> ?a - 1" by linarith
    then show ?thesis using found(3,4) that by simp
  qed
  moreover have "prev ! j = 0" if "j < MAX_HEIGHT" "?a \<le> j" for j
    using all [OF that(1)] high(1) [OF that(2)] by simp
  ultimately show ?thesis using found(1,2) by auto
qed

lemma allocate_node_ok:
  assumes "length k < 2 ^ 32" "op = OpPut \<Longrightarrow> length v < 2 ^ 32"
  obtains a where "allocate_node k v q op h l =
    Inr (l\<lparr>sl_arena := a, sl_nodes := sl_nodes l @ [\<lparr>nd_height = h, nd_op_type = op, nd_key = k,
       nd_value = if op = OpPut then v else [], nd_seqno = q, nd_forward = replicate h None\<rparr>]\<rparr>,
     length (sl_nodes l))"
proof -
  obtain a p where "allocate (NODE_HEADER_SIZE + h * ATOMIC_PTR_SIZE + length k +
      length (if op = OpPut then v else [])) 8 (sl_arena l) = Inr (a, p)"
    using allocate_total [OF is_power_of_two_8] by blast
  with assms show thesis by (intro that [of a]) (simp add: allocate_node_def Let_def u32_len_def)
qed

lemma restore_prev:
  "length prev = MAX_HEIGHT \<Longrightarrow> h \<le> MAX_HEIGHT \<Longrightarrow> \<forall>j < MAX_HEIGHT. a \<le> j \<longrightarrow> prev ! j = 0 \<Longrightarrow>
     (if a < h then take a prev @ replicate (h - a) 0 @ drop h prev else prev) = prev"
  by (auto intro!: nth_equalityI simp: nth_append)

text \<open>The place of the new entry in the abstract list.\<close>

lemma entries_of_insert:
  assumes "wf_nodes N vis ns" "entry_key e = ikey k q" "node_entry (N ! n) = e"
    and "\<forall>i. node_entry (M ! i) = node_entry (N ! i)"
  shows "entries_of M (in_front N k q ns @ n # from_on N k q ns) = insert_entry e (entries_of N ns)"
proof -
  have "in_front N k q ns = takeWhile (\<lambda>i. entry_key (node_entry (N ! i)) < entry_key e) ns"
    "from_on N k q ns = dropWhile (\<lambda>i. entry_key (node_entry (N ! i)) < entry_key e) ns"
    by (simp_all add: in_front_def from_on_def before_iff assms(2))
  then show ?thesis using assms(3,4)
    by (simp add: entries_of_def insert_entry_def takeWhile_map dropWhile_map comp_def)
qed

definition new_node :: "key \<Rightarrow> bytes \<Rightarrow> u64 \<Rightarrow> op_type \<Rightarrow> nat \<Rightarrow> node" where
  "new_node k v q op h = \<lparr>nd_height = h, nd_op_type = op, nd_key = k,
     nd_value = if op = OpPut then v else [], nd_seqno = q, nd_forward = replicate h None\<rparr>"

definition entry_fits :: "key \<Rightarrow> bytes \<Rightarrow> op_type \<Rightarrow> bool" where
  "entry_fits k v op \<longleftrightarrow> length k < 2 ^ 32 \<and> (op = OpPut \<longrightarrow> length v < 2 ^ 32)"

definition entry_for :: "key \<Rightarrow> bytes \<Rightarrow> u64 \<Rightarrow> op_type \<Rightarrow> entry" where
  "entry_for k v q op = \<lparr>en_key = k, en_seqno = q, en_op = op, en_value = if op = OpPut then v else []\<rparr>"

lemma entry_for_key [simp]: "entry_key (entry_for k v q op) = ikey k q"
  by (simp add: entry_for_def entry_key_def)

lemma new_node_sel [simp]: "nd_key (new_node k v q op h) = k" "nd_seqno (new_node k v q op h) = q"
  "nd_height (new_node k v q op h) = h" "length (nd_forward (new_node k v q op h)) = h"
  "node_entry (new_node k v q op h) = entry_for k v q op"
  by (simp_all add: new_node_def node_entry_def entry_for_def)

lemma sl_prepare_ok:
  assumes inv: "sl_inv l ns" and fits: "entry_fits k v op"
  obtains l1 h prev following where
    "sl_prepare k v q op l = Inr (l1, length (sl_nodes l), h, prev, following)" "0 < h" "h \<le> MAX_HEIGHT"
    "sl_len l1 = sl_len l" "sl_max_height l1 = max (sl_max_height l) h"
    "sl_nodes l1 = sl_nodes l @ [new_node k v q op h]"
    "\<forall>j < h. prev ! j = last (0 # front_at (sl_nodes l1) (\<lambda>i. nd_height (sl_nodes l ! i)) k q ns j)"
    "\<forall>j < h. following ! j = hd_opt (rest_at (sl_nodes l1) (\<lambda>i. nd_height (sl_nodes l ! i)) k q ns j)"
proof -
  define h where "h = height_loop 1 (xorshift (sl_rng_state l))"
  have h: "0 < h" "h \<le> MAX_HEIGHT" 
    using height_loop_bounds [of 1 "xorshift (sl_rng_state l)"] by (simp_all add: h_def MAX_HEIGHT_def)
  define vis where "vis = (\<lambda>i. nd_height (sl_nodes l ! i))"
  define l0 where "l0 = l\<lparr>sl_rng_state := xorshift (sl_rng_state l)\<rparr>"
  define N where "N = sl_nodes l @ [new_node k v q op h]"
  obtain a where alloc: "allocate_node k v q op h l0 = Inr (l0\<lparr>sl_arena := a, sl_nodes := N\<rparr>, length (sl_nodes l))"
    using allocate_node_ok [where k = k and v = v and op = op and q = q and h = h and l = l0] fits
    by (auto simp: l0_def N_def new_node_def entry_fits_def)
  define l1 where "l1 = l0\<lparr>sl_arena := a, sl_nodes := N\<rparr>"
  have l1: "sl_nodes l1 = N" "sl_max_height l1 = sl_max_height l" "sl_len l1 = sl_len l"
    by (simp_all add: l1_def l0_def)
  have wf1: "wf_nodes N vis ns" and vis: "\<forall>i \<in> set ns. vis i \<le> sl_max_height l"
    and mh: "0 < sl_max_height l" "sl_max_height l \<le> MAX_HEIGHT"
    using inv wf_nodes_snoc [of "sl_nodes l" vis ns] by (simp_all add: sl_inv_def vis_def N_def)
  obtain prev following where fp: "find_predecessors l1 k q (replicate MAX_HEIGHT 0) (replicate MAX_HEIGHT None) =
      Some (prev, following)" "length prev = MAX_HEIGHT" "\<forall>j < MAX_HEIGHT. sl_max_height l \<le> j \<longrightarrow> prev ! j = 0"
      "\<forall>j < MAX_HEIGHT. prev ! j = last (0 # front_at N vis k q ns j)"
      "\<forall>j < MAX_HEIGHT. following ! j = hd_opt (rest_at N vis k q ns j)"
    using find_predecessors_end [of l1 vis ns k q] wf1 mh vis unfolding l1 by auto
  define l2 where "l2 = (if sl_max_height l < h then l1\<lparr>sl_max_height := h\<rparr> else l1)"
  have rh: "random_height l = (l0, h)" by (simp add: random_height_def Let_def h_def l0_def)
  have "sl_prepare k v q op l = Inr (l2, length (sl_nodes l), h, prev, following)"
    unfolding sl_prepare_def rh alloc l1_def [symmetric] Let_def prod.case and_then_simps fp(1) ok_or_simps
    unfolding l1 restore_prev [OF fp(2) h(2) fp(3)] l2_def ..
  moreover have "sl_nodes l2 = N" "sl_len l2 = sl_len l" "sl_max_height l2 = max (sl_max_height l) h"
    by (auto simp: l2_def l1)
  ultimately show thesis using fp(4,5) h by (intro that [of l2 h prev following]) (simp_all add: N_def vis_def)
qed

text \<open>
  The list at every point of the linking: after \<open>m\<close> levels the new node is on the levels
  below \<open>m\<close>, and every level is a chain in the order of the keys.
\<close>

lemma sl_linking:
  assumes inv: "sl_inv l ns" and N: "N = sl_nodes l @ [new_node k v q op h]" and h: "h \<le> MAX_HEIGHT" "m \<le> h"
    and vis: "vis = (\<lambda>i. nd_height (sl_nodes l ! i))" and n: "n = length (sl_nodes l)"
    and prev: "\<forall>j < h. prev ! j = last (0 # front_at N vis k q ns j)"
    and following: "\<forall>j < h. following ! j = hd_opt (rest_at N vis k q ns j)"
    and M: "M = fold (link_level n prev following) [0..<m] N"
  shows "wf_nodes M (vis(n := m)) (in_front N k q ns @ n # from_on N k q ns)" (is ?wf)
    and "length M = Suc n" (is ?len)
    and "\<forall>i. node_entry (M ! i) = node_entry (N ! i)" (is ?entry) and "\<forall>i. nd_height (M ! i) = nd_height (N ! i)" (is ?height)
proof -
  have wf0: "wf_nodes (sl_nodes l) vis ns" and ns: "set ns = {1..<n}"
    using inv by (simp_all add: sl_inv_def vis n)
  have n0: "0 < n" using wf_nodesD(1) [OF wf0] by (simp add: n)
  have wf1: "wf_nodes N vis ns" unfolding N by (rule wf_nodes_snoc [OF wf0])
  have Nn: "N ! n = new_node k v q op h" "length N = Suc n" by (simp_all add: N n)
  have wf2: "wf_nodes N (vis(n := 0)) (in_front N k q ns @ n # from_on N k q ns)"
    using n0 ns Nn by (intro wf_nodes_place [OF wf1]) simp_all
  have "h = length (nd_forward (N ! n))" by (simp add: Nn)
  from link_all [OF wf2 h(1) this prev following h(2)]
  show ?wf ?len ?entry ?height unfolding M using Nn(2) by simp_all
qed

text \<open>Every insertion returns, keeps the invariant, and inserts one entry in its place.\<close>

lemma sl_insert_ok:
  assumes inv: "sl_inv l ns" and fits: "entry_fits k v op"
  shows "\<exists>l' ns' n. sl_insert k v q op l = Inr (l', n) \<and> sl_inv l' ns' \<and>
    entries_of (sl_nodes l') ns' = insert_entry (entry_for k v q op) (entries_of (sl_nodes l) ns) \<and>
    node_entry (sl_nodes l' ! n) = entry_for k v q op"
proof -
  define n where "n = length (sl_nodes l)"
  define vis where "vis = (\<lambda>i. nd_height (sl_nodes l ! i))"
  obtain l1 h prev following where p: "sl_prepare k v q op l = Inr (l1, n, h, prev, following)" "0 < h" "h \<le> MAX_HEIGHT"
    "sl_len l1 = sl_len l" "sl_max_height l1 = max (sl_max_height l) h" "sl_nodes l1 = sl_nodes l @ [new_node k v q op h]"
    "\<forall>j < h. prev ! j = last (0 # front_at (sl_nodes l1) vis k q ns j)"
    "\<forall>j < h. following ! j = hd_opt (rest_at (sl_nodes l1) vis k q ns j)"
    using sl_prepare_ok [OF inv fits] unfolding n_def vis_def by metis
  define N where "N = sl_nodes l1"
  define M where "M = fold (link_level n prev following) [0..<h] N"
  let ?A = "in_front N k q ns" and ?B = "from_on N k q ns"
  note M = sl_linking [OF inv p(6) [folded N_def] p(3) order_refl vis_def n_def p(7,8) [folded N_def] M_def]
  define l' where "l' = l1\<lparr>sl_nodes := M, sl_len := sl_len l1 + 1\<rparr>"
  have ret: "sl_insert k v q op l = Inr (l', n)"
    by (simp add: sl_insert_def p(1) N_def [symmetric] M_def [symmetric] l'_def)
  have old: "wf_nodes (sl_nodes l) vis ns" "set ns = {1..<n}" "sl_len l = length ns"
    "\<forall>i \<in> set ns. 0 < vis i \<and> vis i \<le> sl_max_height l" "0 < sl_max_height l" "sl_max_height l \<le> MAX_HEIGHT"
    using inv by (simp_all add: sl_inv_def vis_def n_def)
  have Nn: "N ! n = new_node k v q op h" "\<And>i. i < n \<Longrightarrow> N ! i = sl_nodes l ! i"
    by (simp_all add: N_def p(6) n_def nth_append)
  have "set ?A \<union> set ?B = {1..<n}" "length ?A + length ?B = length ns"
    using arg_cong [OF in_front_from_on [of N k q ns], of set]
      arg_cong [OF in_front_from_on [of N k q ns], of length] old(2) by simp_all
  moreover have "0 < n" using wf_nodesD(1) [OF old(1)] by (simp add: n_def)
  ultimately have AB: "set (?A @ n # ?B) = {1..<Suc n}" "length (?A @ n # ?B) = Suc (length ns)"
    by (simp_all add: atLeastLessThanSuc)
  have hts: "(vis(n := h)) i = nd_height (M ! i)" if "i \<in> set (?A @ n # ?B)" for i
    using that M(4) Nn unfolding AB by (cases "i = n") (auto simp: vis_def)
  have "sl_inv l' (?A @ n # ?B)"
    unfolding sl_inv_def
  proof (intro conjI ballI)
    fix i assume i: "i \<in> set (?A @ n # ?B)"
    then have "i = n \<or> i \<in> set ns" using AB(1) old(2) by auto
    then show "0 < nd_height (sl_nodes l' ! i)" "nd_height (sl_nodes l' ! i) \<le> sl_max_height l'"
      using hts [OF i] old(4) p(2,5) by (fastforce simp: l'_def split: if_splits)+
  qed (use M(1,2) wf_nodes_cong [of "?A @ n # ?B" "vis(n := h)" "\<lambda>i. nd_height (M ! i)" M, OF hts]
      AB old p in \<open>simp_all add: l'_def\<close>)
  moreover have "entries_of N ns = entries_of (sl_nodes l) ns" using Nn(2) old(2) by (simp add: entries_of_def)
  then have "entries_of (sl_nodes l') (?A @ n # ?B) = insert_entry (entry_for k v q op) (entries_of (sl_nodes l) ns)"
    using entries_of_insert [of N vis ns "entry_for k v q op" k q n M] Nn(1) M(3) old(1)
      wf_nodes_snoc [OF old(1), of "new_node k v q op h"] p(6) by (simp add: l'_def N_def)
  moreover have "node_entry (sl_nodes l' ! n) = entry_for k v q op" using M(3) Nn(1) by (simp add: l'_def)
  ultimately show ?thesis using ret by blast
qed

section \<open>The memtable contract\<close>

text \<open>
  What the engine relies on: a fresh memtable is empty, an insertion returns and inserts one
  entry in its place, the iterator returns the entries in internal-key order, and a lookup
  returns the first entry the snapshot sees.
\<close>

locale memtable =
  fixes fresh :: "'t result"
    and ins :: "key \<Rightarrow> bytes \<Rightarrow> u64 \<Rightarrow> op_type \<Rightarrow> 't \<Rightarrow> ('t \<times> nat) result"
    and look :: "'t \<Rightarrow> key \<Rightarrow> u64 \<Rightarrow> entry option option"
    and entries :: "'t \<Rightarrow> entry list option"
    and good :: "'t \<Rightarrow> bool"
  assumes fresh: "\<exists>t. fresh = Inr t \<and> good t \<and> entries t = Some []"
    and ins: "good t \<Longrightarrow> entries t = Some es \<Longrightarrow> entry_fits k v op \<Longrightarrow>
      \<exists>t' n. ins k v q op t = Inr (t', n) \<and> good t' \<and> entries t' = Some (insert_entry (entry_for k v q op) es)"
    and sorted: "good t \<Longrightarrow> \<exists>es. entries t = Some es \<and> entries_sorted es"
    and look: "good t \<Longrightarrow> entries t = Some es \<Longrightarrow> look t k s = Some (lookup_entry k s es)"

text \<open>Insertion of a list of entries, one after the other.\<close>

fun insert_seq ::
  "(key \<Rightarrow> bytes \<Rightarrow> u64 \<Rightarrow> op_type \<Rightarrow> 't \<Rightarrow> ('t \<times> nat) result) \<Rightarrow> entry list \<Rightarrow> 't \<Rightarrow> 't result" where
  "insert_seq ins [] t = Inr t"
| "insert_seq ins (e # es) t =
     and_then (ins (en_key e) (en_value e) (en_seqno e) (en_op e) t) (\<lambda>(t, n). insert_seq ins es t)"

definition entry_norm :: "entry \<Rightarrow> entry" where
  "entry_norm e = entry_for (en_key e) (en_value e) (en_seqno e) (en_op e)"

definition entry_ok :: "entry \<Rightarrow> bool" where
  "entry_ok e \<longleftrightarrow> entry_fits (en_key e) (en_value e) (en_op e)"

text \<open>The newest version of a key that a snapshot sees.\<close>

definition newest :: "key \<Rightarrow> u64 \<Rightarrow> entry set \<Rightarrow> entry option \<Rightarrow> bool" where
  "newest k s E r \<longleftrightarrow>
     (case r of
        None \<Rightarrow> \<forall>e \<in> E. \<not> (en_key e = k \<and> en_seqno e \<le> s)
      | Some e \<Rightarrow> e \<in> E \<and> en_key e = k \<and> en_seqno e \<le> s \<and>
          (\<forall>x \<in> E. en_key x = k \<and> en_seqno x \<le> s \<longrightarrow> en_seqno x \<le> en_seqno e))"

lemma mset_insert_entry: "mset (insert_entry e es) = add_mset e (mset es)"
  using mset_append [of "takeWhile (\<lambda>x. entry_key x < entry_key e) es" "dropWhile (\<lambda>x. entry_key x < entry_key e) es"]
  by (simp add: insert_entry_def)

lemma mset_fold_insert: "mset (fold insert_entry es es0) = mset es + mset es0"
  by (induction es arbitrary: es0) (simp_all add: mset_insert_entry)

lemma set_fold_insert: "set (fold insert_entry es es0) = set es \<union> set es0"
  using arg_cong [OF mset_fold_insert [of es es0], of set_mset] by simp

lemma lookup_entry_newest:
  assumes "entries_sorted es" shows "newest k s (set es) (lookup_entry k s es)"
proof (cases "lookup_entry k s es")
  case None
  then have "\<not> (\<exists>e. e \<in> set es \<and> en_key e = k \<and> en_seqno e \<le> s)"
    unfolding lookup_entry_def find_None_iff .
  then show ?thesis unfolding newest_def None option.case by blast
next
  case (Some e)
  then obtain i where i: "i < length es" "e = es ! i" "en_key e = k" "en_seqno e \<le> s"
    "\<And>j. j < i \<Longrightarrow> \<not> (en_key (es ! j) = k \<and> en_seqno (es ! j) \<le> s)"
    by (auto simp: lookup_entry_def find_Some_iff)
  have "en_seqno x \<le> en_seqno e" if x: "x \<in> set es" "en_key x = k" "en_seqno x \<le> s" for x
  proof -
    obtain j where j: "j < length es" "x = es ! j" using x(1) by (auto simp: in_set_conv_nth)
    with i(5) x have "i \<le> j" by (metis not_le)
    then have "entry_key e \<le> entry_key x"
      using assms i(1,2) j sorted_nth_mono [of "map entry_key es" i j] by simp
    then show ?thesis using i(3) x(2) by (auto simp: entry_key_def ikey_le)
  qed
  then show ?thesis using Some i by (auto simp: newest_def)
qed

context memtable
begin

lemma insert_seq_ok:
  assumes "good t" "entries t = Some es0" "\<forall>e \<in> set es. entry_ok e"
  shows "\<exists>t'. insert_seq ins es t = Inr t' \<and> good t' \<and>
    entries t' = Some (fold insert_entry (map entry_norm es) es0)"
  using assms
proof (induction es arbitrary: t es0)
  case (Cons e es)
  obtain t1 n where "ins (en_key e) (en_value e) (en_seqno e) (en_op e) t = Inr (t1, n)" "good t1"
    "entries t1 = Some (insert_entry (entry_norm e) es0)"
    using ins [OF Cons.prems(1,2)] Cons.prems(3) unfolding entry_norm_def entry_ok_def by fastforce
  then show ?case using Cons.IH [of t1] Cons.prems(3) by simp
qed simp

text \<open>A lookup returns the newest version among the entries.\<close>

lemma look_newest:
  "good t \<Longrightarrow> entries t = Some es \<Longrightarrow> \<exists>r. look t k s = Some r \<and> newest k s (set es) r"
  using look [of t es k s] sorted [of t] lookup_entry_newest [of es k s] by auto

text \<open>From a fresh memtable: whatever was inserted, in any order, is found.\<close>

lemma history:
  assumes "\<forall>e \<in> set es. entry_ok e"
  shows "\<exists>t es'. and_then fresh (insert_seq ins es) = Inr t \<and> good t \<and> entries t = Some es' \<and>
    entries_sorted es' \<and> mset es' = mset (map entry_norm es) \<and>
    (\<forall>k s. \<exists>r. look t k s = Some r \<and> newest k s (entry_norm ` set es) r)"
proof -
  obtain t0 where t0: "fresh = Inr t0" "good t0" "entries t0 = Some []" using fresh by blast
  obtain t where t: "insert_seq ins es t0 = Inr t" "good t"
    "entries t = Some (fold insert_entry (map entry_norm es) [])"
    using insert_seq_ok [OF t0(2,3) assms] by blast
  have "\<exists>r. look t k s = Some r \<and> newest k s (entry_norm ` set es) r" for k s
    using look_newest [OF t(2,3), of k s] by (simp add: set_fold_insert)
  then show ?thesis using t t0(1) sorted [OF t(2)]
    by (auto simp: mset_fold_insert intro!: exI [of _ t])
qed

end

text \<open>The skip list, read through its iterator and the accessors of the node reference.\<close>

definition sl_ok :: "skip_list \<Rightarrow> bool" where
  "sl_ok l \<longleftrightarrow> (\<exists>ns. sl_inv l ns)"

definition sl_entries :: "skip_list \<Rightarrow> entry list option" where
  "sl_entries l = map_option (entries_of (sl_nodes l)) (sl_iter l)"

definition sl_lookup :: "skip_list \<Rightarrow> key \<Rightarrow> u64 \<Rightarrow> entry option option" where
  "sl_lookup l k s = map_option (map_option (\<lambda>i. node_entry (sl_nodes l ! i))) (sl_get l k s)"

lemma iter_from_chain: "chain nodes 0 p ns \<Longrightarrow> iter_from nodes (forward nodes p 0) = Some ns"
proof (induction ns arbitrary: p)
  case Nil
  then show ?case by (subst iter_from.simps) simp
next
  case (Cons q qs)
  then show ?case by (subst iter_from.simps) simp
qed

lemma sl_inv_iter: "sl_inv l ns \<Longrightarrow> sl_iter l = Some ns"
proof -
  assume inv: "sl_inv l ns"
  then have "filter (\<lambda>i. 0 < nd_height (sl_nodes l ! i)) ns = ns" by (simp add: sl_inv_def)
  moreover have "0 < MAX_HEIGHT" by (simp add: MAX_HEIGHT_def)
  ultimately have "chain (sl_nodes l) 0 0 ns"
    using inv unfolding sl_inv_def wf_nodes_def by metis
  then show ?thesis unfolding sl_iter_def by (rule iter_from_chain)
qed

lemma sl_inv_visible: "sl_inv l ns \<Longrightarrow> visible (sl_nodes l) (\<lambda>i. nd_height (sl_nodes l ! i)) ns = entries_of (sl_nodes l) ns"
  by (simp add: sl_inv_def visible_def entries_of_def)

interpretation skl: memtable skip_list_new sl_insert sl_lookup sl_entries sl_ok
proof
  show "\<exists>t. skip_list_new = Inr t \<and> sl_ok t \<and> sl_entries t = Some []"
    using skip_list_new_inv sl_inv_iter unfolding sl_ok_def sl_entries_def
    by (metis entries_of_def list.map(1) option.simps(9))
next
  fix t es k v op q
  assume a: "sl_ok t" "sl_entries t = Some es" "entry_fits k v op"
  then obtain ns where ns: "sl_inv t ns" "es = entries_of (sl_nodes t) ns"
    using sl_inv_iter by (fastforce simp: sl_ok_def sl_entries_def)
  then show "\<exists>t' n. sl_insert k v q op t = Inr (t', n) \<and> sl_ok t' \<and>
      sl_entries t' = Some (insert_entry (entry_for k v q op) es)"
    using sl_insert_ok [OF ns(1) a(3), of q] sl_inv_iter unfolding sl_ok_def sl_entries_def by fastforce
next
  fix t assume "sl_ok t"
  then obtain ns where ns: "sl_inv t ns" by (auto simp: sl_ok_def)
  then show "\<exists>es. sl_entries t = Some es \<and> entries_sorted es"
    using visible_sorted [of "sl_nodes t" "\<lambda>i. nd_height (sl_nodes t ! i)" ns] sl_inv_visible [OF ns]
      sl_inv_iter [OF ns] by (simp add: sl_entries_def sl_inv_def)
next
  fix t es k s assume a: "sl_ok t" "sl_entries t = Some es"
  then obtain ns where ns: "sl_inv t ns" "es = entries_of (sl_nodes t) ns"
    using sl_inv_iter by (fastforce simp: sl_ok_def sl_entries_def)
  then have "wf_nodes (sl_nodes t) (\<lambda>i. nd_height (sl_nodes t ! i)) ns" "0 < sl_max_height t" "sl_max_height t \<le> MAX_HEIGHT"
    by (simp_all add: sl_inv_def)
  from get_from_lookup [OF this, of k s] show "sl_lookup t k s = Some (lookup_entry k s es)"
    unfolding sl_lookup_def sl_get_def sl_inv_visible [OF ns(1)] ns(2) by auto
qed

section \<open>Properties\<close>

text \<open>
  C6. Refinement: from a list in a good state every insertion whose lengths fit a u32
  returns (no loop over the pointers runs forever and no panic is reached), keeps the state
  good, and what the iterator returns afterwards is the old list of entries with the new
  one in its place; the returned node holds the new entry.
\<close>

theorem skiplist_insert_refines:
  assumes "sl_ok l" "sl_entries l = Some es" "entry_fits k v op"
  shows "\<exists>l' n. sl_insert k v q op l = Inr (l', n) \<and> sl_ok l' \<and>
    sl_entries l' = Some (insert_entry (entry_for k v q op) es)"
  by (rule skl.ins [OF assms])

theorem skiplist_insert_refines_witness:
  "\<exists>l l' n. skip_list_new = Inr l \<and> sl_insert [1] [2] 3 OpPut l = Inr (l', n) \<and>
     sl_entries l' = Some [\<lparr>en_key = [1], en_seqno = 3, en_op = OpPut, en_value = [2]\<rparr>]"
proof -
  obtain l where l: "skip_list_new = Inr l" "sl_ok l" "sl_entries l = Some []" using skl.fresh by blast
  have "entry_fits [1] [2] OpPut" by (simp add: entry_fits_def)
  from skiplist_insert_refines [OF l(2,3) this, of 3] l(1) show ?thesis
    by (auto simp: insert_entry_def entry_for_def)
qed

text \<open>
  C4. The memtable as a whole: insert any sequence of entries into a new list, in any order,
  with any heights the generator draws. All insertions return, the iterator returns a sorted
  permutation of what was inserted, and a lookup at any snapshot returns the newest version
  of the key that the snapshot sees, or nothing when there is none.
\<close>

theorem skiplist_history:
  assumes "\<forall>e \<in> set es. entry_ok e"
  shows "\<exists>l es'. and_then skip_list_new (insert_seq sl_insert es) = Inr l \<and>
    sl_entries l = Some es' \<and> entries_sorted es' \<and> mset es' = mset (map entry_norm es) \<and>
    (\<forall>k s. \<exists>r. sl_lookup l k s = Some r \<and> newest k s (entry_norm ` set es) r)"
  using skl.history [OF assms] by blast

theorem skiplist_history_witness:
  "\<exists>l. and_then skip_list_new (insert_seq sl_insert
       [\<lparr>en_key = [1], en_seqno = 3, en_op = OpPut, en_value = [2]\<rparr>,
        \<lparr>en_key = [1], en_seqno = 5, en_op = OpTombstone, en_value = []\<rparr>]) = Inr l \<and>
     sl_lookup l [1] 4 = Some (Some \<lparr>en_key = [1], en_seqno = 3, en_op = OpPut, en_value = [2]\<rparr>)"
proof -
  let ?a = "\<lparr>en_key = [1], en_seqno = 3, en_op = OpPut, en_value = [2]\<rparr>"
  let ?b = "\<lparr>en_key = [1], en_seqno = 5, en_op = OpTombstone, en_value = []\<rparr>"
  have "\<forall>e \<in> set [?a, ?b]. entry_ok e" by (simp add: entry_ok_def entry_fits_def)
  from skiplist_history [OF this] obtain l r where
    l: "and_then skip_list_new (insert_seq sl_insert [?a, ?b]) = Inr l" "sl_lookup l [1] 4 = Some r"
    "newest [1] 4 (entry_norm ` set [?a, ?b]) r" by meson
  have "r = Some ?a" using l(3)
    by (auto simp: newest_def entry_norm_def entry_for_def split: option.splits)
  with l show ?thesis by blast
qed

text \<open>What a reader sees after \<open>m\<close> levels are linked.\<close>

lemma visible_linking:
  assumes inv: "sl_inv l ns" and fits: "entry_fits k v op"
    and prep: "sl_prepare k v q op l = Inr (l1, n, h, prev, following)" and m: "m \<le> h"
    and M: "M = fold (link_level n prev following) [0..<m] (sl_nodes l1)"
  shows "\<exists>vis ns'. wf_nodes M vis ns' \<and> visible M vis ns' =
    (if m = 0 then entries_of (sl_nodes l) ns else insert_entry (entry_for k v q op) (entries_of (sl_nodes l) ns))"
proof -
  define vis where "vis = (\<lambda>i. nd_height (sl_nodes l ! i))"
  define N where "N = sl_nodes l1"
  have p: "n = length (sl_nodes l)" "h \<le> MAX_HEIGHT" "N = sl_nodes l @ [new_node k v q op h]"
    "\<forall>j < h. prev ! j = last (0 # front_at N vis k q ns j)"
    "\<forall>j < h. following ! j = hd_opt (rest_at N vis k q ns j)"
    using sl_prepare_ok [OF inv fits, of q] prep unfolding vis_def N_def by (metis Pair_inject sum.inject(2))+
  let ?A = "in_front N k q ns" and ?B = "from_on N k q ns"
  note L = sl_linking [OF inv p(3,2) m vis_def p(1,4,5) M [folded N_def]]
  have ns: "wf_nodes (sl_nodes l) vis ns" "set ns = {1..<n}" "\<forall>i \<in> set ns. 0 < vis i"
    using inv by (simp_all add: sl_inv_def vis_def p(1))
  have sub: "set ?A \<union> set ?B = set ns" using arg_cong [OF in_front_from_on [of N k q ns], of set] by simp
  have up: "filter (\<lambda>i. 0 < (vis(n := m)) i) ?A = ?A" "filter (\<lambda>i. 0 < (vis(n := m)) i) ?B = ?B"
    using ns(2,3) sub by (auto simp: filter_id_conv)
  have eN: "entries_of N ns = entries_of (sl_nodes l) ns"
    using ns(2) by (simp add: entries_of_def p(1,3) nth_append)
  have eM: "entries_of M xs = entries_of N xs" for xs using L(3) by (simp add: entries_of_def)
  have "visible M (vis(n := m)) (?A @ n # ?B) = (if m = 0 then entries_of M (?A @ ?B) else entries_of M (?A @ n # ?B))"
    unfolding visible_def filter_append filter.simps up by (simp add: entries_of_def)
  moreover have "entries_of M (?A @ n # ?B) = insert_entry (entry_for k v q op) (entries_of N ns)"
    using entries_of_insert [of N vis ns "entry_for k v q op" k q n M] L(3) p(1,3)
      wf_nodes_snoc [OF ns(1), of "new_node k v q op h"] by simp
  ultimately show ?thesis using L(1) eM eN by (metis in_front_from_on)
qed



end
