(* ===== verification/SstFormat.thy ===== *)
theory SstFormat
  imports Checksum
begin

text \<open>
  The fixed parts of a table file, \<^verbatim>\<open>crates/paddock-core/src/sstable/format.rs\<close>: constants and
  flags, the file header, block handles and the footer, each with its packed little-endian
  image, signing and validation.  Shown: every part is read back from its image, and a signed
  header or footer validates.
\<close>

definition SSTABLE_MAGIC :: u32 where "SSTABLE_MAGIC = 0x53564B50"
definition FOOTER_MAGIC :: u64 where "FOOTER_MAGIC = 0x4654525353564B50"
definition SST_FORMAT_VERSION :: u32 where "SST_FORMAT_VERSION = 1"
definition FILE_HEADER_SIZE :: nat where "FILE_HEADER_SIZE = 64"
definition FILE_HEADER_REGION_SIZE :: nat where "FILE_HEADER_REGION_SIZE = 4096"
definition FOOTER_SIZE :: nat where "FOOTER_SIZE = 64"
definition DEFAULT_BLOCK_SIZE :: nat where "DEFAULT_BLOCK_SIZE = 16 * 1024"
definition BLOCK_ALIGNMENT :: nat where "BLOCK_ALIGNMENT = 4096"
definition RESTART_INTERVAL :: nat where "RESTART_INTERVAL = 16"
definition BLOCK_HANDLE_SIZE :: nat where "BLOCK_HANDLE_SIZE = 16"
definition flag_CHECKSUMMED :: u32 where "flag_CHECKSUMMED = 1"
definition flag_ENCRYPTED :: u32 where "flag_ENCRYPTED = 2"

lemmas sst_sizes = FILE_HEADER_SIZE_def FILE_HEADER_REGION_SIZE_def FOOTER_SIZE_def
  BLOCK_ALIGNMENT_def RESTART_INTERVAL_def BLOCK_HANDLE_SIZE_def

datatype compression_alg = NoCompression | Lz4 | Zstd

fun compression_byte :: "compression_alg \<Rightarrow> u8" where
  "compression_byte NoCompression = 0"
| "compression_byte Lz4 = 1"
| "compression_byte Zstd = 2"

definition compression_from_byte :: "u8 \<Rightarrow> compression_alg option" where
  "compression_from_byte b =
     (if b = 0 then Some NoCompression else if b = 1 then Some Lz4 else if b = 2 then Some Zstd else None)"

datatype record_op = RPut | RTombstone

fun record_op_byte :: "record_op \<Rightarrow> u8" where
  "record_op_byte RPut = 0"
| "record_op_byte RTombstone = 1"

definition record_op_from_byte :: "u8 \<Rightarrow> record_op option" where
  "record_op_from_byte b = (if b = 0 then Some RPut else if b = 1 then Some RTombstone else None)"

section \<open>The file header\<close>

record file_header =
  fh_magic :: u32
  fh_version :: u32
  fh_flags :: u32
  fh_compression_alg :: u8
  fh_checksum_alg :: u8
  fh_reserved :: u16
  fh_num_entries :: u64
  fh_num_blocks :: u64
  fh_min_seqno :: u64
  fh_max_seqno :: u64
  fh_data_blocks_end_offset :: u64
  fh_header_crc32c :: u32
  fh_reserved2 :: u32

definition file_header_bytes :: "file_header \<Rightarrow> bytes" where
  "file_header_bytes h =
     u32_to_le (fh_magic h) @ u32_to_le (fh_version h) @ u32_to_le (fh_flags h) @
     [fh_compression_alg h, fh_checksum_alg h] @ u16_to_le (fh_reserved h) @
     u64_to_le (fh_num_entries h) @ u64_to_le (fh_num_blocks h) @ u64_to_le (fh_min_seqno h) @
     u64_to_le (fh_max_seqno h) @ u64_to_le (fh_data_blocks_end_offset h) @
     u32_to_le (fh_header_crc32c h) @ u32_to_le (fh_reserved2 h)"

definition file_header_from_bytes :: "bytes \<Rightarrow> file_header option" where
  "file_header_from_bytes bs =
     (if length bs = FILE_HEADER_SIZE then
        Some \<lparr>fh_magic = u32_from_le (take 4 bs), fh_version = u32_from_le (take 4 (drop 4 bs)),
              fh_flags = u32_from_le (take 4 (drop 8 bs)), fh_compression_alg = bs ! 12,
              fh_checksum_alg = bs ! 13, fh_reserved = u16_from_le (take 2 (drop 14 bs)),
              fh_num_entries = u64_from_le (take 8 (drop 16 bs)),
              fh_num_blocks = u64_from_le (take 8 (drop 24 bs)),
              fh_min_seqno = u64_from_le (take 8 (drop 32 bs)),
              fh_max_seqno = u64_from_le (take 8 (drop 40 bs)),
              fh_data_blocks_end_offset = u64_from_le (take 8 (drop 48 bs)),
              fh_header_crc32c = u32_from_le (take 4 (drop 56 bs)),
              fh_reserved2 = u32_from_le (take 4 (drop 60 bs))\<rparr>
      else None)"

definition file_header_new_signed ::
  "externs \<Rightarrow> u32 \<Rightarrow> compression_alg \<Rightarrow> algorithm \<Rightarrow> u64 \<Rightarrow> u64 \<Rightarrow> u64 \<Rightarrow> u64 \<Rightarrow> u64 \<Rightarrow> file_header" where
  "file_header_new_signed E flags compression checksum num_entries num_blocks min_seqno max_seqno data_blocks_end_offset =
     (let h = \<lparr>fh_magic = SSTABLE_MAGIC, fh_version = SST_FORMAT_VERSION, fh_flags = flags,
               fh_compression_alg = compression_byte compression, fh_checksum_alg = algorithm_tag checksum,
               fh_reserved = 0, fh_num_entries = num_entries, fh_num_blocks = num_blocks,
               fh_min_seqno = min_seqno, fh_max_seqno = max_seqno,
               fh_data_blocks_end_offset = data_blocks_end_offset, fh_header_crc32c = 0, fh_reserved2 = 0\<rparr>;
          crc = crc32c_hash E (take 56 (file_header_bytes h))
      in h\<lparr>fh_header_crc32c := crc\<rparr>)"

definition file_header_is_valid :: "externs \<Rightarrow> file_header \<Rightarrow> bool" where
  "file_header_is_valid E h \<longleftrightarrow>
     (if fh_magic h \<noteq> SSTABLE_MAGIC \<or> fh_version h \<noteq> SST_FORMAT_VERSION then False
      else if fh_reserved h \<noteq> 0 \<or> fh_reserved2 h \<noteq> 0 then False
      else fh_header_crc32c h = crc32c_hash E (take 56 (file_header_bytes h)))"

section \<open>Handles and the footer\<close>

record block_handle =
  bh_offset :: u64
  bh_length :: u32
  bh_checksum :: u32

definition block_handle_bytes :: "block_handle \<Rightarrow> bytes" where
  "block_handle_bytes h = u64_to_le (bh_offset h) @ u32_to_le (bh_length h) @ u32_to_le (bh_checksum h)"

definition block_handle_from_bytes :: "bytes \<Rightarrow> block_handle option" where
  "block_handle_from_bytes bs =
     (if length bs = BLOCK_HANDLE_SIZE then
        Some \<lparr>bh_offset = u64_from_le (take 8 bs), bh_length = u32_from_le (take 4 (drop 8 bs)),
              bh_checksum = u32_from_le (take 4 (drop 12 bs))\<rparr>
      else None)"

record footer =
  ft_index_handle :: block_handle
  ft_filter_handle :: block_handle
  ft_meta_handle :: block_handle
  ft_footer_magic :: u64
  ft_format_version :: u32
  ft_footer_crc32c :: u32

definition footer_bytes :: "footer \<Rightarrow> bytes" where
  "footer_bytes f =
     block_handle_bytes (ft_index_handle f) @ block_handle_bytes (ft_filter_handle f) @
     block_handle_bytes (ft_meta_handle f) @ u64_to_le (ft_footer_magic f) @
     u32_to_le (ft_format_version f) @ u32_to_le (ft_footer_crc32c f)"

definition footer_from_bytes :: "bytes \<Rightarrow> footer option" where
  "footer_from_bytes bs =
     (if length bs = FOOTER_SIZE then
        Some \<lparr>ft_index_handle = the (block_handle_from_bytes (take 16 bs)),
              ft_filter_handle = the (block_handle_from_bytes (take 16 (drop 16 bs))),
              ft_meta_handle = the (block_handle_from_bytes (take 16 (drop 32 bs))),
              ft_footer_magic = u64_from_le (take 8 (drop 48 bs)),
              ft_format_version = u32_from_le (take 4 (drop 56 bs)),
              ft_footer_crc32c = u32_from_le (take 4 (drop 60 bs))\<rparr>
      else None)"

definition footer_new_signed :: "externs \<Rightarrow> block_handle \<Rightarrow> block_handle \<Rightarrow> block_handle \<Rightarrow> footer" where
  "footer_new_signed E index_handle filter_handle meta_handle =
     (let f = \<lparr>ft_index_handle = index_handle, ft_filter_handle = filter_handle, ft_meta_handle = meta_handle,
               ft_footer_magic = FOOTER_MAGIC, ft_format_version = SST_FORMAT_VERSION, ft_footer_crc32c = 0\<rparr>;
          crc = crc32c_hash E (take 60 (footer_bytes f))
      in f\<lparr>ft_footer_crc32c := crc\<rparr>)"

definition footer_is_valid :: "externs \<Rightarrow> footer \<Rightarrow> bool" where
  "footer_is_valid E f \<longleftrightarrow>
     (if ft_footer_magic f \<noteq> FOOTER_MAGIC \<or> ft_format_version f \<noteq> SST_FORMAT_VERSION then False
      else ft_footer_crc32c f = crc32c_hash E (take 60 (footer_bytes f)))"

section \<open>Facts\<close>

lemma record_op_round_trip [simp]: "record_op_from_byte (record_op_byte x) = Some x"
  by (cases x) (simp_all add: record_op_from_byte_def)

lemma compression_round_trip [simp]: "compression_from_byte (compression_byte x) = Some x"
  by (cases x) (simp_all add: compression_from_byte_def)

lemma length_file_header_bytes [simp]: "length (file_header_bytes h) = 64"
  by (simp add: file_header_bytes_def)

lemma length_block_handle_bytes [simp]: "length (block_handle_bytes h) = 16"
  by (simp add: block_handle_bytes_def)

lemma length_footer_bytes [simp]: "length (footer_bytes f) = 64"
  by (simp add: footer_bytes_def)

lemma file_header_round_trip [simp]: "file_header_from_bytes (file_header_bytes h) = Some h"
  by (cases h) (simp add: file_header_from_bytes_def file_header_bytes_def FILE_HEADER_SIZE_def nth_append)

lemma block_handle_round_trip [simp]: "block_handle_from_bytes (block_handle_bytes h) = Some h"
  by (cases h) (simp add: block_handle_from_bytes_def block_handle_bytes_def BLOCK_HANDLE_SIZE_def)

lemma footer_round_trip [simp]: "footer_from_bytes (footer_bytes f) = Some f"
  by (cases f) (simp add: footer_from_bytes_def footer_bytes_def FOOTER_SIZE_def)

lemma file_header_signed_valid [simp]:
  "file_header_is_valid E (file_header_new_signed E flags c a ne nb mn mx e)"
  by (simp add: file_header_is_valid_def file_header_new_signed_def Let_def file_header_bytes_def)

lemma footer_signed_valid [simp]: "footer_is_valid E (footer_new_signed E i f m)"
  by (simp add: footer_is_valid_def footer_new_signed_def Let_def footer_bytes_def)

lemma file_header_signed_fields [simp]:
  "fh_flags (file_header_new_signed E flags c a ne nb mn mx e) = flags"
  "fh_num_entries (file_header_new_signed E flags c a ne nb mn mx e) = ne"
  "fh_num_blocks (file_header_new_signed E flags c a ne nb mn mx e) = nb"
  "fh_min_seqno (file_header_new_signed E flags c a ne nb mn mx e) = mn"
  "fh_max_seqno (file_header_new_signed E flags c a ne nb mn mx e) = mx"
  by (simp_all add: file_header_new_signed_def Let_def)

lemma footer_signed_fields [simp]:
  "ft_index_handle (footer_new_signed E i f m) = i"
  "ft_filter_handle (footer_new_signed E i f m) = f"
  by (simp_all add: footer_new_signed_def Let_def)

end
