(* ===== verification/Block.thy ===== *)
theory Block
  imports SstFormat Varint
begin

text \<open>
  Data and index blocks, \<^verbatim>\<open>crates/paddock-core/src/sstable/block.rs\<close>: the builder with prefix
  compression and restart points, the block view with its checks, the forward iterator, and
  the search over the restart array.

  Shown: a finished block opens and iterates to the records that were added; the search
  returns the first record that is not below the target whenever no version run of the target
  straddles a restart point; and it skips newer versions when one does.
\<close>

definition BLOCK_TRAILER_SIZE :: nat where "BLOCK_TRAILER_SIZE = 8"

record block_builder =
  bld_buffer :: bytes
  bld_restarts :: "u32 list"
  bld_last_key :: key
  bld_counter :: nat

definition block_builder_new :: block_builder where
  "block_builder_new =
     \<lparr>bld_buffer = [], bld_restarts = [], bld_last_key = [], bld_counter = RESTART_INTERVAL\<rparr>"

definition block_is_empty :: "block_builder \<Rightarrow> bool" where
  "block_is_empty b \<longleftrightarrow> bld_buffer b = []"

definition estimated_size :: "block_builder \<Rightarrow> nat" where
  "estimated_size b = length (bld_buffer b) + length (bld_restarts b) * 4 + BLOCK_TRAILER_SIZE"

fun shared_prefix_len :: "bytes \<Rightarrow> bytes \<Rightarrow> nat" where
  "shared_prefix_len (x # xs) (y # ys) = (if x = y then Suc (shared_prefix_len xs ys) else 0)"
| "shared_prefix_len _ _ = 0"

text \<open>Encode a length, cast to 32 bits, into the scratch array and append what was written.\<close>

definition push_varint :: "nat \<Rightarrow> bytes \<times> bytes \<Rightarrow> (bytes \<times> bytes) result" where
  "push_varint len = (\<lambda>(scratch, out).
     let (scratch, written) = encode_u32 (of_nat len) scratch in
     and_then (ok_or written (Panic ''u32 fits'')) (\<lambda>n.
     and_then (slice_range scratch 0 n) (\<lambda>enc. Inr (scratch, out @ enc))))"

definition block_add :: "key \<Rightarrow> bytes \<Rightarrow> u64 \<Rightarrow> record_op \<Rightarrow> block_builder \<Rightarrow> block_builder result" where
  "block_add key val seqno op b =
     (let (shared, b) =
            (if bld_counter b < RESTART_INTERVAL then (shared_prefix_len (bld_last_key b) key, b)
             else (0, b\<lparr>bld_restarts := bld_restarts b @ [of_nat (length (bld_buffer b))], bld_counter := 0\<rparr>));
          unshared = length key - shared
      in and_then (push_varint shared (replicate MAX_VARINT_U32_BYTES 0, bld_buffer b)) (\<lambda>so.
         and_then (push_varint unshared so) (\<lambda>so.
         and_then (push_varint (length val) so) (\<lambda>(scratch, out).
         and_then (slice_from key shared) (\<lambda>suffix.
         Inr (b\<lparr>bld_buffer := out @ u64_to_le seqno @ [record_op_byte op] @ suffix @ val,
                bld_last_key := key, bld_counter := bld_counter b + 1\<rparr>))))))"

definition block_finish :: "externs \<Rightarrow> block_builder \<Rightarrow> (block_builder \<times> bytes) result" where
  "block_finish E b =
     (let out = bld_buffer b @ concat (map u32_to_le (bld_restarts b)) in
      if 2 ^ 32 \<le> length (bld_restarts b)
      then Inl (Panic ''restart array length always fits in u32'')
      else let out = out @ u32_to_le (of_nat (length (bld_restarts b)));
               out = out @ u32_to_le (crc32c_hash E out)
           in Inr (\<lparr>bld_buffer = [], bld_restarts = [], bld_last_key = [], bld_counter = RESTART_INTERVAL\<rparr>, out))"

section \<open>The view\<close>

record block_reader =
  br_records :: bytes
  br_restart_bytes :: bytes

record block_record =
  rec_key :: key
  rec_value :: bytes
  rec_seqno :: u64
  rec_op :: record_op

definition block_open :: "externs \<Rightarrow> bytes \<Rightarrow> block_reader result" where
  "block_open E bs =
     (if length bs < BLOCK_TRAILER_SIZE
      then Inl (invalid_format_static ''sstable data block'' ''shorter than block trailer'')
      else let stored_crc = u32_from_le (drop (length bs - 4) bs);
               computed_crc = crc32c_hash E (take (length bs - 4) bs)
           in if stored_crc \<noteq> computed_crc
              then Inl (ChecksumMismatch ''sstable data block'' (ucast stored_crc) (ucast computed_crc))
              else let num_restarts = u32_from_le (take 4 (drop (length bs - 8) bs));
                       restart_bytes_len = unat num_restarts * 4
                   in if 2 ^ 64 \<le> restart_bytes_len
                      then Inl (invalid_format_static ''sstable data block'' ''restart overflow'')
                      else if length bs < restart_bytes_len + BLOCK_TRAILER_SIZE
                      then Inl (invalid_format_static ''sstable data block'' ''restart array overflows block'')
                      else let records_end = length bs - BLOCK_TRAILER_SIZE - restart_bytes_len
                           in Inr \<lparr>br_records = take records_end bs,
                                   br_restart_bytes = take restart_bytes_len (drop records_end bs)\<rparr>)"

definition num_restarts :: "block_reader \<Rightarrow> nat" where
  "num_restarts r = length (br_restart_bytes r) div 4"

definition restart_offset :: "block_reader \<Rightarrow> nat \<Rightarrow> nat result" where
  "restart_offset r i =
     and_then (slice_range (br_restart_bytes r) (i * 4) (i * 4 + 4)) (\<lambda>bs. Inr (unat (u32_from_le bs)))"

section \<open>The iterator\<close>

record block_iter =
  bi_records :: bytes
  bi_cursor :: nat
  bi_last_key :: key

definition block_into_iter :: "block_reader \<Rightarrow> block_iter" where
  "block_into_iter r = \<lparr>bi_records = br_records r, bi_cursor = 0, bi_last_key = []\<rparr>"

text \<open>The three lengths in front of a record: \<^verbatim>\<open>.ok()?\<close> turns a decode error into the end.\<close>

definition decode_lengths :: "bytes \<Rightarrow> (u32 \<times> u32 \<times> u32 \<times> nat) option" where
  "decode_lengths rest =
     (case decode_u32 rest of Inl e \<Rightarrow> None | Inr (shared, c1) \<Rightarrow>
      case decode_u32 (drop c1 rest) of Inl e \<Rightarrow> None | Inr (unshared, c2) \<Rightarrow>
      case decode_u32 (drop (c1 + c2) rest) of Inl e \<Rightarrow> None | Inr (value_len, c3) \<Rightarrow>
      Some (shared, unshared, value_len, c1 + c2 + c3))"

definition block_next :: "block_iter \<Rightarrow> (block_record \<times> block_iter) option" where
  "block_next it =
     (if length (bi_records it) \<le> bi_cursor it then None
      else let rest = drop (bi_cursor it) (bi_records it) in
        Option.bind (decode_lengths rest) (\<lambda>(shared, unshared, value_len, pre).
        let header_total = pre + 8 + 1 in
        if length rest < header_total then None
        else let seqno = u64_from_le (take 8 (drop pre rest)) in
          Option.bind (record_op_from_byte (rest ! (pre + 8))) (\<lambda>op.
          let key_start = bi_cursor it + header_total;
              key_end = key_start + unat unshared;
              val_end = key_end + unat value_len
          in if length (bi_records it) < val_end then None
             else let key_suffix = take (unat unshared) (drop key_start (bi_records it));
                      val = take (unat value_len) (drop key_end (bi_records it));
                      key = take (unat shared) (bi_last_key it) @ key_suffix
                  in Some (\<lparr>rec_key = key, rec_value = val, rec_seqno = seqno, rec_op = op\<rparr>,
                           it\<lparr>bi_cursor := val_end, bi_last_key := key\<rparr>))))"

lemma block_next_progress:
  "block_next it = Some (r, it') \<Longrightarrow> bi_records it' = bi_records it \<and> bi_cursor it < bi_cursor it' \<and>
     bi_cursor it' \<le> length (bi_records it)"
  by (auto simp: block_next_def Let_def split: if_splits bind_splits)

function block_collect :: "block_iter \<Rightarrow> block_record list" where
  "block_collect it = (case block_next it of None \<Rightarrow> [] | Some (r, it') \<Rightarrow> r # block_collect it')"
  by pat_completeness auto

termination
  by (relation "measure (\<lambda>it. length (bi_records it) - bi_cursor it)")
     (auto dest!: block_next_progress)

declare block_collect.simps [simp del]

definition key_at_restart :: "bytes \<Rightarrow> nat \<Rightarrow> key option" where
  "key_at_restart records off =
     (if length records \<le> off then None
      else let rest = drop off records in
        case decode_u32 rest of Inl e \<Rightarrow> None | Inr (shared, c1) \<Rightarrow>
        if shared \<noteq> 0 then None else
        case decode_u32 (drop c1 rest) of Inl e \<Rightarrow> None | Inr (unshared, c2) \<Rightarrow>
        case decode_u32 (drop (c1 + c2) rest) of Inl e \<Rightarrow> None | Inr (value_len, c3) \<Rightarrow>
        let pre = c1 + c2 + c3;
            key_start = pre + 8 + 1;
            key_end = key_start + unat unshared
        in if length rest < key_end then None
           else Some (take (unat unshared) (drop key_start rest)))"

text \<open>The binary search over the restart points; \<open>None\<close> is the early return.\<close>

function seek_restart :: "block_reader \<Rightarrow> key \<Rightarrow> nat \<Rightarrow> nat \<Rightarrow> nat option result" where
  "seek_restart r target lo hi =
     (if lo + 1 < hi then
        let mid = lo + (hi - lo) div 2 in
        and_then (restart_offset r mid) (\<lambda>mid_off.
        case key_at_restart (br_records r) mid_off of
          None \<Rightarrow> Inr None
        | Some k \<Rightarrow>
            (case cmp k target of
               Less \<Rightarrow> seek_restart r target mid hi
             | Equal \<Rightarrow> seek_restart r target mid (mid + 1)
             | Greater \<Rightarrow> seek_restart r target lo mid))
      else Inr (Some lo))"
  by pat_completeness auto

termination
  by (relation "measure (\<lambda>(r, target, lo, hi). hi - lo)") auto

declare seek_restart.simps [simp del]

definition block_seek :: "block_reader \<Rightarrow> key \<Rightarrow> block_record option result" where
  "block_seek r target =
     (let n = num_restarts r in
      if n = 0 then Inr None
      else and_then (seek_restart r target 0 n) (\<lambda>found.
        case found of
          None \<Rightarrow> Inr None
        | Some lo \<Rightarrow>
            and_then (restart_offset r lo) (\<lambda>start_off.
            Inr (find (\<lambda>rec. target \<le> rec_key rec)
                   (block_collect \<lparr>bi_records = br_records r, bi_cursor = start_off, bi_last_key = []\<rparr>)))))"

section \<open>The encoding of a list of records\<close>

definition rec_bytes :: "nat \<Rightarrow> block_record \<Rightarrow> bytes" where
  "rec_bytes shared r =
     leb128 shared @ leb128 (length (rec_key r) - shared) @ leb128 (length (rec_value r)) @
     u64_to_le (rec_seqno r) @ [record_op_byte (rec_op r)] @ drop shared (rec_key r) @ rec_value r"

definition shared_at :: "nat \<Rightarrow> key \<Rightarrow> block_record \<Rightarrow> nat" where
  "shared_at i last_key r = (if i mod 16 = 0 then 0 else shared_prefix_len last_key (rec_key r))"

fun enc :: "nat \<Rightarrow> key \<Rightarrow> block_record list \<Rightarrow> bytes" where
  "enc i last_key [] = []"
| "enc i last_key (r # rs) = rec_bytes (shared_at i last_key r) r @ enc (Suc i) (rec_key r) rs"

definition rec_fits :: "block_record \<Rightarrow> bool" where
  "rec_fits r \<longleftrightarrow> length (rec_key r) < 2 ^ 32 \<and> length (rec_value r) < 2 ^ 32"

definition key_before :: "key \<Rightarrow> block_record list \<Rightarrow> key" where
  "key_before l rs = (if rs = [] then l else rec_key (last rs))"

lemma key_before_simps [simp]: "key_before l [] = l" "key_before l (rs @ [r]) = rec_key r"
  "key_before l (r # rs) = key_before (rec_key r) rs"
  by (simp_all add: key_before_def)

lemma enc_append: "enc i l (xs @ ys) = enc i l xs @ enc (i + length xs) (key_before l xs) ys"
  by (induction xs arbitrary: i l) simp_all

lemma shared_prefix_len_le: "shared_prefix_len a b \<le> length a \<and> shared_prefix_len a b \<le> length b"
  by (induction a b rule: shared_prefix_len.induct) simp_all

lemma shared_prefix_len_take: "take (shared_prefix_len a b) a = take (shared_prefix_len a b) b"
  by (induction a b rule: shared_prefix_len.induct) simp_all

lemma rec_bytes_nonempty [simp]: "rec_bytes s r \<noteq> []"
  by (simp add: rec_bytes_def)

lemma shared_at_le: "shared_at i l r \<le> length (rec_key r)"
  using shared_prefix_len_le by (simp add: shared_at_def)

section \<open>The builder\<close>

lemma push_varint_ok:
  assumes "n < 2 ^ 32" "length scratch = 5"
  obtains scratch' where "length scratch' = 5"
    "push_varint n (scratch, out) = Inr (scratch', out @ leb128 n)"
proof -
  have n: "unat (of_nat n :: u32) = n" using assms(1) by (simp add: unat_of_nat_less)
  then have le: "length (leb128 n) \<le> 5" using length_leb128_u32 [of "of_nat n"] by simp
  then have "push_varint n (scratch, out) = Inr (leb128 n @ drop (length (leb128 n)) scratch, out @ leb128 n)"
    using assms(2) encode_u32_writes [of "of_nat n" scratch] by (simp add: push_varint_def n)
  moreover have "length (leb128 n @ drop (length (leb128 n)) scratch) = 5" using le assms(2) by simp
  ultimately show thesis by (rule that [rotated])
qed

definition restart_list :: "block_record list \<Rightarrow> u32 list" where
  "restart_list rs = map (\<lambda>j. of_nat (length (enc 0 [] (take (16 * j) rs)))) [0..<(length rs + 15) div 16]"

text \<open>The state of the builder after a list of records.\<close>

definition builder_of :: "block_record list \<Rightarrow> block_builder" where
  "builder_of rs = \<lparr>bld_buffer = enc 0 [] rs, bld_restarts = restart_list rs, bld_last_key = key_before [] rs,
     bld_counter = if rs = [] then 16 else Suc ((length rs - 1) mod 16)\<rparr>"

lemma builder_of_Nil [simp]: "block_builder_new = builder_of []"
  by (simp add: block_builder_new_def builder_of_def restart_list_def RESTART_INTERVAL_def)

lemma counter_less:
  "rs \<noteq> [] \<Longrightarrow> Suc ((length rs - 1) mod 16) < 16 \<longleftrightarrow> length rs mod 16 \<noteq> 0"
proof (cases "length rs")
  case (Suc m)
  have "m mod 16 < 16" by simp
  then have "Suc (m mod 16) < 16 \<longleftrightarrow> Suc (m mod 16) \<noteq> 16" by linarith
  then show ?thesis by (simp add: Suc mod_Suc)
qed simp

lemma div_round_up_Suc:
  assumes "n mod 16 \<noteq> 0" shows "(Suc n + 15) div 16 = (n + 15) div (16 :: nat)"
proof -
  define q t where "q = n div 16" "t = n mod 16"
  have n: "n = 16 * q + t" "0 < t" "t < 16" using assms by (simp_all add: q_t_def)
  have "(Suc n + 15) div 16 = Suc q" "(n + 15) div 16 = Suc q" using n by (intro div_nat_eqI; simp)+
  then show ?thesis by simp
qed

lemma restart_list_snoc:
  "restart_list (rs @ [r]) =
     (if length rs mod 16 = 0 then restart_list rs @ [of_nat (length (enc 0 [] rs))] else restart_list rs)"
proof -
  have same: "take (16 * j) (rs @ [r]) = take (16 * j) rs" if "j < (length rs + 15) div 16" for j
    using that by simp
  show ?thesis
  proof (cases "length rs mod 16 = 0")
    case True
    then obtain m where m: "length rs = 16 * m" by (auto simp: mod_eq_0_iff_dvd)
    then have "(length (rs @ [r]) + 15) div 16 = Suc m" "(length rs + 15) div 16 = m" by simp_all
    with m same True show ?thesis by (simp add: restart_list_def)
  next
    case False
    then have "(length (rs @ [r]) + 15) div 16 = (length rs + 15) div 16" using div_round_up_Suc by simp
    with same False show ?thesis by (simp add: restart_list_def)
  qed
qed

lemma block_add_ok:
  assumes "rec_fits r"
  shows "block_add (rec_key r) (rec_value r) (rec_seqno r) (rec_op r) (builder_of rs) = Inr (builder_of (rs @ [r]))"
proof -
  define s where "s = shared_at (length rs) (key_before [] rs) r"
  have s: "s \<le> length (rec_key r)" unfolding s_def by (rule shared_at_le)
  let ?out = "enc 0 [] rs" and ?k = "length (rec_key r) - s" and ?v = "length (rec_value r)"
  have fits: "s < 2 ^ 32" "?k < 2 ^ 32" "?v < 2 ^ 32" using assms s unfolding rec_fits_def by linarith+
  obtain s1 where s1: "length s1 = 5" "push_varint s (replicate 5 0, ?out) = Inr (s1, ?out @ leb128 s)"
    using push_varint_ok [OF fits(1)] by (metis length_replicate)
  obtain s2 where s2: "length s2 = 5" "push_varint ?k (s1, ?out @ leb128 s) = Inr (s2, (?out @ leb128 s) @ leb128 ?k)"
    using push_varint_ok [OF fits(2) s1(1)] by blast
  obtain s3 where s3: "push_varint ?v (s2, (?out @ leb128 s) @ leb128 ?k) = Inr (s3, ((?out @ leb128 s) @ leb128 ?k) @ leb128 ?v)"
    using push_varint_ok [OF fits(3) s2(1)] by blast
  define b where "b = (if length rs mod 16 = 0 then (builder_of rs)\<lparr>bld_restarts := restart_list (rs @ [r]), bld_counter := 0\<rparr>
     else builder_of rs)"
  have step: "(if bld_counter (builder_of rs) < RESTART_INTERVAL
        then (shared_prefix_len (bld_last_key (builder_of rs)) (rec_key r), builder_of rs)
        else (0, (builder_of rs)\<lparr>bld_restarts := bld_restarts (builder_of rs) @ [of_nat (length (bld_buffer (builder_of rs)))],
                   bld_counter := 0\<rparr>)) = (s, b)"
    using counter_less [of rs] restart_list_snoc [of rs r]
    by (cases "rs = []") (simp_all add: builder_of_def RESTART_INTERVAL_def s_def shared_at_def b_def)
  have buf: "bld_buffer b = ?out" by (simp add: b_def builder_of_def)
  have enc_snoc: "enc 0 [] (rs @ [r]) = ?out @ rec_bytes s r" by (simp add: enc_append s_def)
  have counter: "bld_counter b = length rs mod 16"
    by (cases "rs = []"; cases "length rs") (simp_all add: b_def builder_of_def mod_Suc)
  have "b\<lparr>bld_buffer := (((?out @ leb128 s) @ leb128 ?k) @ leb128 ?v) @ u64_to_le (rec_seqno r) @ [record_op_byte (rec_op r)] @
        drop s (rec_key r) @ rec_value r, bld_last_key := rec_key r, bld_counter := bld_counter b + 1\<rparr> = builder_of (rs @ [r])"
    using enc_snoc counter restart_list_snoc [of rs r] by (simp add: builder_of_def b_def rec_bytes_def)
  then show ?thesis
    unfolding block_add_def step Let_def prod.case buf MAX_VARINT_U32_BYTES_def
    using s s1(2) s2(2) s3 by simp
qed

definition block_body :: "block_record list \<Rightarrow> bytes" where
  "block_body rs = enc 0 [] rs @ concat (map u32_to_le (restart_list rs)) @ u32_to_le (of_nat (length (restart_list rs)))"

definition block_bytes :: "externs \<Rightarrow> block_record list \<Rightarrow> bytes" where
  "block_bytes E rs = block_body rs @ u32_to_le (crc32c_hash E (block_body rs))"

lemma length_restart_list: "length (restart_list rs) = (length rs + 15) div 16"
  by (simp add: restart_list_def)

lemma length_concat_u32 [simp]: "length (concat (map u32_to_le ws)) = 4 * length ws"
  by (induction ws) simp_all

lemma block_finish_ok:
  assumes "length rs < 2 ^ 32"
  shows "block_finish E (builder_of rs) = Inr (builder_of [], block_bytes E rs)"
proof -
  have "length (restart_list rs) < 2 ^ 32" using assms by (simp add: length_restart_list)
  then show ?thesis
    by (simp add: block_finish_def Let_def builder_of_def block_bytes_def block_body_def restart_list_def RESTART_INTERVAL_def)
qed

lemma estimated_size_builder: "estimated_size (builder_of rs) = length (block_bytes E rs)"
  by (simp add: estimated_size_def builder_of_def block_bytes_def block_body_def BLOCK_TRAILER_SIZE_def)

lemma block_is_empty_builder: "block_is_empty (builder_of rs) \<longleftrightarrow> rs = []"
  by (cases rs) (simp_all add: block_is_empty_def builder_of_def)

definition reader_of :: "block_record list \<Rightarrow> block_reader" where
  "reader_of rs = \<lparr>br_records = enc 0 [] rs, br_restart_bytes = concat (map u32_to_le (restart_list rs))\<rparr>"

lemma block_open_ok:
  assumes "length rs < 2 ^ 32"
  shows "block_open E (block_bytes E rs) = Inr (reader_of rs)"
proof -
  let ?n = "length (restart_list rs)"
  have n: "unat (of_nat ?n :: u32) = ?n" using assms by (simp add: length_restart_list unat_of_nat_less)
  let ?bs = "block_bytes E rs" and ?c = "u32_to_le (crc32c_hash E (block_body rs))"
  have len: "length ?bs = length (enc 0 [] rs) + 4 * ?n + 8" by (simp add: block_bytes_def block_body_def)
  have "drop (length ?bs - 4) ?bs = ?c" "take (length ?bs - 4) ?bs = block_body rs" by (simp_all add: block_bytes_def)
  moreover have "take 4 (drop (length ?bs - 8) ?bs) = u32_to_le (of_nat ?n)"
    by (simp add: block_bytes_def block_body_def)
  moreover have "take (length ?bs - 8 - ?n * 4) ?bs = enc 0 [] rs"
    "take (?n * 4) (drop (length ?bs - 8 - ?n * 4) ?bs) = concat (map u32_to_le (restart_list rs))"
    by (simp_all add: block_bytes_def block_body_def)
  moreover have "\<not> 2 ^ 64 \<le> ?n * 4" using assms by (simp add: length_restart_list)
  ultimately show ?thesis
    unfolding block_open_def Let_def BLOCK_TRAILER_SIZE_def using n len by (simp add: reader_of_def)
qed

section \<open>The iterator\<close>

lemma decode_len: "n < 2 ^ 32 \<Longrightarrow> decode_u32 (leb128 n @ rest) = Inr (of_nat n, length (leb128 n))"
  using decode_u32_leb128 [of "of_nat n" rest] by (simp add: unat_of_nat_less)

lemma decode_lengths_rec:
  assumes "rec_fits r" "s \<le> length (rec_key r)"
  shows "decode_lengths (rec_bytes s r @ post) =
    Some (of_nat s, of_nat (length (rec_key r) - s), of_nat (length (rec_value r)),
      length (leb128 s) + length (leb128 (length (rec_key r) - s)) + length (leb128 (length (rec_value r))))"
proof -
  have "s < 2 ^ 32" "length (rec_key r) - s < 2 ^ 32" "length (rec_value r) < 2 ^ 32"
    using assms unfolding rec_fits_def by linarith+
  then show ?thesis by (simp add: decode_lengths_def rec_bytes_def decode_len)
qed

lemma length_rec_bytes:
  "length (rec_bytes s r) = length (leb128 s) + length (leb128 (length (rec_key r) - s)) +
     length (leb128 (length (rec_value r))) + 9 + (length (rec_key r) - s) + length (rec_value r)"
  by (simp add: rec_bytes_def)

lemma block_next_rec:
  assumes "rec_fits r" "s \<le> length (rec_key r)" "take s l = take s (rec_key r)"
  shows "block_next \<lparr>bi_records = pre @ rec_bytes s r @ post, bi_cursor = length pre, bi_last_key = l\<rparr> =
    Some (r, \<lparr>bi_records = pre @ rec_bytes s r @ post, bi_cursor = length pre + length (rec_bytes s r), bi_last_key = rec_key r\<rparr>)"
proof -
  define k v where "k = length (rec_key r) - s" "v = length (rec_value r)"
  define hd where "hd = leb128 s @ leb128 k @ leb128 v"
  define c where "c = length hd"
  define rs where "rs = pre @ rec_bytes s r @ post"
  have dl: "decode_lengths (rec_bytes s r @ post) = Some (of_nat s, of_nat k, of_nat v, c)"
    unfolding decode_lengths_rec [OF assms(1,2)] c_def hd_def k_v_def by simp
  have "s < 2 ^ 32" "k < 2 ^ 32" "v < 2 ^ 32" using assms(1,2) unfolding rec_fits_def k_v_def by linarith+
  then have un: "unat (of_nat s :: u32) = s" "unat (of_nat k :: u32) = k" "unat (of_nat v :: u32) = v"
    by (simp_all add: unat_of_nat_less)
  have rb: "rec_bytes s r = hd @ u64_to_le (rec_seqno r) @ [record_op_byte (rec_op r)] @ drop s (rec_key r) @ rec_value r"
    by (simp add: rec_bytes_def hd_def k_v_def)
  have len: "length (rec_bytes s r) = c + 9 + k + v" by (simp add: rb c_def k_v_def)
  have cur: "drop (length pre) rs = rec_bytes s r @ post" "length rs = length pre + (c + 9 + k + v) + length post"
    by (simp_all add: rs_def len)
  have parts: "take 8 (drop c (rec_bytes s r @ post)) = u64_to_le (rec_seqno r)"
    "(rec_bytes s r @ post) ! (c + 8) = record_op_byte (rec_op r)"
    "take k (drop (length pre + (c + 8 + 1)) rs) = drop s (rec_key r)"
    "take v (drop (length pre + (c + 8 + 1) + k) rs) = rec_value r"
    unfolding rs_def by (simp_all add: rb c_def k_v_def nth_append)
  have "take s l @ drop s (rec_key r) = rec_key r" using assms(3) by simp
  then show ?thesis
    unfolding rs_def [symmetric] block_next_def Let_def block_iter.simps cur(1) dl bind.bind_lunit prod.case un parts record_op_round_trip
    using cur(2) by (simp add: len)
qed

lemma shared_at_take:
  "i mod 16 = 0 \<or> l = k \<Longrightarrow> take (shared_at i k r) l = take (shared_at i k r) (rec_key r)"
  using shared_prefix_len_take by (auto simp: shared_at_def)

lemma block_collect_enc:
  assumes "list_all rec_fits rs" "i mod 16 = 0 \<or> l = k"
  shows "block_collect \<lparr>bi_records = pre @ enc i k rs, bi_cursor = length pre, bi_last_key = l\<rparr> = rs"
  using assms
proof (induction rs arbitrary: pre i k l)
  case Nil
  then show ?case by (subst block_collect.simps) (simp add: block_next_def)
next
  case (Cons r rs)
  let ?s = "shared_at i k r"
  have "block_next \<lparr>bi_records = pre @ rec_bytes ?s r @ enc (Suc i) (rec_key r) rs, bi_cursor = length pre, bi_last_key = l\<rparr> =
    Some (r, \<lparr>bi_records = (pre @ rec_bytes ?s r) @ enc (Suc i) (rec_key r) rs,
              bi_cursor = length (pre @ rec_bytes ?s r), bi_last_key = rec_key r\<rparr>)"
    using block_next_rec [OF _ shared_at_le shared_at_take [OF Cons.prems(2)]] Cons.prems(1) by simp
  moreover have "block_collect \<lparr>bi_records = (pre @ rec_bytes ?s r) @ enc (Suc i) (rec_key r) rs,
      bi_cursor = length (pre @ rec_bytes ?s r), bi_last_key = rec_key r\<rparr> = rs"
    using Cons.prems(1) by (intro Cons.IH) simp_all
  ultimately show ?case by (subst block_collect.simps) simp
qed

lemma block_iterates:
  "list_all rec_fits rs \<Longrightarrow> block_collect (block_into_iter (reader_of rs)) = rs"
  using block_collect_enc [of rs 0 "[]" "[]" "[]"] by (simp add: block_into_iter_def reader_of_def)

section \<open>The search\<close>

lemma nth_concat_u32:
  "j < length ws \<Longrightarrow> take 4 (drop (4 * j) (concat (map u32_to_le ws))) = u32_to_le (ws ! j)"
proof (induction ws arbitrary: j)
  case (Cons w ws)
  then show ?case by (cases j) simp_all
qed simp

lemma num_restarts_reader: "num_restarts (reader_of rs) = (length rs + 15) div 16"
  by (simp add: num_restarts_def reader_of_def length_restart_list)

lemma length_enc_take: "length (enc 0 [] (take n rs)) \<le> length (enc 0 [] rs)"
  using enc_append [of 0 "[]" "take n rs" "drop n rs"] by simp

lemma restart_offset_ok:
  assumes "length (enc 0 [] rs) < 2 ^ 32" "j < (length rs + 15) div 16"
  shows "restart_offset (reader_of rs) j = Inr (length (enc 0 [] (take (16 * j) rs)))"
proof -
  have j: "j < length (restart_list rs)" using assms(2) by (simp add: length_restart_list)
  have "restart_list rs ! j = of_nat (length (enc 0 [] (take (16 * j) rs)))"
    using assms(2) by (simp add: restart_list_def)
  moreover have "length (enc 0 [] (take (16 * j) rs)) < 2 ^ 32" using length_enc_take [of "16 * j" rs] assms(1) by simp
  ultimately have "unat (restart_list rs ! j) = length (enc 0 [] (take (16 * j) rs))" by (simp add: unat_of_nat_less)
  then show ?thesis using nth_concat_u32 [OF j] j
    by (simp add: restart_offset_def reader_of_def mult.commute [of j])
qed

lemma enc_split:
  assumes "16 * j < length rs"
  shows "enc 0 [] rs = enc 0 [] (take (16 * j) rs) @ rec_bytes 0 (rs ! (16 * j)) @
    enc (Suc (16 * j)) (rec_key (rs ! (16 * j))) (drop (Suc (16 * j)) rs)"
proof -
  have "rs = take (16 * j) rs @ rs ! (16 * j) # drop (Suc (16 * j)) rs" using assms by (simp add: id_take_nth_drop)
  then have "enc 0 [] rs = enc 0 [] (take (16 * j) rs @ rs ! (16 * j) # drop (Suc (16 * j)) rs)" by simp
  then show ?thesis using assms by (simp add: enc_append shared_at_def)
qed

lemma key_at_restart_ok:
  assumes "list_all rec_fits rs" "16 * j < length rs"
  shows "key_at_restart (enc 0 [] rs) (length (enc 0 [] (take (16 * j) rs))) = Some (rec_key (rs ! (16 * j)))"
proof -
  let ?r = "rs ! (16 * j)"
  have fit: "rec_fits ?r" using assms by (auto simp: list_all_length)
  obtain post where post: "enc 0 [] rs = enc 0 [] (take (16 * j) rs) @ rec_bytes 0 ?r @ post"
    using enc_split [OF assms(2)] by blast
  have len: "length (rec_key ?r) < 2 ^ 32" "length (rec_value ?r) < 2 ^ 32" using fit by (simp_all add: rec_fits_def)
  have rb: "rec_bytes 0 ?r @ post = leb128 0 @ leb128 (length (rec_key ?r)) @ leb128 (length (rec_value ?r)) @
      u64_to_le (rec_seqno ?r) @ [record_op_byte (rec_op ?r)] @ rec_key ?r @ rec_value ?r @ post"
    by (simp add: rec_bytes_def)
  show ?thesis unfolding post key_at_restart_def Let_def
    using len by (simp add: rb decode_len unat_of_nat_less)
qed

definition restart_ok :: "block_record list \<Rightarrow> key \<Rightarrow> nat \<Rightarrow> bool" where
  "restart_ok rs target lo \<longleftrightarrow> lo = 0 \<or> rec_key (rs ! (16 * lo)) \<le> target"

lemma seek_restart_ok:
  assumes fits: "list_all rec_fits rs" "length (enc 0 [] rs) < 2 ^ 32"
  shows "lo < hi \<Longrightarrow> hi \<le> (length rs + 15) div 16 \<Longrightarrow> restart_ok rs target lo \<Longrightarrow>
    \<exists>j. seek_restart (reader_of rs) target lo hi = Inr (Some j) \<and> j < (length rs + 15) div 16 \<and> restart_ok rs target j"
proof (induction "reader_of rs" target lo hi rule: seek_restart.induct)
  case (1 target lo hi)
  show ?case
  proof (cases "lo + 1 < hi")
    case True
    let ?m = "lo + (hi - lo) div 2"
    have m: "lo < ?m" "?m < hi" "?m < (length rs + 15) div 16" "16 * ?m < length rs" using True "1.prems"(2) by auto
    note off = restart_offset_ok [OF fits(2) m(3)]
    note key = key_at_restart_ok [OF fits(1) m(4)]
    have rec: "br_records (reader_of rs) = enc 0 [] rs" by (simp add: reader_of_def)
    have step: "seek_restart (reader_of rs) target lo hi = (case cmp (rec_key (rs ! (16 * ?m))) target of
        Less \<Rightarrow> seek_restart (reader_of rs) target ?m hi | Equal \<Rightarrow> seek_restart (reader_of rs) target ?m (?m + 1)
      | Greater \<Rightarrow> seek_restart (reader_of rs) target lo ?m)"
      using True off key by (subst seek_restart.simps) (simp add: Let_def rec)
    show ?thesis
    proof (cases "cmp (rec_key (rs ! (16 * ?m))) target")
      case Less
      then have "restart_ok rs target ?m" unfolding restart_ok_def cmp_iff by (intro disjI2 less_imp_le)
      from "1.hyps"(1) [OF True refl off _ Less m(2) "1.prems"(2) this] key rec show ?thesis unfolding step Less ordering.case by simp
    next
      case Equal
      then have "restart_ok rs target ?m" unfolding restart_ok_def cmp_iff by (intro disjI2 eq_refl)
      from "1.hyps"(2) [OF True refl off _ Equal _ _ this] key rec m show ?thesis unfolding step Equal ordering.case by simp
    next
      case Greater
      from "1.hyps"(3) [OF True refl off _ Greater m(1) _ "1.prems"(3)] key rec m "1.prems"(2) show ?thesis unfolding step Greater ordering.case by simp
    qed
  next
    case False
    then have "seek_restart (reader_of rs) target lo hi = Inr (Some lo)" by (subst seek_restart.simps) simp
    with "1.prems" show ?thesis by auto
  qed
qed

lemma block_seek_from:
  assumes "list_all rec_fits rs" "length (enc 0 [] rs) < 2 ^ 32"
  shows "rs = [] \<and> block_seek (reader_of rs) target = Inr None \<or>
    (\<exists>j. 16 * j < length rs \<and> restart_ok rs target j \<and>
      seek_restart (reader_of rs) target 0 (num_restarts (reader_of rs)) = Inr (Some j) \<and>
      block_seek (reader_of rs) target = Inr (find (\<lambda>r. target \<le> rec_key r) (drop (16 * j) rs)))"
proof (cases "rs = []")
  case True
  then show ?thesis by (simp add: block_seek_def num_restarts_reader)
next
  case False
  then have n: "0 < (length rs + 15) div 16" by (cases rs) simp_all
  obtain j where j: "seek_restart (reader_of rs) target 0 ((length rs + 15) div 16) = Inr (Some j)"
    "j < (length rs + 15) div 16" "restart_ok rs target j"
    using seek_restart_ok [OF assms n order_refl] by (auto simp: restart_ok_def)
  have "enc 0 [] rs = enc 0 [] (take (16 * j) rs) @ enc (16 * j) (key_before [] (take (16 * j) rs)) (drop (16 * j) rs)"
    using enc_append [of 0 "[]" "take (16 * j) rs" "drop (16 * j) rs"] j(2) by simp
  moreover have "list_all rec_fits (drop (16 * j) rs)" using assms(1) by (simp add: list_all_iff in_set_dropD)
  ultimately have "block_collect \<lparr>bi_records = enc 0 [] rs, bi_cursor = length (enc 0 [] (take (16 * j) rs)), bi_last_key = []\<rparr> =
      drop (16 * j) rs" using block_collect_enc [of "drop (16 * j) rs" "16 * j"] by simp
  then have "block_seek (reader_of rs) target = Inr (find (\<lambda>r. target \<le> rec_key r) (drop (16 * j) rs))"
    unfolding block_seek_def Let_def num_restarts_reader j(1) and_then_simps option.case restart_offset_ok [OF assms(2) j(2)]
    using n by (simp add: reader_of_def)
  then show ?thesis using j by (auto simp: num_restarts_reader)
qed

text \<open>
  A run of versions of the target straddles a restart point when the record at the point and
  the one before it both have the target as key.
\<close>

definition no_straddle :: "block_record list \<Rightarrow> key \<Rightarrow> bool" where
  "no_straddle rs target \<longleftrightarrow> (\<forall>j. 0 < j \<and> 16 * j < length rs \<and> rec_key (rs ! (16 * j)) = target \<longrightarrow>
     rec_key (rs ! (16 * j - 1)) \<noteq> target)"

abbreviation keys_sorted :: "block_record list \<Rightarrow> bool" where
  "keys_sorted rs \<equiv> sorted_wrt (\<le>) (map rec_key rs)"

lemma find_append_none: "\<forall>x \<in> set xs. \<not> P x \<Longrightarrow> find P (xs @ ys) = find P ys"
  by (induction xs) auto

lemma find_drop:
  assumes "keys_sorted rs" "no_straddle rs target" "restart_ok rs target j" "16 * j < length rs"
  shows "find (\<lambda>r. target \<le> rec_key r) (drop (16 * j) rs) = find (\<lambda>r. target \<le> rec_key r) rs"
proof (cases "j = 0")
  case False
  have le: "rec_key (rs ! a) \<le> rec_key (rs ! b)" if "a \<le> b" "b < length rs" for a b
    using assms(1) sorted_nth_mono [of "map rec_key rs" a b] that by simp
  have j: "rec_key (rs ! (16 * j)) \<le> target" using assms(3) False by (simp add: restart_ok_def)
  have prev: "rec_key (rs ! (16 * j - 1)) \<le> rec_key (rs ! (16 * j))" by (rule le) (use assms(4) in simp_all)
  have "rec_key (rs ! (16 * j - 1)) \<noteq> target"
  proof
    assume eq: "rec_key (rs ! (16 * j - 1)) = target"
    with prev j have "rec_key (rs ! (16 * j)) = target" by (metis order.antisym)
    with assms(2,4) False eq show False unfolding no_straddle_def by blast
  qed
  moreover have "rec_key (rs ! (16 * j - 1)) \<le> target" using prev j by (rule order_trans)
  ultimately have last: "rec_key (rs ! (16 * j - 1)) < target" by (simp add: order.strict_iff_order)
  have "\<not> target \<le> rec_key x" if x: "x \<in> set (take (16 * j) rs)" for x
  proof -
    obtain a where a: "a < 16 * j" "x = rs ! a" using x assms(4) by (auto simp: in_set_conv_nth)
    have "rec_key (rs ! a) \<le> rec_key (rs ! (16 * j - 1))" by (rule le) (use a(1) assms(4) in simp_all)
    then show ?thesis using last a(2) by (simp add: not_le le_less_trans)
  qed
  then show ?thesis using find_append_none [of "take (16 * j) rs" "\<lambda>r. target \<le> rec_key r" "drop (16 * j) rs"] by simp
qed simp

lemma block_seek_ok:
  assumes "list_all rec_fits rs" "length (enc 0 [] rs) < 2 ^ 32" "keys_sorted rs" "no_straddle rs target"
  shows "block_seek (reader_of rs) target = Inr (find (\<lambda>r. target \<le> rec_key r) rs)"
  using block_seek_from [OF assms(1,2), of target] find_drop [OF assms(3,4)] by auto

section \<open>Properties\<close>

fun block_add_all :: "block_record list \<Rightarrow> block_builder \<Rightarrow> block_builder result" where
  "block_add_all [] b = Inr b"
| "block_add_all (r # rs) b =
     and_then (block_add (rec_key r) (rec_value r) (rec_seqno r) (rec_op r) b) (block_add_all rs)"

lemma block_add_all_ok:
  "list_all rec_fits rs \<Longrightarrow> block_add_all rs (builder_of xs) = Inr (builder_of (xs @ rs))"
  by (induction rs arbitrary: xs) (simp_all add: block_add_ok)

lemma length_rec_bytes_le:
  assumes "rec_fits r" "s \<le> length (rec_key r)"
  shows "length (rec_bytes s r) \<le> 24 + length (rec_key r) + length (rec_value r)"
proof -
  have "length (leb128 n) \<le> 5" if "n < 2 ^ 32" for n
    using length_leb128_u32 [of "of_nat n"] that by (simp add: unat_of_nat_less)
  moreover have "s < 2 ^ 32" "length (rec_key r) - s < 2 ^ 32" "length (rec_value r) < 2 ^ 32"
    using assms unfolding rec_fits_def by linarith+
  ultimately have "length (leb128 s) \<le> 5" "length (leb128 (length (rec_key r) - s)) \<le> 5" "length (leb128 (length (rec_value r))) \<le> 5"
    by blast+
  then show ?thesis unfolding length_rec_bytes by linarith
qed

lemma length_enc_le:
  "list_all rec_fits rs \<Longrightarrow> length (enc i l rs) \<le> (\<Sum>r\<leftarrow>rs. 24 + length (rec_key r) + length (rec_value r))"
proof (induction rs arbitrary: i l)
  case (Cons r rs)
  then have "length (rec_bytes (shared_at i l r) r) \<le> 24 + length (rec_key r) + length (rec_value r)"
    "length (enc (Suc i) (rec_key r) rs) \<le> (\<Sum>r\<leftarrow>rs. 24 + length (rec_key r) + length (rec_value r))"
    using length_rec_bytes_le [OF _ shared_at_le] by simp_all
  then show ?case by (simp only: enc.simps length_append list.map sum_list.Cons add_mono)
qed simp

text \<open>
  C16. Block round trip: any records whose keys and values are shorter than 4 GiB can be added;
  the finished block has the size the builder estimated, opens, and iterates to exactly these
  records; the builder is fresh again.
\<close>

theorem block_round_trip:
  assumes "list_all rec_fits rs" "length rs < 2 ^ 32"
  shows "\<exists>b bs r. block_add_all rs block_builder_new = Inr b \<and> block_finish E b = Inr (block_builder_new, bs) \<and>
    length bs = estimated_size b \<and> block_open E bs = Inr r \<and> block_collect (block_into_iter r) = rs"
  using block_add_all_ok [OF assms(1), of "[]"] block_finish_ok [OF assms(2)] block_open_ok [OF assms(2)]
    block_iterates [OF assms(1)] estimated_size_builder by simp

theorem block_round_trip_witness:
  "\<forall>E. \<exists>b bs r. block_add_all [\<lparr>rec_key = [1, 2], rec_value = [7], rec_seqno = 3, rec_op = RPut\<rparr>,
       \<lparr>rec_key = [1, 3], rec_value = [], rec_seqno = 4, rec_op = RTombstone\<rparr>] block_builder_new = Inr b \<and>
     block_finish E b = Inr (block_builder_new, bs) \<and> block_open E bs = Inr r \<and>
     block_collect (block_into_iter r) = [\<lparr>rec_key = [1, 2], rec_value = [7], rec_seqno = 3, rec_op = RPut\<rparr>,
       \<lparr>rec_key = [1, 3], rec_value = [], rec_seqno = 4, rec_op = RTombstone\<rparr>]" (is "\<forall>E. ?P E")
proof
  fix E
  have "list_all rec_fits [\<lparr>rec_key = [1, 2], rec_value = [7], rec_seqno = 3, rec_op = RPut\<rparr>,
      \<lparr>rec_key = [1, 3], rec_value = [], rec_seqno = 4, rec_op = RTombstone\<rparr>]" by (simp add: rec_fits_def)
  from block_round_trip [OF this, of E] show "?P E" by (simp only: list.size) auto
qed

text \<open>
  C17. The search is correct on sorted records when no run of versions of the target straddles
  a restart point: it returns the first record whose key is not below the target.
\<close>

theorem block_seek_correct:
  assumes "list_all rec_fits rs" "length rs < 2 ^ 32" "keys_sorted rs" "no_straddle rs target"
    and "block_add_all rs block_builder_new = Inr b" "estimated_size b < 2 ^ 32"
  shows "\<exists>bs r. block_finish E b = Inr (block_builder_new, bs) \<and> block_open E bs = Inr r \<and>
    block_seek r target = Inr (find (\<lambda>r. target \<le> rec_key r) rs)"
proof -
  have b: "b = builder_of rs" using assms(5) block_add_all_ok [OF assms(1), of "[]"] by simp
  then have "length (enc 0 [] rs) < 2 ^ 32" using assms(6) by (simp add: estimated_size_def builder_of_def)
  then show ?thesis unfolding b
    using block_finish_ok [OF assms(2)] block_open_ok [OF assms(2)] block_seek_ok [OF assms(1) _ assms(3,4)] by simp
qed

theorem block_seek_correct_witness:
  "\<forall>E. \<exists>b bs r. block_add_all [\<lparr>rec_key = [1], rec_value = [7], rec_seqno = 3, rec_op = RPut\<rparr>,
       \<lparr>rec_key = [4], rec_value = [], rec_seqno = 4, rec_op = RTombstone\<rparr>] block_builder_new = Inr b \<and>
     block_finish E b = Inr (block_builder_new, bs) \<and> block_open E bs = Inr r \<and>
     block_seek r [2] = Inr (Some \<lparr>rec_key = [4], rec_value = [], rec_seqno = 4, rec_op = RTombstone\<rparr>)" (is "\<forall>E. ?P E")
proof
  fix E
  let ?rs = "[\<lparr>rec_key = [1], rec_value = [7], rec_seqno = 3, rec_op = RPut\<rparr>,
       \<lparr>rec_key = [4], rec_value = [], rec_seqno = 4, rec_op = RTombstone\<rparr>]"
  have fits: "list_all rec_fits ?rs" by (simp add: rec_fits_def)
  have add: "block_add_all ?rs block_builder_new = Inr (builder_of ?rs)" using block_add_all_ok [OF fits, of "[]"] by simp
  have "length (enc 0 [] ?rs) \<le> 51" using length_enc_le [OF fits, of 0 "[]"] by simp
  moreover have "length (restart_list ?rs) = 1" by (simp add: length_restart_list)
  ultimately have "estimated_size (builder_of ?rs) < 2 ^ 32"
    by (simp add: estimated_size_def builder_of_def BLOCK_TRAILER_SIZE_def)
  moreover have "find (\<lambda>r. [2] \<le> rec_key r) ?rs = Some (?rs ! 1)" by simp
  moreover have "length ?rs < 2 ^ 32" "keys_sorted ?rs" "no_straddle ?rs [2]" by (simp_all add: no_straddle_def)
  ultimately show "?P E"
    using block_seek_correct [OF fits _ _ _ add, of "[2]" E] add by (metis One_nat_def nth_Cons_0 nth_Cons_Suc)
qed

lemma block_seek_straddle:
  assumes "list_all rec_fits rs" "length (enc 0 [] rs) < 2 ^ 32" "16 < length rs" "length rs \<le> 32" "rec_key (rs ! 16) = target"
  shows "block_seek (reader_of rs) target = Inr (Some (rs ! 16))"
proof -
  have n: "(length rs + 15) div 16 = 2" using assms(3,4) by simp
  have "seek_restart (reader_of rs) target 0 2 = seek_restart (reader_of rs) target 1 2"
    using restart_offset_ok [OF assms(2), of 1] key_at_restart_ok [OF assms(1), of 1] assms(3,5) n
    by (subst seek_restart.simps) (simp add: reader_of_def numeral_2_eq_2)
  then have "seek_restart (reader_of rs) target 0 2 = Inr (Some 1)" by (subst (asm) (2) seek_restart.simps) simp
  then have "block_seek (reader_of rs) target = Inr (find (\<lambda>r. target \<le> rec_key r) (drop 16 rs))"
    using block_seek_from [OF assms(1,2), of target] assms(3) n by (auto simp: num_restarts_reader)
  moreover have "drop 16 rs = rs ! 16 # drop 17 rs" using Cons_nth_drop_Suc [of 16 rs] assms(3) by simp
  ultimately show ?thesis using assms(5) by simp
qed

text \<open>
  C18. The search skips newer versions: in a block with two restart points, whenever the
  seventeenth record has the target as key, it is what the search returns, even if the records
  before it are newer versions of the same key.
\<close>

theorem block_seek_skips_newer:
  assumes "list_all rec_fits rs" "16 < length rs" "length rs \<le> 32" "rec_key (rs ! 16) = target"
    and "block_add_all rs block_builder_new = Inr b" "estimated_size b < 2 ^ 32"
  shows "\<exists>bs r. block_finish E b = Inr (block_builder_new, bs) \<and> block_open E bs = Inr r \<and>
    block_seek r target = Inr (Some (rs ! 16))"
proof -
  have b: "b = builder_of rs" using assms(5) block_add_all_ok [OF assms(1), of "[]"] by simp
  then have enc: "length (enc 0 [] rs) < 2 ^ 32" using assms(6) by (simp add: estimated_size_def builder_of_def)
  have "length rs < 2 ^ 32" using assms(3) by simp
  then show ?thesis unfolding b
    using block_finish_ok block_open_ok block_seek_straddle [OF assms(1) enc assms(2-4)] by simp
qed

definition many_versions :: "nat \<Rightarrow> block_record list" where
  "many_versions n = map (\<lambda>i. \<lparr>rec_key = [1], rec_value = [of_nat (n - i)], rec_seqno = of_nat (n - i), rec_op = RPut\<rparr>) [0..<n]"

theorem block_seek_skips_newer_witness:
  "\<forall>E. \<exists>b bs r. block_add_all (many_versions 17) block_builder_new = Inr b \<and>
     block_finish E b = Inr (block_builder_new, bs) \<and> block_open E bs = Inr r \<and>
     rec_seqno (hd (many_versions 17)) = 17 \<and>
     block_seek r [1] = Inr (Some \<lparr>rec_key = [1], rec_value = [1], rec_seqno = 1, rec_op = RPut\<rparr>)" (is "\<forall>E. ?P E")
proof
  fix E
  have fits: "list_all rec_fits (many_versions 17)" by (simp add: many_versions_def list_all_iff rec_fits_def)
  have add: "block_add_all (many_versions 17) block_builder_new = Inr (builder_of (many_versions 17))"
    using block_add_all_ok [OF fits, of "[]"] by simp
  have "(\<Sum>r\<leftarrow>many_versions 17. 24 + length (rec_key r) + length (rec_value r)) = 17 * 26"
    by (simp add: many_versions_def comp_def sum_list_triv)
  then have "length (enc 0 [] (many_versions 17)) \<le> 17 * 26" using length_enc_le [OF fits, of 0 "[]"] by simp
  moreover have len: "length (many_versions 17) = 17" by (simp add: many_versions_def)
  then have "length (restart_list (many_versions 17)) = 2" by (simp add: length_restart_list)
  ultimately have "estimated_size (builder_of (many_versions 17)) < 2 ^ 32"
    by (simp add: estimated_size_def builder_of_def BLOCK_TRAILER_SIZE_def)
  moreover have "many_versions 17 ! 16 = \<lparr>rec_key = [1], rec_value = [1], rec_seqno = 1, rec_op = RPut\<rparr>"
    by (simp add: many_versions_def)
  moreover have "rec_seqno (hd (many_versions 17)) = 17" by (simp add: many_versions_def upt_rec)
  ultimately show "?P E"
    using block_seek_skips_newer [OF fits _ _ _ add, of "[1]" E] add len by auto
qed

lemma restart_offset_total: "j < num_restarts r \<Longrightarrow> \<exists>x. restart_offset r j = Inr x"
  by (auto simp: restart_offset_def num_restarts_def)

lemma seek_restart_total:
  "lo < hi \<Longrightarrow> hi \<le> num_restarts r \<Longrightarrow>
     \<exists>x. seek_restart r target lo hi = Inr x \<and> (\<forall>j. x = Some j \<longrightarrow> j < num_restarts r)"
proof (induction r target lo hi rule: seek_restart.induct)
  case (1 r target lo hi)
  show ?case
  proof (cases "lo + 1 < hi")
    case True
    let ?m = "lo + (hi - lo) div 2"
    have m: "lo < ?m" "?m < hi" using True by auto
    then obtain x where x: "restart_offset r ?m = Inr x" using restart_offset_total [of ?m r] "1.prems"(2) by auto
    show ?thesis
    proof (cases "key_at_restart (br_records r) x")
      case None
      then show ?thesis using True x by (subst seek_restart.simps) (simp add: Let_def)
    next
      case (Some k)
      have step: "seek_restart r target lo hi = (case cmp k target of Less \<Rightarrow> seek_restart r target ?m hi
          | Equal \<Rightarrow> seek_restart r target ?m (?m + 1) | Greater \<Rightarrow> seek_restart r target lo ?m)"
        using True x Some by (subst seek_restart.simps) (simp add: Let_def)
      have le: "?m + 1 \<le> num_restarts r" "?m \<le> num_restarts r" using m "1.prems"(2) by simp_all
      show ?thesis
      proof (cases "cmp k target")
        case Less
        show ?thesis unfolding step Less ordering.case by (rule "1.IH"(1) [OF True refl x Some Less m(2) "1.prems"(2)])
      next
        case Equal
        show ?thesis unfolding step Equal ordering.case by (rule "1.IH"(2) [OF True refl x Some Equal _ le(1)]) simp
      next
        case Greater
        show ?thesis unfolding step Greater ordering.case by (rule "1.IH"(3) [OF True refl x Some Greater m(1) le(2)])
      qed
    qed
  next
    case False
    then show ?thesis using "1.prems" by (subst seek_restart.simps) simp
  qed
qed

lemma no_panic_block_open: "no_panic (block_open E bs)"
  by (simp add: block_open_def Let_def invalid_format_static_def)

lemma no_panic_block_seek: "no_panic (block_seek r target)"
proof (cases "num_restarts r = 0")
  case False
  then obtain x where x: "seek_restart r target 0 (num_restarts r) = Inr x" "\<forall>j. x = Some j \<longrightarrow> j < num_restarts r"
    using seek_restart_total [of 0 "num_restarts r" r target] by auto
  show ?thesis
  proof (cases x)
    case (Some j)
    then obtain off where "restart_offset r j = Inr off" using x(2) restart_offset_total by blast
    then show ?thesis using False x(1) Some by (simp add: block_seek_def Let_def)
  qed (use False x(1) in \<open>simp add: block_seek_def Let_def\<close>)
qed (simp add: block_seek_def)


end
