(* ===== verification/AlignedBuf.thy ===== *)
theory AlignedBuf
  imports Arena Externs
begin

text \<open>
  Aligned heap buffers and their pool, \<^verbatim>\<open>crates/paddock-core/src/io/aligned_buf.rs\<close>.  A buffer
  is its address, its bytes and its alignment.  The allocator is the field \<open>ext_alloc\<close>; the
  hypothesis \<open>allocates\<close> says that it serves every layout the language accepts with an aligned
  address.  Freeing on drop is left out.
\<close>

definition PAGE_SIZE :: nat where "PAGE_SIZE = 4096"

record aligned_buf =
  ab_ptr :: nat
  ab_bytes :: bytes
  ab_align :: nat

abbreviation ab_len :: "aligned_buf \<Rightarrow> nat" where
  "ab_len b \<equiv> length (ab_bytes b)"

definition buf_round_up :: "nat \<Rightarrow> nat \<Rightarrow> nat" where
  "buf_round_up v multiple =
     (let r = v mod multiple in if r = 0 then v else v + (multiple - r))"

text \<open>\<^verbatim>\<open>Layout::from_size_align\<close>: the rounded size must not exceed \<^verbatim>\<open>isize::MAX\<close>.\<close>

definition layout_ok :: "nat \<Rightarrow> nat \<Rightarrow> bool" where
  "layout_ok sz align \<longleftrightarrow> is_power_of_two align \<and> sz + align \<le> 2 ^ 63"

definition allocates :: "externs \<Rightarrow> bool" where
  "allocates E \<longleftrightarrow>
     (\<forall>sz align. 0 < sz \<and> layout_ok sz align \<longrightarrow> (\<exists>p. ext_alloc E sz align = Some p \<and> align dvd p))"

lemma buf_round_up_bounds:
  "0 < m \<Longrightarrow> m dvd buf_round_up v m \<and> v \<le> buf_round_up v m \<and> buf_round_up v m < v + m"
  using round_up_bounds [of m v] round_up_dvd [of m v] by (simp only: buf_round_up_def round_up_def)

lemma buf_round_up_zero: "0 < m \<Longrightarrow> buf_round_up v m = 0 \<longleftrightarrow> v = 0"
  using buf_round_up_bounds [of m v] by (auto simp: buf_round_up_def)

lemma buf_round_up_multiple: "m dvd v \<Longrightarrow> buf_round_up v m = v"
  by (simp add: buf_round_up_def dvd_eq_mod_eq_0)

function with_alignment :: "externs \<Rightarrow> nat \<Rightarrow> nat \<Rightarrow> aligned_buf option result" where
  "with_alignment E len align =
     (if \<not> is_power_of_two align then Inl (Panic ''alignment must be a power of two'')
      else let rounded = buf_round_up len align in
        if rounded = 0 then with_alignment E align align
        else if \<not> layout_ok rounded align then Inr None
        else case ext_alloc E rounded align of
               None \<Rightarrow> Inr None
             | Some p \<Rightarrow> Inr (Some \<lparr>ab_ptr = p, ab_bytes = replicate rounded 0, ab_align = align\<rparr>))"
  by pat_completeness auto

termination
  by (relation "measure (\<lambda>(E, len, align). if len = 0 then 1 else 0)")
     (auto simp: buf_round_up_zero dest: power_of_two_pos)

declare with_alignment.simps [simp del]

definition aligned_buf_new :: "externs \<Rightarrow> nat \<Rightarrow> aligned_buf option result" where
  "aligned_buf_new E len = with_alignment E len PAGE_SIZE"

section \<open>The pool\<close>

record buffer_pool =
  bp_free :: "aligned_buf list"
  bp_buf_size :: nat
  bp_align :: nat
  bp_capacity :: nat

definition buffer_pool_new :: "nat \<Rightarrow> nat \<Rightarrow> nat \<Rightarrow> buffer_pool" where
  "buffer_pool_new buf_size align capacity =
     \<lparr>bp_free = [], bp_buf_size = buf_size, bp_align = align, bp_capacity = capacity\<rparr>"

definition for_sstable_blocks :: buffer_pool where
  "for_sstable_blocks = buffer_pool_new (16 * 1024) PAGE_SIZE 64"

text \<open>The free list is a vector used as a stack: its last element is taken first.\<close>

definition acquire :: "externs \<Rightarrow> buffer_pool \<Rightarrow> buffer_pool \<times> aligned_buf option result" where
  "acquire E p =
     (if bp_free p = [] then (p, with_alignment E (bp_buf_size p) (bp_align p))
      else (p\<lparr>bp_free := butlast (bp_free p)\<rparr>, Inr (Some (last (bp_free p)))))"

definition release :: "aligned_buf \<Rightarrow> buffer_pool \<Rightarrow> buffer_pool" where
  "release b p =
     (if length (bp_free p) < bp_capacity p \<and> ab_len b = bp_buf_size p \<and> ab_align b = bp_align p
      then p\<lparr>bp_free := bp_free p @ [b]\<rparr> else p)"

definition idle_count :: "buffer_pool \<Rightarrow> nat" where
  "idle_count p = length (bp_free p)"

section \<open>Facts\<close>

text \<open>A buffer is well-formed when its address and its length are multiples of the alignment.\<close>

definition buf_wf :: "aligned_buf \<Rightarrow> bool" where
  "buf_wf b \<longleftrightarrow> is_power_of_two (ab_align b) \<and> ab_align b dvd ab_ptr b \<and> ab_align b dvd ab_len b \<and> 0 < ab_len b"

lemma with_alignment_pos:
  assumes "allocates E" "is_power_of_two align" "0 < len" "len + 2 * align \<le> 2 ^ 63"
  shows "\<exists>p. with_alignment E len align =
      Inr (Some \<lparr>ab_ptr = p, ab_bytes = replicate (buf_round_up len align) 0, ab_align = align\<rparr>) \<and> align dvd p"
proof -
  have pos: "0 < align" using assms(2) by blast
  have "0 < buf_round_up len align" "layout_ok (buf_round_up len align) align"
    using buf_round_up_bounds [OF pos, of len] assms by (auto simp: layout_ok_def)
  then obtain p where "ext_alloc E (buf_round_up len align) align = Some p" "align dvd p"
    using assms(1) by (auto simp: allocates_def)
  then show ?thesis using assms(2) \<open>0 < buf_round_up len align\<close> \<open>layout_ok _ _\<close>
    by (subst with_alignment.simps) (simp add: Let_def)
qed

lemma with_alignment_ok:
  assumes "allocates E" "is_power_of_two align" "len + 2 * align \<le> 2 ^ 62"
  shows "\<exists>b. with_alignment E len align = Inr (Some b) \<and> buf_wf b \<and> ab_align b = align \<and> len \<le> ab_len b \<and>
    ab_bytes b = replicate (ab_len b) 0"
proof (cases "len = 0")
  case True
  have pos: "0 < align" using assms(2) by blast
  have "with_alignment E len align = with_alignment E align align"
    using True assms(2) pos by (subst with_alignment.simps) (simp add: buf_round_up_zero)
  moreover have "align + 2 * align \<le> 2 ^ 63" using assms(3) True by simp
  ultimately show ?thesis
    using with_alignment_pos [OF assms(1,2) pos] assms(2) pos True
    by (auto simp: buf_wf_def buf_round_up_multiple)
next
  case False
  have pos: "0 < align" using assms(2) by blast
  have "len + 2 * align \<le> 2 ^ 63" using assms(3) by simp
  with with_alignment_pos [OF assms(1,2), of len] False show ?thesis
    using buf_round_up_bounds [OF pos, of len] assms(2) by (auto simp: buf_wf_def)
qed

text \<open>The pool never holds more than its capacity, and only buffers of its own shape.\<close>

definition pool_wf :: "buffer_pool \<Rightarrow> bool" where
  "pool_wf p \<longleftrightarrow> is_power_of_two (bp_align p) \<and> length (bp_free p) \<le> bp_capacity p \<and>
     (\<forall>b \<in> set (bp_free p). buf_wf b \<and> ab_len b = bp_buf_size p \<and> ab_align b = bp_align p)"

lemma pool_wf_new: "is_power_of_two align \<Longrightarrow> pool_wf (buffer_pool_new sz align cap)"
  by (simp add: pool_wf_def buffer_pool_new_def)

lemma pool_wf_release: "pool_wf p \<Longrightarrow> buf_wf b \<Longrightarrow> pool_wf (release b p)"
  by (auto simp: pool_wf_def release_def)

lemma pool_wf_acquire: "pool_wf p \<Longrightarrow> pool_wf (fst (acquire E p))"
  by (auto simp: pool_wf_def acquire_def dest: in_set_butlastD)



end
