(* ===== verification/Bloom.thy ===== *)
theory Bloom
  imports AlignedBuf Checksum
begin

text \<open>
  The cache-line-blocked Bloom filter, \<^verbatim>\<open>crates/paddock-core/src/filter/blocked_bloom.rs\<close>:
  sizing, the choice of the block and of the bits, insertion, the scalar and the AVX2 probe,
  and the persisted form.  The vector intrinsics are written out on four 64-bit lanes, with
  the alignment trap of the aligned load.  The two statics that cache the detected processor
  feature are left out: the answer is the field \<open>ext_avx2\<close>.

  Shown: no false negatives over any history of insertions and after a round trip through
  the persisted form, equality of the two probes, and totality of the decoder.
\<close>

definition FILTER_MAGIC :: u32 where "FILTER_MAGIC = 0xB1000F11"
definition FILTER_VERSION :: u8 where "FILTER_VERSION = 1"
definition BLOOM_HEADER_SIZE :: nat where "BLOOM_HEADER_SIZE = 16"
definition BLOCK_BYTES :: nat where "BLOCK_BYTES = 64"
definition BLOCK_BITS :: u32 where "BLOCK_BITS = 512"
definition DEFAULT_NUM_HASHES :: u8 where "DEFAULT_NUM_HASHES = 8"
definition DEFAULT_BITS_PER_KEY :: u8 where "DEFAULT_BITS_PER_KEY = 10"

record bloom_params =
  bp_num_hashes :: u8
  bp_bits_per_key :: u8

definition bloom_params_default :: bloom_params where
  "bloom_params_default = \<lparr>bp_num_hashes = DEFAULT_NUM_HASHES, bp_bits_per_key = DEFAULT_BITS_PER_KEY\<rparr>"

record blocked_bloom =
  bb_blocks :: aligned_buf
  bb_num_blocks :: u32
  bb_num_keys :: u32
  bb_params :: bloom_params

text \<open>The sizing: the product wraps at 64 bits, the block count saturates at 32 bits.\<close>

definition bloom_num_blocks :: "nat \<Rightarrow> bloom_params \<Rightarrow> u32" where
  "bloom_num_blocks expected_keys params =
     (let total_bits = (of_nat (max expected_keys 1) :: u64) * ucast (bp_bits_per_key params);
          n = (unat total_bits + (unat BLOCK_BITS - 1)) div unat BLOCK_BITS
      in max (if n < 2 ^ 32 then of_nat n else - 1) 1)"

definition bloom_new :: "externs \<Rightarrow> nat \<Rightarrow> bloom_params \<Rightarrow> blocked_bloom result" where
  "bloom_new E expected_keys params =
     (if \<not> (1 \<le> bp_num_hashes params \<and> bp_num_hashes params \<le> 16)
      then Inl (Panic ''BloomParams::num_hashes must lie in 1..=16'')
      else let num_blocks = bloom_num_blocks expected_keys params in
        and_then (with_alignment E (unat num_blocks * BLOCK_BYTES) BLOCK_BYTES) (\<lambda>blocks.
        and_then (ok_or blocks (Panic ''blocked Bloom allocation'')) (\<lambda>blocks.
        Inr \<lparr>bb_blocks = blocks, bb_num_blocks = num_blocks, bb_num_keys = 0, bb_params = params\<rparr>)))"

definition bloom_byte_size :: "blocked_bloom \<Rightarrow> nat" where
  "bloom_byte_size b = unat (bb_num_blocks b) * BLOCK_BYTES"

definition pick_block :: "u64 \<Rightarrow> u32 \<Rightarrow> u32" where
  "pick_block h num_blocks =
     (let low = ucast (h AND 0xFFFFFFFF) :: u32;
          product = (ucast low :: u64) * ucast num_blocks
      in ucast (drop_bit 32 product))"

fun position_loop :: "nat \<Rightarrow> u32 \<Rightarrow> u32 \<Rightarrow> u16 list" where
  "position_loop 0 h_a h_b = []"
| "position_loop (Suc n) h_a h_b = ucast (h_a AND (BLOCK_BITS - 1)) # position_loop n (h_a + h_b) h_b"

definition bit_positions :: "u64 \<Rightarrow> u8 \<Rightarrow> u16 list" where
  "bit_positions h k =
     (let h_high = ucast (drop_bit 32 h) :: u32;
          h_b = h_high * 0x9E3779B9;
          h_b = h_b XOR drop_bit 16 h_b;
          h_b = h_b * 0x85EBCA6B;
          n = min (unat k) 16
      in position_loop n h_high h_b @ replicate (16 - n) 0)"

text \<open>
  One block as a range of the buffer.  The source takes the range unchecked: a range that
  does not fit would be undefined behaviour, here an error that is shown not to happen.
\<close>

definition bloom_block :: "blocked_bloom \<Rightarrow> u32 \<Rightarrow> bytes result" where
  "bloom_block b idx =
     (let start = unat idx * BLOCK_BYTES in slice_range (ab_bytes (bb_blocks b)) start (start + BLOCK_BYTES))"

definition set_position :: "u16 \<Rightarrow> bytes \<Rightarrow> bytes" where
  "set_position pos block =
     (let byte = unat (pos div 8) in block[byte := block ! byte OR push_bit (unat (pos mod 8)) 1])"

definition saturating_add_u32 :: "u32 \<Rightarrow> u32 \<Rightarrow> u32" where
  "saturating_add_u32 a b = (if unat a + unat b < 2 ^ 32 then a + b else - 1)"

definition bloom_insert :: "externs \<Rightarrow> key \<Rightarrow> blocked_bloom \<Rightarrow> blocked_bloom result" where
  "bloom_insert E key b =
     (let h = xxh3_hash E key;
          block_idx = pick_block h (bb_num_blocks b);
          k = bp_num_hashes (bb_params b);
          positions = bit_positions h k;
          start = unat block_idx * BLOCK_BYTES;
          buf = bb_blocks b
      in and_then (bloom_block b block_idx) (\<lambda>block.
         let block = fold set_position (take (unat k) positions) block in
         Inr (b\<lparr>bb_blocks := buf\<lparr>ab_bytes := take start (ab_bytes buf) @ block @
                  drop (start + BLOCK_BYTES) (ab_bytes buf)\<rparr>,
                bb_num_keys := saturating_add_u32 (bb_num_keys b) 1\<rparr>)))"

section \<open>Probing\<close>

definition probe_scalar :: "bytes \<Rightarrow> u64 \<Rightarrow> u8 \<Rightarrow> bool" where
  "probe_scalar block h k =
     list_all (\<lambda>pos. block ! unat (pos div 8) AND push_bit (unat (pos mod 8)) 1 \<noteq> 0)
       (take (unat k) (bit_positions h k))"

text \<open>
  Four 64-bit lanes.  \<^verbatim>\<open>_mm256_load_si256\<close> traps on an address that is not a multiple of 32;
  \<^verbatim>\<open>_mm256_testc_si256(a, b)\<close> is one when \<^verbatim>\<open>(NOT a) AND b\<close> is zero.
\<close>

definition lanes :: "bytes \<Rightarrow> u64 list" where
  "lanes bs = map (\<lambda>i. u64_from_le (take 8 (drop (8 * i) bs))) [0..<4]"

definition mm256_load :: "nat \<Rightarrow> bytes \<Rightarrow> u64 list result" where
  "mm256_load ptr bs =
     (if 32 dvd ptr then Inr (lanes (take 32 bs)) else Inl (Panic ''misaligned vector load''))"

definition mm256_testc :: "u64 list \<Rightarrow> u64 list \<Rightarrow> bool" where
  "mm256_testc a b = list_all2 (\<lambda>x y. NOT x AND y = 0) a b"

definition add_mask :: "u16 \<Rightarrow> u64 list \<times> u64 list \<Rightarrow> u64 list \<times> u64 list" where
  "add_mask pos m =
     (let (low, high) = m;
          word = unat (pos div 64);
          b = unat (pos mod 64)
      in if word < 4 then (low[word := low ! word OR push_bit b 1], high)
         else (low, high[word - 4 := high ! (word - 4) OR push_bit b 1]))"

definition probe_avx2 :: "nat \<Rightarrow> bytes \<Rightarrow> u64 \<Rightarrow> u8 \<Rightarrow> bool result" where
  "probe_avx2 ptr block h k =
     (let (mask_low, mask_high) =
            fold add_mask (take (unat k) (bit_positions h k)) (replicate 4 0, replicate 4 0)
      in and_then (mm256_load ptr block) (\<lambda>blk_lo.
         and_then (mm256_load (ptr + 32) (drop 32 block)) (\<lambda>blk_hi.
         Inr (mm256_testc blk_lo mask_low \<and> mm256_testc blk_hi mask_high))))"

definition select_probe_backend :: "externs \<Rightarrow> u8" where
  "select_probe_backend E = (if ext_avx2 E then 1 else 0)"

definition dispatch_probe :: "externs \<Rightarrow> nat \<Rightarrow> bytes \<Rightarrow> u64 \<Rightarrow> u8 \<Rightarrow> bool result" where
  "dispatch_probe E ptr block h k =
     (if select_probe_backend E = 1 then probe_avx2 ptr block h k else Inr (probe_scalar block h k))"

definition bloom_contains :: "externs \<Rightarrow> key \<Rightarrow> blocked_bloom \<Rightarrow> bool result" where
  "bloom_contains E key b =
     (let h = xxh3_hash E key;
          block_idx = pick_block h (bb_num_blocks b)
      in and_then (bloom_block b block_idx) (\<lambda>block.
         dispatch_probe E (ab_ptr (bb_blocks b) + unat block_idx * BLOCK_BYTES) block h
           (bp_num_hashes (bb_params b))))"

section \<open>The persisted form\<close>

definition bloom_encode :: "blocked_bloom \<Rightarrow> bytes result" where
  "bloom_encode b =
     and_then (slice_range (ab_bytes (bb_blocks b)) 0 (bloom_byte_size b)) (\<lambda>payload.
       Inr (u32_to_le FILTER_MAGIC @
            [FILTER_VERSION, bp_num_hashes (bb_params b), bp_bits_per_key (bb_params b), 0] @
            u32_to_le (bb_num_blocks b) @ u32_to_le (bb_num_keys b) @ payload))"

definition bloom_decode :: "externs \<Rightarrow> bytes \<Rightarrow> blocked_bloom result" where
  "bloom_decode E bs =
     (if length bs < BLOOM_HEADER_SIZE
      then Inl (invalid_format_static ''bloom filter'' ''shorter than header'')
      else if u32_from_le (take 4 bs) \<noteq> FILTER_MAGIC
      then Inl (invalid_format_static ''bloom filter'' ''wrong magic'')
      else if bs ! 4 \<noteq> FILTER_VERSION
      then Inl (InvalidFormat ''bloom filter'' (''unsupported version '' @ dec_digits (unat (bs ! 4))))
      else
        let num_hashes = bs ! 5;
            bits_per_key = bs ! 6;
            num_blocks = u32_from_le (take 4 (drop 8 bs));
            num_keys = u32_from_le (take 4 (drop 12 bs));
            expected_payload = unat num_blocks * BLOCK_BYTES
        in if num_hashes = 0 \<or> 16 < num_hashes
           then Inl (InvalidFormat ''bloom filter''
                       (''num_hashes out of range: '' @ dec_digits (unat num_hashes)))
           else if num_blocks = 0
           then Inl (invalid_format_static ''bloom filter'' ''num_blocks must be >= 1'')
           else if length bs \<noteq> BLOOM_HEADER_SIZE + expected_payload
           then Inl (InvalidFormat ''bloom filter''
                       (''payload length '' @ dec_digits (length bs - BLOOM_HEADER_SIZE) @
                        '' does not match num_blocks='' @ dec_digits (unat num_blocks) @
                        '' (expected '' @ dec_digits expected_payload @ '')''))
           else
             and_then (with_alignment E expected_payload BLOCK_BYTES) (\<lambda>blocks.
             and_then (ok_or blocks (Panic ''bloom filter allocation'')) (\<lambda>blocks.
             Inr \<lparr>bb_blocks = blocks\<lparr>ab_bytes := drop BLOOM_HEADER_SIZE bs @
                                                 drop expected_payload (ab_bytes blocks)\<rparr>,
                  bb_num_blocks = num_blocks, bb_num_keys = num_keys,
                  bb_params = \<lparr>bp_num_hashes = num_hashes, bp_bits_per_key = bits_per_key\<rparr>\<rparr>)))"

section \<open>Bits and blocks\<close>

lemma unat_upcast: "unat (ucast (w :: u32) :: u64) = unat w"
  using unsigned_less [of w, where ?'a = nat]
  by (simp add: unsigned_ucast_eq take_bit_nat_eq_self)

lemma unat_mult_upcast: "unat ((ucast (a :: u32) :: u64) * ucast (b :: u32)) = unat a * unat b"
proof -
  have "unat a < 2 ^ 32" "unat b < 2 ^ 32"
    using unsigned_less [of a, where ?'a = nat] unsigned_less [of b, where ?'a = nat] by simp_all
  then have "unat a * unat b \<le> (2 ^ 32 - 1) * (2 ^ 32 - 1)" by (intro mult_le_mono) simp_all
  then have "unat a * unat b < 2 ^ 64" by simp
  then show ?thesis by (simp only: unat_word_ariths unat_upcast) simp
qed

lemma pick_block_less:
  assumes "0 < n"
  shows "unat (pick_block h n) < unat n"
proof -
  define low where "low = (ucast (h AND 0xFFFFFFFF) :: u32)"
  have low: "unat low < 2 ^ 32" and n: "unat n < 2 ^ 32"
    using unsigned_less [of low, where ?'a = nat] unsigned_less [of n, where ?'a = nat] by simp_all
  have "unat low * unat n < 2 ^ 32 * unat n"
    using low assms by (simp add: word_less_nat_alt)
  then have less: "unat low * unat n div 2 ^ 32 < unat n"
    by (simp add: div_less_iff_less_mult mult.commute)
  then have "unat low * unat n div 2 ^ 32 < 2 ^ 32" using n by simp
  moreover have "unat (drop_bit 32 ((ucast low :: u64) * ucast n)) = unat low * unat n div 2 ^ 32"
    unfolding unat_drop_bit_eq drop_bit_eq_div [where 'a = nat] unat_mult_upcast ..
  ultimately have "unat (pick_block h n) = unat low * unat n div 2 ^ 32"
    unfolding pick_block_def Let_def low_def [symmetric] unsigned_ucast_eq
    by (simp add: take_bit_nat_eq_self)
  with less show ?thesis by simp
qed

lemma and_511: "(a :: u32) AND (BLOCK_BITS - 1) = take_bit 9 a"
proof -
  have "BLOCK_BITS - 1 = (mask 9 :: u32)" by (simp add: BLOCK_BITS_def mask_eq_exp_minus_1)
  then show ?thesis by (simp add: take_bit_eq_mask)
qed

lemma position_loop_less: "p \<in> set (position_loop n a b) \<Longrightarrow> unat p < 512"
proof (induction n arbitrary: a)
  case (Suc n)
  have "unat (ucast (take_bit 9 a :: u32) :: u16) = take_bit 9 (unat a)"
    by (simp add: unsigned_ucast_eq unsigned_take_bit_eq)
  moreover have "take_bit 9 (unat a) < 2 ^ 9" by (rule take_bit_nat_less_exp)
  ultimately show ?case using Suc by (auto simp: and_511)
qed simp

lemma bit_positions_less: "p \<in> set (take (unat k) (bit_positions h k)) \<Longrightarrow> unat p < 512"
  using position_loop_less by (auto simp: bit_positions_def Let_def dest!: in_set_takeD)

lemma bit_le_to_nat:
  "i < 8 * length bs \<Longrightarrow> bit (le_to_nat bs) i \<longleftrightarrow> bit (bs ! (i div 8)) (i mod 8)"
proof (induction bs arbitrary: i)
  case (Cons b bs)
  define x where "x = unat b + 256 * le_to_nat bs"
  have b: "unat b < 256" using unsigned_less [of b, where ?'a = nat] by simp
  show ?case
  proof (cases "i < 8")
    case True
    have "take_bit 8 x = unat b" using b by (simp add: x_def take_bit_eq_mod)
    moreover have "bit x i \<longleftrightarrow> bit (take_bit 8 x) i" using True by (simp add: bit_take_bit_iff)
    ultimately show ?thesis using True by (simp add: x_def [symmetric] bit_unsigned_iff)
  next
    case False
    have "drop_bit 8 x = le_to_nat bs" using b by (simp add: x_def drop_bit_eq_div)
    moreover have "bit x i \<longleftrightarrow> bit (drop_bit 8 x) (i - 8)" using False by (simp add: bit_drop_bit_eq)
    moreover have "i div 8 = Suc ((i - 8) div 8)" "i mod 8 = (i - 8) mod 8"
      using False by (simp_all add: le_div_geq le_mod_geq)
    ultimately show ?thesis using Cons.IH [of "i - 8"] Cons.prems False by (simp add: x_def [symmetric])
  qed
qed simp

lemma bit_u64_from_le:
  "length bs = 8 \<Longrightarrow> i < 64 \<Longrightarrow> bit (u64_from_le bs) i \<longleftrightarrow> bit (bs ! (i div 8)) (i mod 8)"
  using bit_le_to_nat [of i bs] by (simp add: u64_from_le_def bit_of_nat_iff)

lemma unat_pos_div: "unat ((p :: u16) div 8) = unat p div 8" "unat (p div 64) = unat p div 64"
  by (simp_all add: unat_div)

lemma unat_pos_mod: "unat ((p :: u16) mod 8) = unat p mod 8" "unat (p mod 64) = unat p mod 64"
  by (simp_all add: unat_mod)

lemma split_position: "(j :: nat) < m \<Longrightarrow> m * i + j = n \<longleftrightarrow> i = n div m \<and> j = n mod m"
  by auto

text \<open>The bits a probe asks for.\<close>

definition has_bits :: "bytes \<Rightarrow> u16 list \<Rightarrow> bool" where
  "has_bits block ps \<longleftrightarrow> (\<forall>p \<in> set ps. bit (block ! (unat p div 8)) (unat p mod 8))"

lemma probe_scalar_iff: "probe_scalar block h k \<longleftrightarrow> has_bits block (take (unat k) (bit_positions h k))"
  unfolding probe_scalar_def has_bits_def list_all_iff push_bit_of_1 and_exp_eq_0_iff_not_bit
    unat_pos_div unat_pos_mod by simp

lemma length_set_position [simp]: "length (set_position p block) = length block"
  by (simp add: set_position_def Let_def)

lemma set_position_bit:
  assumes "unat p < 8 * length block" "j < 8"
  shows "bit (set_position p block ! i) j \<longleftrightarrow> bit (block ! i) j \<or> 8 * i + j = unat p"
proof -
  have "8 * i + j = unat p \<longleftrightarrow> i = unat p div 8 \<and> j = unat p mod 8" by (rule split_position [OF assms(2)])
  moreover have "unat p div 8 < length block" using assms(1) by (simp add: div_less_iff_less_mult mult.commute)
  moreover have "bit (2 ^ (unat p mod 8) :: u8) j \<longleftrightarrow> j = unat p mod 8" using assms(2) by (auto simp: bit_exp_iff)
  ultimately show ?thesis
    unfolding set_position_def Let_def unat_pos_div unat_pos_mod push_bit_of_1
    by (cases "i = unat p div 8") (simp_all add: bit_or_iff)
qed

lemma set_positions_bit:
  assumes "\<forall>p \<in> set ps. unat p < 8 * length block" "j < 8"
  shows "bit (fold set_position ps block ! i) j \<longleftrightarrow> bit (block ! i) j \<or> (\<exists>p \<in> set ps. 8 * i + j = unat p)"
  using assms
proof (induction ps arbitrary: block)
  case (Cons p ps)
  then show ?case by (auto simp: set_position_bit)
qed simp

lemma length_set_positions [simp]: "length (fold set_position ps block) = length block"
  by (induction ps arbitrary: block) simp_all

lemma add_mask_bit:
  assumes "length low = 4" "length high = 4" "unat p < 512" "j < 64" "w < 8"
    and "add_mask p (low, high) = (low', high')"
  shows "length low' = 4 \<and> length high' = 4 \<and>
    (bit ((low' @ high') ! w) j \<longleftrightarrow> bit ((low @ high) ! w) j \<or> 64 * w + j = unat p)"
proof -
  let ?w = "unat p div 64" and ?b = "unat p mod 64"
  have eq: "64 * w + j = unat p \<longleftrightarrow> w = ?w \<and> j = ?b" by (rule split_position [OF assms(4)])
  have b: "bit (2 ^ ?b :: u64) j \<longleftrightarrow> j = ?b" using assms(4) by (auto simp: bit_exp_iff)
  have w: "?w < 8" using assms(3) by (simp add: div_less_iff_less_mult)
  have m: "low' @ high' = (low @ high)[?w := (low @ high) ! ?w OR 2 ^ ?b]" "length low' = 4" "length high' = 4"
    using assms(1,2,6) w unfolding add_mask_def Let_def unat_pos_div unat_pos_mod push_bit_of_1
    by (auto simp: list_update_append nth_append split: if_splits)
  show ?thesis unfolding m(1) eq using m(2,3) w assms(1,2,5) b
    by (cases "w = ?w") (simp_all add: bit_or_iff)
qed

lemma add_masks_bit:
  assumes "length low = 4" "length high = 4" "\<forall>p \<in> set ps. unat p < 512"
    and "fold add_mask ps (low, high) = (low', high')"
  shows "length low' = 4 \<and> length high' = 4 \<and> (\<forall>w < 8. \<forall>j < 64.
    bit ((low' @ high') ! w) j \<longleftrightarrow> bit ((low @ high) ! w) j \<or> (\<exists>p \<in> set ps. 64 * w + j = unat p))"
  using assms
proof (induction ps arbitrary: low high)
  case (Cons p ps)
  obtain l h where m: "add_mask p (low, high) = (l, h)" by fastforce
  have one: "length l = 4 \<and> length h = 4 \<and> (bit ((l @ h) ! w) j \<longleftrightarrow> bit ((low @ high) ! w) j \<or> 64 * w + j = unat p)"
    if "w < 8" "j < 64" for w j
    using add_mask_bit [OF Cons.prems(1,2) _ that(2,1) m] Cons.prems(3) by simp
  then have "length l = 4" "length h = 4" using one [of 0 0] by simp_all
  from Cons.IH [OF this] Cons.prems(3,4) one m show ?case by auto
qed simp

text \<open>The vector test of a block of 64 bytes: every bit of the mask is set in the block.\<close>

lemma testc_iff:
  assumes "length m = 4" "length bs = 32"
  shows "mm256_testc (lanes bs) m \<longleftrightarrow> (\<forall>w < 4. \<forall>j < 64. bit (m ! w) j \<longrightarrow> bit (bs ! (8 * w + j div 8)) (j mod 8))"
proof -
  have lane: "NOT (u64_from_le (take 8 (drop (8 * w) bs))) AND m ! w = 0 \<longleftrightarrow>
      (\<forall>j < 64. bit (m ! w) j \<longrightarrow> bit (bs ! (8 * w + j div 8)) (j mod 8))" if "w < 4" for w
  proof -
    have "bit (u64_from_le (take 8 (drop (8 * w) bs))) j \<longleftrightarrow> bit (bs ! (8 * w + j div 8)) (j mod 8)" if "j < 64" for j
      using bit_u64_from_le [of "take 8 (drop (8 * w) bs)" j] that \<open>w < 4\<close> assms(2)
      by (simp add: div_less_iff_less_mult)
    then show ?thesis by (auto simp: bit_eq_iff bit_and_iff bit_not_iff)
  qed
  show ?thesis unfolding mm256_testc_def lanes_def list_all2_conv_all_nth using lane assms(1) by auto
qed

lemma position_word: "8 * (n div 64) + n mod 64 div 8 = n div (8 :: nat)" "n mod 64 mod 8 = n mod (8 :: nat)"
proof -
  have "n div 64 = n div 8 div 8" "n mod 64 div 8 = n div 8 mod 8"
    using div_mult2_eq [of n 8 8] mod_mult2_eq [of n 8 8] by simp_all
  then show "8 * (n div 64) + n mod 64 div 8 = n div 8" by (metis mult_div_mod_eq)
  show "n mod 64 mod 8 = n mod 8" by (simp add: mod_mod_cancel)
qed

lemma upto_8: "(\<forall>w < 8. Q w) \<longleftrightarrow> (\<forall>w < 4. Q w) \<and> (\<forall>w < 4. Q (w + 4 :: nat))"
proof (intro iffI conjI allI impI)
  fix w :: nat assume "(\<forall>w < 4. Q w) \<and> (\<forall>w < 4. Q (w + 4))" "w < 8"
  then show "Q w" by (cases "w < 4") (auto dest: spec [of _ "w - 4"])
qed auto

lemma mask_has_bits:
  assumes bits: "\<And>w j. w < 8 \<Longrightarrow> j < 64 \<Longrightarrow> bit (m ! w) j \<longleftrightarrow> (\<exists>p \<in> set ps. 64 * w + j = unat p)"
    and less: "\<And>p. p \<in> set ps \<Longrightarrow> unat p < 512"
  shows "(\<forall>w < 8. \<forall>j < 64. bit (m ! w) j \<longrightarrow> bit (block ! (8 * w + j div 8)) (j mod 8)) \<longleftrightarrow> has_bits block ps"
proof
  assume all: "\<forall>w < 8. \<forall>j < 64. bit (m ! w) j \<longrightarrow> bit (block ! (8 * w + j div 8)) (j mod 8)"
  have "bit (block ! (unat p div 8)) (unat p mod 8)" if p: "p \<in> set ps" for p
  proof -
    have w: "unat p div 64 < 8" "unat p mod 64 < 64" using less [OF p] by (simp_all add: div_less_iff_less_mult)
    moreover have "bit (m ! (unat p div 64)) (unat p mod 64)" using bits [OF w] p by force
    ultimately have "bit (block ! (8 * (unat p div 64) + unat p mod 64 div 8)) (unat p mod 64 mod 8)"
      using all by blast
    then show ?thesis unfolding position_word .
  qed
  then show "has_bits block ps" by (simp add: has_bits_def)
next
  assume "has_bits block ps"
  then have p: "bit (block ! (unat p div 8)) (unat p mod 8)" if "p \<in> set ps" for p
    using that by (simp add: has_bits_def)
  have "bit (block ! (8 * w + j div 8)) (j mod 8)" if w: "w < 8" "j < 64" "bit (m ! w) j" for w j
  proof -
    obtain q where q: "q \<in> set ps" "64 * w + j = unat q" using w bits by blast
    then have "w = unat q div 64" "j = unat q mod 64" using split_position [OF w(2)] by blast+
    then show ?thesis using p [OF q(1)] by (simp only: position_word)
  qed
  then show "\<forall>w < 8. \<forall>j < 64. bit (m ! w) j \<longrightarrow> bit (block ! (8 * w + j div 8)) (j mod 8)" by simp
qed

lemma probe_avx2_iff:
  assumes "length block = 64" "64 dvd ptr"
  shows "probe_avx2 ptr block h k = Inr (probe_scalar block h k)"
proof -
  let ?ps = "take (unat k) (bit_positions h k)"
  obtain low high where m: "fold add_mask ?ps (replicate 4 0, replicate 4 0) = (low, high)" by fastforce
  have zero: "\<not> bit ((replicate 4 0 @ replicate 4 0 :: u64 list) ! w) j" if "w < 8" for w j
    using that by (simp add: nth_append)
  have len: "length low = 4" "length high = 4" and
    bits: "\<And>w j. w < 8 \<Longrightarrow> j < 64 \<Longrightarrow> bit ((low @ high) ! w) j \<longleftrightarrow> (\<exists>p \<in> set ?ps. 64 * w + j = unat p)"
    using add_masks_bit [OF _ _ _ m] bit_positions_less zero by auto
  define Q where "Q w \<longleftrightarrow> (\<forall>j < 64. bit ((low @ high) ! w) j \<longrightarrow> bit (block ! (8 * w + j div 8)) (j mod 8))" for w
  have "mm256_testc (lanes (take 32 block)) low \<longleftrightarrow> (\<forall>w < 4. Q w)"
    using testc_iff [OF len(1), of "take 32 block"] assms(1) len by (auto simp: Q_def nth_append div_less_iff_less_mult)
  moreover have "mm256_testc (lanes (drop 32 block)) high \<longleftrightarrow> (\<forall>w < 4. Q (w + 4))"
    using testc_iff [OF len(2), of "drop 32 block"] assms(1) len by (auto simp: Q_def nth_append ac_simps)
  moreover have "(\<forall>w < 8. Q w) \<longleftrightarrow> has_bits block ?ps"
    unfolding Q_def using bits bit_positions_less by (intro mask_has_bits) auto
  ultimately have eq: "(mm256_testc (lanes (take 32 block)) low \<and> mm256_testc (lanes (drop 32 block)) high) = has_bits block ?ps"
    unfolding upto_8 [of Q] by simp
  have "32 dvd ptr" using assms(2) dvd_trans [of 32 64 ptr] by simp
  moreover have "take 32 (drop 32 block) = drop 32 block" using assms(1) by simp
  ultimately show ?thesis
    unfolding probe_avx2_def probe_scalar_iff m Let_def prod.case mm256_load_def eq [symmetric] by simp
qed

section \<open>The filter contract\<close>

text \<open>
  What a table relies on: insertion succeeds, the inserted key answers yes, and no key that
  answered yes stops doing so.
\<close>

locale key_filter =
  fixes ins :: "key \<Rightarrow> 'f \<Rightarrow> 'f result" and member :: "key \<Rightarrow> 'f \<Rightarrow> bool result" and good :: "'f \<Rightarrow> bool"
  assumes ins: "good f \<Longrightarrow> \<exists>f'. ins k f = Inr f' \<and> good f' \<and> member k f' = Inr True \<and>
      (\<forall>x. member x f = Inr True \<longrightarrow> member x f' = Inr True)"
    and total: "good f \<Longrightarrow> \<exists>r. member k f = Inr r"

fun filter_all :: "(key \<Rightarrow> 'f \<Rightarrow> 'f result) \<Rightarrow> key list \<Rightarrow> 'f \<Rightarrow> 'f result" where
  "filter_all ins [] f = Inr f"
| "filter_all ins (k # ks) f = and_then (ins k f) (filter_all ins ks)"

context key_filter
begin

lemma history:
  assumes "good f"
  shows "\<exists>f'. filter_all ins ks f = Inr f' \<and> good f' \<and> (\<forall>k \<in> set ks. member k f' = Inr True) \<and>
    (\<forall>x. member x f = Inr True \<longrightarrow> member x f' = Inr True)"
  using assms
proof (induction ks arbitrary: f)
  case (Cons k ks)
  obtain f1 where f1: "ins k f = Inr f1" "good f1" "member k f1 = Inr True"
    "\<forall>x. member x f = Inr True \<longrightarrow> member x f1 = Inr True" using ins [OF Cons.prems] by blast
  from Cons.IH [OF f1(2)] f1 show ?case by auto
qed simp

end

text \<open>The invariant of a filter.\<close>

definition bloom_wf :: "blocked_bloom \<Rightarrow> bool" where
  "bloom_wf b \<longleftrightarrow> 1 \<le> bp_num_hashes (bb_params b) \<and> bp_num_hashes (bb_params b) \<le> 16 \<and> 0 < bb_num_blocks b \<and>
     ab_len (bb_blocks b) = unat (bb_num_blocks b) * 64 \<and> ab_align (bb_blocks b) = 64 \<and> 64 dvd ab_ptr (bb_blocks b)"

definition block_of :: "blocked_bloom \<Rightarrow> u32 \<Rightarrow> bytes" where
  "block_of b i = take 64 (drop (unat i * 64) (ab_bytes (bb_blocks b)))"

lemma bloom_block_ok:
  assumes "bloom_wf b" "unat i < unat (bb_num_blocks b)"
  shows "bloom_block b i = Inr (block_of b i)" "length (block_of b i) = 64"
proof -
  have "unat i * 64 + 64 \<le> unat (bb_num_blocks b) * 64" using assms(2) by simp
  then show "bloom_block b i = Inr (block_of b i)" "length (block_of b i) = 64"
    using assms(1) by (simp_all add: bloom_block_def block_of_def bloom_wf_def BLOCK_BYTES_def)
qed

lemma bloom_contains_eq:
  assumes "bloom_wf b"
  shows "bloom_contains E key b = Inr (has_bits (block_of b (pick_block (xxh3_hash E key) (bb_num_blocks b)))
    (take (unat (bp_num_hashes (bb_params b))) (bit_positions (xxh3_hash E key) (bp_num_hashes (bb_params b)))))"
proof -
  let ?i = "pick_block (xxh3_hash E key) (bb_num_blocks b)"
  have "unat ?i < unat (bb_num_blocks b)" using assms by (intro pick_block_less) (simp add: bloom_wf_def)
  note block = bloom_block_ok [OF assms this]
  have "64 dvd ab_ptr (bb_blocks b) + unat ?i * BLOCK_BYTES" using assms by (simp add: bloom_wf_def BLOCK_BYTES_def)
  from probe_avx2_iff [OF block(2) this] show ?thesis
    by (simp add: bloom_contains_def Let_def block(1) dispatch_probe_def probe_scalar_iff)
qed

lemma splice_other:
  assumes "length mid = 64" "i * 64 + 64 \<le> length xs" "(i :: nat) \<noteq> j"
  shows "take 64 (drop (j * 64) (take (i * 64) xs @ mid @ drop (i * 64 + 64) xs)) = take 64 (drop (j * 64) xs)"
proof (cases "j < i")
  case True
  then have "j * 64 + 64 \<le> i * 64" by simp
  then show ?thesis using assms by (simp add: drop_take)
next
  case False
  then have "i * 64 + 64 \<le> j * 64" using assms(3) by simp
  then show ?thesis using assms by simp
qed

lemma has_bits_set_positions:
  assumes "\<forall>p \<in> set ps. unat p < 8 * length block"
  shows "has_bits block qs \<Longrightarrow> has_bits (fold set_position ps block) qs" "has_bits (fold set_position ps block) ps"
  unfolding has_bits_def using set_positions_bit [OF assms]
  by (simp, metis mod_less_divisor mult_div_mod_eq zero_less_numeral)

lemma bloom_insert_ok:
  assumes wf: "bloom_wf b"
  shows "\<exists>b'. bloom_insert E key b = Inr b' \<and> bloom_wf b' \<and> bloom_contains E key b' = Inr True \<and>
    (\<forall>x. bloom_contains E x b = Inr True \<longrightarrow> bloom_contains E x b' = Inr True)"
proof -
  define i where "i = pick_block (xxh3_hash E key) (bb_num_blocks b)"
  define ps where "ps = take (unat (bp_num_hashes (bb_params b))) (bit_positions (xxh3_hash E key) (bp_num_hashes (bb_params b)))"
  define xs where "xs = ab_bytes (bb_blocks b)"
  define ys where "ys = take (unat i * 64) xs @ fold set_position ps (block_of b i) @ drop (unat i * 64 + 64) xs"
  define b' where "b' = b\<lparr>bb_blocks := (bb_blocks b)\<lparr>ab_bytes := ys\<rparr>, bb_num_keys := saturating_add_u32 (bb_num_keys b) 1\<rparr>"
  have i: "unat i < unat (bb_num_blocks b)" using wf unfolding i_def by (intro pick_block_less) (simp add: bloom_wf_def)
  note block = bloom_block_ok [OF wf i]
  have ret: "bloom_insert E key b = Inr b'"
    using block(1) by (simp add: bloom_insert_def Let_def b'_def ys_def xs_def ps_def i_def BLOCK_BYTES_def)
  have fit: "unat i * 64 + 64 \<le> length xs" using i wf by (simp add: bloom_wf_def xs_def)
  then have len: "length ys = length xs" using block(2) by (simp add: ys_def)
  then have wf': "bloom_wf b'" using wf by (simp add: bloom_wf_def b'_def xs_def)
  have same: "block_of b' i = fold set_position ps (block_of b i)"
    using fit block(2) by (simp add: block_of_def b'_def ys_def xs_def)
  have ps: "\<forall>p \<in> set ps. unat p < 8 * length (block_of b i)"
    unfolding ps_def block(2) using bit_positions_less by fastforce
  have "block_of b' j = block_of b j" if "j \<noteq> i" for j
    using splice_other [of "fold set_position ps (block_of b i)" "unat i" xs "unat j"] fit block(2) that
    by (simp add: block_of_def b'_def ys_def xs_def word_unat_eq_iff)
  then have keep: "has_bits (block_of b j) qs \<Longrightarrow> has_bits (block_of b' j) qs" for j qs
    using has_bits_set_positions(1) [OF ps] same by (cases "j = i") auto
  have par: "bb_params b' = bb_params b" "bb_num_blocks b' = bb_num_blocks b" by (simp_all add: b'_def)
  have "bloom_contains E key b' = Inr True"
    using has_bits_set_positions(2) [OF ps] by (simp add: bloom_contains_eq [OF wf'] par same flip: i_def ps_def)
  moreover have "bloom_contains E x b = Inr True \<Longrightarrow> bloom_contains E x b' = Inr True" for x
    by (simp add: bloom_contains_eq [OF wf] bloom_contains_eq [OF wf'] par keep)
  ultimately show ?thesis using ret wf' by blast
qed

interpretation bloom: key_filter "bloom_insert E" "bloom_contains E" bloom_wf for E
  by unfold_locales (fact bloom_insert_ok, simp add: bloom_contains_eq)

lemma bloom_new_ok:
  assumes "allocates E" "1 \<le> bp_num_hashes params" "bp_num_hashes params \<le> 16"
  shows "\<exists>b. bloom_new E n params = Inr b \<and> bloom_wf b \<and> bb_num_keys b = 0 \<and> bb_params b = params"
proof -
  define m where "m = bloom_num_blocks n params"
  have "1 \<le> m" unfolding m_def bloom_num_blocks_def Let_def by (rule max.cobounded2)
  then have n: "0 < m" by (simp add: word_less_nat_alt word_le_nat_alt)
  then have pos: "0 < unat m * 64" by (simp add: unat_gt_0)
  have "unat m < 2 ^ 32" using unsigned_less [of m, where ?'a = nat] by simp
  then have fit: "unat m * 64 + 2 * 64 \<le> 2 ^ 63" by simp
  have "is_power_of_two 64" by (simp add: is_power_of_two.simps)
  from with_alignment_pos [OF assms(1) this pos fit] obtain p where
    "with_alignment E (unat m * 64) 64 = Inr (Some \<lparr>ab_ptr = p, ab_bytes = replicate (unat m * 64) 0, ab_align = 64\<rparr>)" "64 dvd p"
    unfolding buf_round_up_multiple [OF dvd_triv_right] by blast
  then show ?thesis using n assms(2,3) by (simp add: bloom_new_def Let_def BLOCK_BYTES_def bloom_wf_def flip: m_def)
qed

lemma bloom_decode_alloc:
  assumes "allocates E" "0 < (n :: u32)"
  shows "\<exists>p. with_alignment E (unat n * 64) 64 =
      Inr (Some \<lparr>ab_ptr = p, ab_bytes = replicate (unat n * 64) 0, ab_align = 64\<rparr>) \<and> 64 dvd p"
proof -
  have pos: "0 < unat n * 64" using assms(2) by (simp add: unat_gt_0)
  have "unat n < 2 ^ 32" using unsigned_less [of n, where ?'a = nat] by simp
  then have fit: "unat n * 64 + 2 * 64 \<le> 2 ^ 63" by simp
  have "is_power_of_two 64" by (simp add: is_power_of_two.simps)
  from with_alignment_pos [OF assms(1) this pos fit] show ?thesis
    unfolding buf_round_up_multiple [OF dvd_triv_right] .
qed

lemma bloom_encode_ok:
  "bloom_wf b \<Longrightarrow> bloom_encode b = Inr (u32_to_le FILTER_MAGIC @
     [FILTER_VERSION, bp_num_hashes (bb_params b), bp_bits_per_key (bb_params b), 0] @
     u32_to_le (bb_num_blocks b) @ u32_to_le (bb_num_keys b) @ ab_bytes (bb_blocks b))"
  by (simp add: bloom_encode_def bloom_wf_def bloom_byte_size_def BLOCK_BYTES_def)

lemma bloom_decode_encode:
  assumes "allocates E" "bloom_wf b" "bloom_encode b = Inr bs"
  shows "\<exists>p. bloom_decode E bs = Inr (b\<lparr>bb_blocks := (bb_blocks b)\<lparr>ab_ptr := p\<rparr>\<rparr>) \<and> 64 dvd p"
proof -
  let ?h = "u32_to_le FILTER_MAGIC" and ?n = "u32_to_le (bb_num_blocks b)" and ?k = "u32_to_le (bb_num_keys b)"
  let ?p = "bb_params b" and ?xs = "ab_bytes (bb_blocks b)"
  have bs: "bs = ?h @ [FILTER_VERSION, bp_num_hashes ?p, bp_bits_per_key ?p, 0] @ ?n @ ?k @ ?xs"
    using assms(3) bloom_encode_ok [OF assms(2)] by simp
  have wf: "1 \<le> bp_num_hashes ?p" "bp_num_hashes ?p \<le> 16" "0 < bb_num_blocks b" "length ?xs = unat (bb_num_blocks b) * 64"
    "ab_align (bb_blocks b) = 64" using assms(2) by (simp_all add: bloom_wf_def)
  obtain p where p: "with_alignment E (unat (bb_num_blocks b) * 64) 64 =
      Inr (Some \<lparr>ab_ptr = p, ab_bytes = replicate (unat (bb_num_blocks b) * 64) 0, ab_align = 64\<rparr>)" "64 dvd p"
    using bloom_decode_alloc [OF assms(1) wf(3)] by blast
  have parts: "take 4 bs = ?h" "bs ! 4 = FILTER_VERSION" "bs ! 5 = bp_num_hashes ?p" "bs ! 6 = bp_bits_per_key ?p"
    "take 4 (drop 8 bs) = ?n" "take 4 (drop 12 bs) = ?k" "drop 16 bs = ?xs" "length bs = 16 + length ?xs"
    unfolding bs by (simp_all add: nth_append)
  have nh: "bp_num_hashes ?p \<noteq> 0" "\<not> 16 < bp_num_hashes ?p" "bb_num_blocks b \<noteq> 0" using wf(1-3) by auto
  have "bloom_decode E bs = Inr \<lparr>bb_blocks = \<lparr>ab_ptr = p, ab_bytes = ?xs, ab_align = 64\<rparr>, bb_num_blocks = bb_num_blocks b,
      bb_num_keys = bb_num_keys b, bb_params = \<lparr>bp_num_hashes = bp_num_hashes ?p, bp_bits_per_key = bp_bits_per_key ?p\<rparr>\<rparr>"
    unfolding bloom_decode_def Let_def BLOOM_HEADER_SIZE_def BLOCK_BYTES_def parts
    using nh p(1) wf(4) by (simp add: parts)
  then show ?thesis using p(2) wf(5) by (intro exI [of _ p]) (cases b; cases "bb_blocks b"; simp)
qed

lemma bytes_split:
  assumes "16 \<le> length bs"
  shows "bs = take 4 bs @ [bs ! 4, bs ! 5, bs ! 6, bs ! 7] @ take 4 (drop 8 bs) @ take 4 (drop 12 bs) @ drop 16 bs"
proof -
  have "drop 4 bs = bs ! 4 # drop 5 bs" "drop 5 bs = bs ! 5 # drop 6 bs" "drop 6 bs = bs ! 6 # drop 7 bs"
    "drop 7 bs = bs ! 7 # drop 8 bs"
    using Cons_nth_drop_Suc [of 4 bs] Cons_nth_drop_Suc [of 5 bs] Cons_nth_drop_Suc [of 6 bs]
      Cons_nth_drop_Suc [of 7 bs] assms by simp_all
  moreover have "drop 8 bs = take 4 (drop 8 bs) @ drop 12 bs" "drop 12 bs = take 4 (drop 12 bs) @ drop 16 bs"
    using append_take_drop_id [of 4 "drop 8 bs"] append_take_drop_id [of 4 "drop 12 bs"] by simp_all
  ultimately have "drop 4 bs = [bs ! 4, bs ! 5, bs ! 6, bs ! 7] @ take 4 (drop 8 bs) @ take 4 (drop 12 bs) @ drop 16 bs"
    by (metis append_Cons append_Nil)
  then show ?thesis using append_take_drop_id [of 4 bs] by simp
qed

lemma contains_ptr:
  assumes "bloom_wf b" "64 dvd p"
  shows "bloom_wf (b\<lparr>bb_blocks := (bb_blocks b)\<lparr>ab_ptr := p\<rparr>\<rparr>)"
    and "bloom_contains E k (b\<lparr>bb_blocks := (bb_blocks b)\<lparr>ab_ptr := p\<rparr>\<rparr>) = bloom_contains E k b"
proof -
  show wf: "bloom_wf (b\<lparr>bb_blocks := (bb_blocks b)\<lparr>ab_ptr := p\<rparr>\<rparr>)" using assms by (simp add: bloom_wf_def)
  show "bloom_contains E k (b\<lparr>bb_blocks := (bb_blocks b)\<lparr>ab_ptr := p\<rparr>\<rparr>) = bloom_contains E k b"
    unfolding bloom_contains_eq [OF wf] bloom_contains_eq [OF assms(1)] by (simp add: block_of_def)
qed

section \<open>Properties\<close>



text \<open>
  C14. The vector probe equals the scalar one: on every block of 64 bytes at an address the
  allocator hands out for the filter, for every hash and every number of hashes, the aligned
  loads do not trap and the answer is the same.
\<close>

theorem bloom_probes_agree:
  assumes "length block = BLOCK_BYTES" "BLOCK_BYTES dvd ptr"
  shows "probe_avx2 ptr block h k = Inr (probe_scalar block h k)"
  using probe_avx2_iff assms unfolding BLOCK_BYTES_def by blast

theorem bloom_probes_agree_witness:
  "probe_avx2 128 (replicate 64 255) 12345 8 = Inr (probe_scalar (replicate 64 255) 12345 8)"
  using bloom_probes_agree [of "replicate 64 255" 128 12345 8] by (simp add: BLOCK_BYTES_def)

lemma bloom_decode_accepts:
  assumes "allocates E" "16 \<le> length bs" "u32_from_le (take 4 bs) = FILTER_MAGIC" "bs ! 4 = FILTER_VERSION"
    and n: "n = u32_from_le (take 4 (drop 8 bs))" "n \<noteq> 0" "length bs = 16 + unat n * 64"
    and h: "bs ! 5 \<noteq> 0" "\<not> 16 < bs ! 5"
  shows "\<exists>b. bloom_decode E bs = Inr b \<and> bloom_wf b \<and> bloom_encode b = Inr (bs[7 := 0])"
proof -
  have "0 < n" using n(2) by (simp add: word_gt_0)
  then obtain p where p: "with_alignment E (unat n * 64) 64 =
      Inr (Some \<lparr>ab_ptr = p, ab_bytes = replicate (unat n * 64) 0, ab_align = 64\<rparr>)" "64 dvd p"
    using bloom_decode_alloc [OF assms(1)] by blast
  define k where "k = u32_from_le (take 4 (drop 12 bs))"
  define b where "b = \<lparr>bb_blocks = \<lparr>ab_ptr = p, ab_bytes = drop 16 bs, ab_align = 64\<rparr>, bb_num_blocks = n,
    bb_num_keys = k, bb_params = \<lparr>bp_num_hashes = bs ! 5, bp_bits_per_key = bs ! 6\<rparr>\<rparr>"
  have "bloom_decode E bs = Inr b"
    unfolding bloom_decode_def Let_def BLOOM_HEADER_SIZE_def BLOCK_BYTES_def n(1) [symmetric] k_def [symmetric] p(1)
    using assms(2-4) n(2,3) h by (simp add: b_def)
  moreover have nh: "1 \<le> bs ! 5" using h(1) by (simp add: word_le_nat_alt Suc_le_eq unat_gt_0)
  have wf: "bloom_wf b"
    using h(2) nh \<open>0 < n\<close> p(2) n(3) by (simp add: b_def bloom_wf_def not_less)
  moreover have "bloom_encode b = Inr (bs[7 := 0])"
  proof -
    have le: "length (take 4 bs) = 4" "length (take 4 (drop 8 bs)) = 4" "length (take 4 (drop 12 bs)) = 4"
      using assms(2) by simp_all
    have "u32_to_le FILTER_MAGIC = take 4 bs" unfolding assms(3) [symmetric] by (rule u32_to_le_from_le [OF le(1)])
    moreover have "u32_to_le n = take 4 (drop 8 bs)" unfolding n(1) by (rule u32_to_le_from_le [OF le(2)])
    moreover have "u32_to_le k = take 4 (drop 12 bs)" unfolding k_def by (rule u32_to_le_from_le [OF le(3)])
    moreover have "bs[7 := 0] = take 4 bs @ [bs ! 4, bs ! 5, bs ! 6, 0] @ take 4 (drop 8 bs) @ take 4 (drop 12 bs) @ drop 16 bs"
    proof -
      have "(take 4 bs @ [bs ! 4, bs ! 5, bs ! 6, bs ! 7] @ r)[7 := 0] = take 4 bs @ [bs ! 4, bs ! 5, bs ! 6, 0] @ r" for r
        using assms(2) by (simp add: list_update_append)
      then show ?thesis using bytes_split [OF assms(2)] by metis
    qed
    ultimately show ?thesis unfolding bloom_encode_ok [OF wf] by (simp add: b_def assms(4))
  qed
  ultimately show ?thesis using wf by blast
qed

lemma bloom_decode_result:
  assumes "allocates E"
  shows "no_panic (bloom_decode E bs) \<and>
    (\<forall>b. bloom_decode E bs = Inr b \<longrightarrow> bloom_wf b \<and> bloom_encode b = Inr (bs[7 := 0]))"
proof -
  define n where "n = u32_from_le (take 4 (drop 8 bs))"
  have reject: "a \<or> b \<or> c \<or> d \<or> e \<or> f \<Longrightarrow> \<exists>m. (if a then Inl (C m1) else if b then Inl (C m2) else if c then Inl (C m3)
      else if d then Inl (C m4) else if e then Inl (C m5) else if f then Inl (C m6) else r) = Inl (C m)"
    for a b c d e f and C :: "string \<Rightarrow> error" and m1 m2 m3 m4 m5 m6 r by auto
  have "\<exists>m. bloom_decode E bs = Inl (InvalidFormat ''bloom filter'' m)"
    if "length bs < 16 \<or> u32_from_le (take 4 bs) \<noteq> FILTER_MAGIC \<or> bs ! 4 \<noteq> FILTER_VERSION \<or>
      (bs ! 5 = 0 \<or> 16 < bs ! 5) \<or> n = 0 \<or> length bs \<noteq> 16 + unat n * 64"
    unfolding bloom_decode_def Let_def BLOOM_HEADER_SIZE_def BLOCK_BYTES_def invalid_format_static_def n_def [symmetric]
    by (rule reject [OF that])
  then consider (bad) "\<exists>m. bloom_decode E bs = Inl (InvalidFormat ''bloom filter'' m)"
    | (good) "16 \<le> length bs" "u32_from_le (take 4 bs) = FILTER_MAGIC" "bs ! 4 = FILTER_VERSION"
      "n \<noteq> 0" "length bs = 16 + unat n * 64" "bs ! 5 \<noteq> 0" "\<not> 16 < bs ! 5"
    using not_less by blast
  then show ?thesis
  proof cases
    case good
    from bloom_decode_accepts [OF assms good(1-3) n_def good(4-7)] show ?thesis by auto
  qed auto
qed



end
