(* ===== verification/Crypto.thy ===== *)
theory Crypto
  imports Externs
begin

text \<open>
  Encryption at rest, \<^verbatim>\<open>crates/paddock-core/src/crypto/\<close>: the AES-256-GCM wrapper (aead.rs),
  the derivation of the key of a table from the master key (kdf.rs), and the nonce and the
  associated data of a block (envelope.rs).  The cipher and HKDF are fields of \<open>externs\<close>;
  \<open>aead_correct\<close> and \<open>hkdf_total\<close> state their documented behaviour.
\<close>

definition TAG_LEN :: nat where "TAG_LEN = 16"
definition KEY_LEN :: nat where "KEY_LEN = 32"
definition NONCE_LEN :: nat where "NONCE_LEN = 12"
definition NONCE_FORMAT_TAG :: u32 where "NONCE_FORMAT_TAG = 0x43464F4E"

datatype aead_key = AeadKey (aead_key_bytes: bytes)
datatype master_key = MasterKey (master_key_bytes: bytes)
datatype nonce = Nonce (nonce_bytes: bytes)
datatype block_nonce = BlockNonce (as_nonce: nonce)
datatype aead_error = AeadFailed

record aead =
  ae_cipher_key :: bytes

definition aead_new :: "aead_key \<Rightarrow> aead" where
  "aead_new k = \<lparr>ae_cipher_key = aead_key_bytes k\<rparr>"

definition aead_seal :: "externs \<Rightarrow> aead \<Rightarrow> nonce \<Rightarrow> bytes \<Rightarrow> bytes \<Rightarrow> aead_error + bytes" where
  "aead_seal E a n aad plaintext =
     ok_or (ext_aes256gcm_encrypt E (ae_cipher_key a) (nonce_bytes n) aad plaintext) AeadFailed"

definition aead_open :: "externs \<Rightarrow> aead \<Rightarrow> nonce \<Rightarrow> bytes \<Rightarrow> bytes \<Rightarrow> aead_error + bytes" where
  "aead_open E a n aad ciphertext =
     ok_or (ext_aes256gcm_decrypt E (ae_cipher_key a) (nonce_bytes n) aad ciphertext) AeadFailed"

definition SSTABLE_INFO_PREFIX :: bytes where
  "SSTABLE_INFO_PREFIX = map of_char ''paddockkv:sstable:v1:''"

definition derive_sstable_key :: "externs \<Rightarrow> master_key \<Rightarrow> u64 \<Rightarrow> aead_key result" where
  "derive_sstable_key E master sstable_id =
     and_then (ok_or (ext_hkdf_sha256 E (master_key_bytes master)
                        (SSTABLE_INFO_PREFIX @ u64_to_le sstable_id) KEY_LEN)
                 (Panic ''HKDF expand cannot fail for 32-byte output''))
       (\<lambda>okm. Inr (AeadKey okm))"

definition derive_block_nonce :: "u64 \<Rightarrow> block_nonce" where
  "derive_block_nonce block_index = BlockNonce (Nonce (u32_to_le NONCE_FORMAT_TAG @ u64_to_le block_index))"

definition block_aad :: "u64 \<Rightarrow> u64 \<Rightarrow> bytes" where
  "block_aad sstable_id block_index = u64_to_le sstable_id @ u64_to_le block_index"

section \<open>What the crates promise\<close>

text \<open>
  GCM with a 32-byte key and a 12-byte nonce seals messages of less than $2^{36} - 32$ bytes,
  adds a tag of 16 bytes, and opens what it sealed.  HKDF with SHA-256 expands to any length
  up to 255 hashes.
\<close>

definition aead_correct :: "externs \<Rightarrow> bool" where
  "aead_correct E \<longleftrightarrow>
     (\<forall>k n a m. length k = 32 \<and> length n = 12 \<and> length m < 2 ^ 36 - 32 \<longrightarrow>
        (\<exists>c. ext_aes256gcm_encrypt E k n a m = Some c \<and> length c = length m + 16 \<and>
             ext_aes256gcm_decrypt E k n a c = Some m))"

definition hkdf_total :: "externs \<Rightarrow> bool" where
  "hkdf_total E \<longleftrightarrow>
     (\<forall>ikm info n. n \<le> 255 * 32 \<longrightarrow> (\<exists>okm. ext_hkdf_sha256 E ikm info n = Some okm \<and> length okm = n))"

section \<open>Facts\<close>

lemma length_block_nonce [simp]: "length (nonce_bytes (as_nonce (derive_block_nonce i))) = NONCE_LEN"
  by (simp add: derive_block_nonce_def NONCE_LEN_def)

lemma derive_sstable_key_ok:
  "hkdf_total E \<Longrightarrow> \<exists>k. derive_sstable_key E m i = Inr k \<and> length (aead_key_bytes k) = 32"
  unfolding hkdf_total_def derive_sstable_key_def KEY_LEN_def
  by (drule spec [of _ "master_key_bytes m"], drule spec [of _ "SSTABLE_INFO_PREFIX @ u64_to_le i"],
      drule spec [of _ 32]) auto

lemma seal_open:
  assumes "aead_correct E" "length (ae_cipher_key a) = 32" "length m < 2 ^ 36 - 32"
  shows "\<exists>c. aead_seal E a (as_nonce (derive_block_nonce i)) aad m = Inr c \<and> length c = length m + TAG_LEN \<and>
    aead_open E a (as_nonce (derive_block_nonce i)) aad c = Inr m"
  using assms(1) [unfolded aead_correct_def, rule_format, of "ae_cipher_key a"
      "nonce_bytes (as_nonce (derive_block_nonce i))" m aad] assms(2,3)
  by (auto simp: aead_seal_def aead_open_def NONCE_LEN_def TAG_LEN_def)



definition toy_aead :: "externs \<Rightarrow> externs" where
  "toy_aead E = E\<lparr>ext_aes256gcm_encrypt := \<lambda>k n a m. Some (m @ replicate 16 0),
     ext_aes256gcm_decrypt := \<lambda>k n a c. Some (take (length c - 16) c),
     ext_hkdf_sha256 := \<lambda>ikm info n. Some (replicate n 0)\<rparr>"


end
