(* ===== verification/SstWriter.thy ===== *)
theory SstWriter
  imports Block Bloom Crypto Vfs
begin

text \<open>
  The table writer, \<^verbatim>\<open>crates/paddock-core/src/sstable/writer.rs\<close>, over any file system.  The
  state of a method is the writer together with the store.  The file position is a natural
  number and is cast to 64 bits where the source stores it.  The debug assertions on the
  order of the keys and on the length of a sealed block are left out.

  The file it produces has the reference definition \<open>table_bytes\<close>: the header region, the
  data blocks with their padding, the filter, the index block and the footer.
\<close>

section \<open>The writer\<close>

record encryption_ctx =
  ec_aead :: aead
  ec_sstable_id :: u64

record 'h sst_writer =
  st_file :: 'h
  st_data_builder :: block_builder
  st_pending_index :: "(key \<times> block_handle) list"
  st_last_key :: key
  st_bytes_written :: nat
  st_num_entries :: u64
  st_num_blocks :: u64
  st_min_seqno :: u64
  st_max_seqno :: u64
  st_checksum_alg :: algorithm
  st_block_size :: nat
  st_bloom :: "blocked_bloom option"
  st_crypto :: "encryption_ctx option"

type_synonym ('s, 'h, 'a) sst_io = "('h sst_writer \<times> 's, 'a) io"

definition sst_create_inner ::
  "externs \<Rightarrow> ('s, 'h) vfs \<Rightarrow> 'h \<Rightarrow> algorithm \<Rightarrow> nat \<Rightarrow> bloom_params \<Rightarrow> encryption_ctx option \<Rightarrow>
     ('s, 'h sst_writer) io" where
  "sst_create_inner E V file checksum_alg expected_keys params crypto =
     io_bind (v_append V file (replicate FILE_HEADER_REGION_SIZE 0)) (\<lambda>_.
     io_bind (io_read (\<lambda>s. if expected_keys = 0 then Inr None
                           else and_then (bloom_new E expected_keys params) (\<lambda>b. Inr (Some b)))) (\<lambda>bloom.
     io_return \<lparr>st_file = file, st_data_builder = block_builder_new, st_pending_index = [],
                st_last_key = [], st_bytes_written = FILE_HEADER_REGION_SIZE, st_num_entries = 0,
                st_num_blocks = 0, st_min_seqno = - 1, st_max_seqno = 0, st_checksum_alg = checksum_alg,
                st_block_size = DEFAULT_BLOCK_SIZE, st_bloom = bloom, st_crypto = crypto\<rparr>))"

definition create_with_filter_capacity ::
  "externs \<Rightarrow> ('s, 'h) vfs \<Rightarrow> 'h \<Rightarrow> algorithm \<Rightarrow> nat \<Rightarrow> bloom_params \<Rightarrow> ('s, 'h sst_writer) io" where
  "create_with_filter_capacity E V file checksum_alg expected_keys params =
     sst_create_inner E V file checksum_alg expected_keys params None"

definition sst_create :: "externs \<Rightarrow> ('s, 'h) vfs \<Rightarrow> 'h \<Rightarrow> algorithm \<Rightarrow> ('s, 'h sst_writer) io" where
  "sst_create E V file checksum_alg =
     create_with_filter_capacity E V file checksum_alg 10000 bloom_params_default"

definition create_encrypted ::
  "externs \<Rightarrow> ('s, 'h) vfs \<Rightarrow> 'h \<Rightarrow> algorithm \<Rightarrow> nat \<Rightarrow> bloom_params \<Rightarrow> aead_key \<Rightarrow> u64 \<Rightarrow>
     ('s, 'h sst_writer) io" where
  "create_encrypted E V file checksum_alg expected_keys params key sstable_id =
     sst_create_inner E V file checksum_alg expected_keys params
       (Some \<lparr>ec_aead = aead_new key, ec_sstable_id = sstable_id\<rparr>)"

definition set_block_size :: "nat \<Rightarrow> 'h sst_writer \<Rightarrow> 'h sst_writer" where
  "set_block_size n w = w\<lparr>st_block_size := n\<rparr>"

text \<open>An append to the file with the count of the bytes, an update of the writer, and a pure step.\<close>

definition st_append :: "('s, 'h) vfs \<Rightarrow> bytes \<Rightarrow> ('s, 'h, unit) sst_io" where
  "st_append V data = (\<lambda>(w, s).
     case v_append V (st_file w) data s of
       (s', Inl e) \<Rightarrow> ((w, s'), Inl e)
     | (s', Inr _) \<Rightarrow> ((w\<lparr>st_bytes_written := st_bytes_written w + length data\<rparr>, s'), Inr ()))"

definition st_update :: "('h sst_writer \<Rightarrow> 'h sst_writer) \<Rightarrow> ('s, 'h, unit) sst_io" where
  "st_update f = (\<lambda>(w, s). ((f w, s), Inr ()))"

definition st_pure :: "('h sst_writer \<Rightarrow> 'a result) \<Rightarrow> ('s, 'h, 'a) sst_io" where
  "st_pure f = (\<lambda>(w, s). ((w, s), f w))"

definition align_to_block_boundary :: "('s, 'h) vfs \<Rightarrow> ('s, 'h, unit) sst_io" where
  "align_to_block_boundary V = (\<lambda>(w, s).
     let r = st_bytes_written w mod BLOCK_ALIGNMENT
     in if r \<noteq> 0 then st_append V (replicate (BLOCK_ALIGNMENT - r) 0) (w, s) else ((w, s), Inr ()))"

text \<open>The stored checksum of a block is its last four bytes.\<close>

definition block_crc :: "bytes \<Rightarrow> u32 result" where
  "block_crc bs = (if length bs < 4 then Inl (Panic ''4-byte slice'') else Inr (u32_from_le (drop (length bs - 4) bs)))"

definition seal_block :: "externs \<Rightarrow> encryption_ctx option \<Rightarrow> nat \<Rightarrow> bytes \<Rightarrow> (bytes \<times> u32) result" where
  "seal_block E crypto offset plaintext =
     (case crypto of
        Some ctx \<Rightarrow>
          (case aead_seal E (ec_aead ctx) (as_nonce (derive_block_nonce (of_nat offset)))
                  (block_aad (ec_sstable_id ctx) (of_nat offset)) plaintext of
             Inl _ \<Rightarrow> Inl (corruption_static ''sstable writer'' ''AEAD seal failed'')
           | Inr ct \<Rightarrow> Inr (ct, 0))
      | None \<Rightarrow> and_then (block_crc plaintext) (\<lambda>crc. Inr (plaintext, crc)))"

definition u32_length :: "bytes \<Rightarrow> string \<Rightarrow> u32 result" where
  "u32_length bs msg = (if length bs < 2 ^ 32 then Inr (of_nat (length bs)) else Inl (Panic msg))"

definition write_block :: "externs \<Rightarrow> ('s, 'h) vfs \<Rightarrow> bytes \<Rightarrow> ('s, 'h, block_handle) sst_io" where
  "write_block E V plaintext = (\<lambda>(w, s).
     let offset = st_bytes_written w
     in io_bind (st_pure (\<lambda>w. seal_block E (st_crypto w) offset plaintext)) (\<lambda>(on_disk, checksum).
        io_bind (st_append V on_disk) (\<lambda>_.
        io_bind (st_pure (\<lambda>w. u32_length on_disk ''block length always fits in u32'')) (\<lambda>len.
        io_bind (align_to_block_boundary V) (\<lambda>_.
        io_return \<lparr>bh_offset = of_nat offset, bh_length = len, bh_checksum = checksum\<rparr>)))) (w, s))"

definition flush_block :: "externs \<Rightarrow> ('s, 'h) vfs \<Rightarrow> ('s, 'h, unit) sst_io" where
  "flush_block E V = (\<lambda>(w, s).
     if block_is_empty (st_data_builder w) then ((w, s), Inr ())
     else io_bind (st_pure (\<lambda>w. block_finish E (st_data_builder w))) (\<lambda>(builder, bs).
          io_bind (st_update (\<lambda>w. w\<lparr>st_data_builder := builder\<rparr>)) (\<lambda>_.
          io_bind (write_block E V bs) (\<lambda>handle.
          st_update (\<lambda>w. w\<lparr>st_pending_index := st_pending_index w @ [(st_last_key w, handle)],
                           st_last_key := [], st_num_blocks := st_num_blocks w + 1\<rparr>)))) (w, s))"

definition filter_insert :: "externs \<Rightarrow> key \<Rightarrow> blocked_bloom option \<Rightarrow> blocked_bloom option result" where
  "filter_insert E key bloom =
     (case bloom of None \<Rightarrow> Inr None | Some b \<Rightarrow> and_then (bloom_insert E key b) (\<lambda>b. Inr (Some b)))"

definition sst_add :: "externs \<Rightarrow> ('s, 'h) vfs \<Rightarrow> key \<Rightarrow> bytes \<Rightarrow> u64 \<Rightarrow> record_op \<Rightarrow> ('s, 'h, unit) sst_io" where
  "sst_add E V key val seqno op =
     io_bind (st_pure (\<lambda>w. block_add key val seqno op (st_data_builder w))) (\<lambda>builder.
     io_bind (st_update (\<lambda>w. w\<lparr>st_data_builder := builder\<rparr>)) (\<lambda>_.
     io_bind (st_pure (\<lambda>w. filter_insert E key (st_bloom w))) (\<lambda>bloom.
     io_bind (st_update (\<lambda>w. w\<lparr>st_bloom := bloom, st_last_key := key, st_num_entries := st_num_entries w + 1,
                               st_min_seqno := min (st_min_seqno w) seqno,
                               st_max_seqno := max (st_max_seqno w) seqno\<rparr>)) (\<lambda>_.
     (\<lambda>(w, s). if st_block_size w \<le> estimated_size (st_data_builder w) then flush_block E V (w, s)
               else ((w, s), Inr ()))))))"

fun index_add :: "(key \<times> block_handle) list \<Rightarrow> block_builder \<Rightarrow> block_builder result" where
  "index_add [] b = Inr b"
| "index_add ((last_key, handle) # es) b =
     and_then (block_add last_key (block_handle_bytes handle) 0 RPut b) (index_add es)"

definition build_index_block :: "externs \<Rightarrow> (key \<times> block_handle) list \<Rightarrow> bytes result" where
  "build_index_block E entries =
     and_then (index_add entries block_builder_new) (\<lambda>b.
     and_then (block_finish E b) (\<lambda>(b, bs). Inr bs))"

text \<open>The filter block, or a handle of length zero when there is none.\<close>

definition write_filter :: "('s, 'h) vfs \<Rightarrow> ('s, 'h, block_handle) sst_io" where
  "write_filter V = (\<lambda>(w, s).
     case st_bloom w of
       Some b \<Rightarrow>
         io_bind (st_update (\<lambda>w. w\<lparr>st_bloom := None\<rparr>)) (\<lambda>_.
         io_bind (st_pure (\<lambda>w. bloom_encode b)) (\<lambda>bs.
         let offset = st_bytes_written w in
         io_bind (st_append V bs) (\<lambda>_.
         io_bind (st_pure (\<lambda>w. u32_length bs ''filter block fits in u32'')) (\<lambda>len.
         io_return \<lparr>bh_offset = of_nat offset, bh_length = len, bh_checksum = 0\<rparr>)))) (w, s)
     | None \<Rightarrow> ((w, s), Inr \<lparr>bh_offset = of_nat (st_bytes_written w), bh_length = 0, bh_checksum = 0\<rparr>))"

definition write_index :: "externs \<Rightarrow> ('s, 'h) vfs \<Rightarrow> ('s, 'h, block_handle) sst_io" where
  "write_index E V =
     io_bind (st_pure (\<lambda>w. build_index_block E (st_pending_index w))) (\<lambda>bs. \<lambda>(w, s).
     let offset = st_bytes_written w in
     io_bind (st_update (\<lambda>w. w\<lparr>st_pending_index := []\<rparr>)) (\<lambda>_.
     io_bind (st_append V bs) (\<lambda>_.
     io_bind (st_pure (\<lambda>w. block_crc bs)) (\<lambda>crc.
     io_bind (st_pure (\<lambda>w. u32_length bs ''u32 fits'')) (\<lambda>len.
     io_return \<lparr>bh_offset = of_nat offset, bh_length = len, bh_checksum = crc\<rparr>)))) (w, s))"

text \<open>The header that is filled in at the end.\<close>

definition final_header :: "externs \<Rightarrow> bool \<Rightarrow> nat \<Rightarrow> 'h sst_writer \<Rightarrow> file_header" where
  "final_header E encrypted data_blocks_end w =
     file_header_new_signed E (if encrypted then flag_CHECKSUMMED OR flag_ENCRYPTED else flag_CHECKSUMMED)
       NoCompression (st_checksum_alg w) (st_num_entries w) (st_num_blocks w)
       (if st_min_seqno w = - 1 then 0 else st_min_seqno w) (st_max_seqno w) (of_nat data_blocks_end)"

definition sst_finish :: "externs \<Rightarrow> ('s, 'h) vfs \<Rightarrow> ('s, 'h, 'h) sst_io" where
  "sst_finish E V =
     io_bind (flush_block E V) (\<lambda>_. \<lambda>(w, s).
     let data_blocks_end_offset = st_bytes_written w;
         encrypted = (st_crypto w \<noteq> None)
     in io_bind (write_filter V) (\<lambda>filter_handle. \<lambda>(w, s).
        let meta_handle = \<lparr>bh_offset = of_nat (st_bytes_written w), bh_length = 0, bh_checksum = 0\<rparr>
        in io_bind (write_index E V) (\<lambda>index_handle.
           io_bind (st_append V (footer_bytes (footer_new_signed E index_handle filter_handle meta_handle))) (\<lambda>_. \<lambda>(w, s).
           let header = final_header E encrypted data_blocks_end_offset w;
               (s, r) = v_write_at V (st_file w) (file_header_bytes header) 0 s
           in case r of Inl e \<Rightarrow> ((w, s), Inl e) | Inr _ \<Rightarrow> ((w, s), Inr (st_file w)))) (w, s)) (w, s))"

section \<open>The layout\<close>

definition disk_block :: "externs \<Rightarrow> encryption_ctx option \<Rightarrow> nat \<Rightarrow> block_record list \<Rightarrow> bytes" where
  "disk_block E c off rs = (case seal_block E c off (block_bytes E rs) of Inl _ \<Rightarrow> [] | Inr (d, crc) \<Rightarrow> d)"

definition disk_crc :: "externs \<Rightarrow> encryption_ctx option \<Rightarrow> nat \<Rightarrow> block_record list \<Rightarrow> u32" where
  "disk_crc E c off rs = (case seal_block E c off (block_bytes E rs) of Inl _ \<Rightarrow> 0 | Inr (d, crc) \<Rightarrow> crc)"

definition align_pad :: "nat \<Rightarrow> nat" where
  "align_pad n = (if n mod 4096 = 0 then 0 else 4096 - n mod 4096)"

definition padded_block :: "externs \<Rightarrow> encryption_ctx option \<Rightarrow> nat \<Rightarrow> block_record list \<Rightarrow> bytes" where
  "padded_block E c off rs =
     disk_block E c off rs @ replicate (align_pad (off + length (disk_block E c off rs))) 0"

fun data_bytes :: "externs \<Rightarrow> encryption_ctx option \<Rightarrow> nat \<Rightarrow> block_record list list \<Rightarrow> bytes" where
  "data_bytes E c off [] = []"
| "data_bytes E c off (rs # bss) =
     padded_block E c off rs @ data_bytes E c (off + length (padded_block E c off rs)) bss"

definition block_entry :: "externs \<Rightarrow> encryption_ctx option \<Rightarrow> nat \<Rightarrow> block_record list \<Rightarrow> key \<times> block_handle" where
  "block_entry E c off rs = (rec_key (last rs), \<lparr>bh_offset = of_nat off,
     bh_length = of_nat (length (disk_block E c off rs)), bh_checksum = disk_crc E c off rs\<rparr>)"

fun index_entries :: "externs \<Rightarrow> encryption_ctx option \<Rightarrow> nat \<Rightarrow> block_record list list \<Rightarrow> (key \<times> block_handle) list" where
  "index_entries E c off [] = []"
| "index_entries E c off (rs # bss) =
     block_entry E c off rs # index_entries E c (off + length (padded_block E c off rs)) bss"

lemma data_bytes_snoc:
  "data_bytes E c off (bss @ [rs]) =
     data_bytes E c off bss @ padded_block E c (off + length (data_bytes E c off bss)) rs"
  by (induction bss arbitrary: off) (simp_all add: add.assoc)

lemma index_entries_snoc:
  "index_entries E c off (bss @ [rs]) =
     index_entries E c off bss @ [block_entry E c (off + length (data_bytes E c off bss)) rs]"
  by (induction bss arbitrary: off) (simp_all add: add.assoc)

lemma align_pad_dvd: "4096 dvd n + align_pad n"
proof (cases "n mod 4096 = 0")
  case False
  then have "(n + (4096 - n mod 4096)) mod 4096 = 0"
    by (metis add.commute le_add_diff_inverse less_imp_le_nat mod_add_left_eq mod_less_divisor mod_self zero_less_numeral)
  then show ?thesis using False by (simp add: align_pad_def mod_eq_0_iff_dvd)
qed (simp add: align_pad_def mod_eq_0_iff_dvd)

lemma align_pad_less: "align_pad n < 4096"
  by (simp add: align_pad_def)

text \<open>What makes sealing succeed.\<close>

definition sealable :: "externs \<Rightarrow> encryption_ctx option \<Rightarrow> bool" where
  "sealable E c \<longleftrightarrow> (case c of None \<Rightarrow> True | Some ctx \<Rightarrow> aead_correct E \<and> length (ae_cipher_key (ec_aead ctx)) = 32)"

lemma seal_block_cases:
  assumes "sealable E c" "length (block_bytes E rs) < 2 ^ 36 - 32"
  shows "seal_block E c off (block_bytes E rs) = Inr (disk_block E c off rs, disk_crc E c off rs) \<and>
    length (disk_block E c off rs) = length (block_bytes E rs) + (if c = None then 0 else 16) \<and>
    (case c of None \<Rightarrow> disk_block E c off rs = block_bytes E rs
     | Some ctx \<Rightarrow> aead_open E (ec_aead ctx) (as_nonce (derive_block_nonce (of_nat off)))
         (block_aad (ec_sstable_id ctx) (of_nat off)) (disk_block E c off rs) = Inr (block_bytes E rs))"
proof (cases c)
  case None
  have "\<not> length (block_bytes E rs) < 4" by (simp add: block_bytes_def)
  then show ?thesis using None by (simp add: disk_block_def disk_crc_def seal_block_def block_crc_def)
next
  case (Some x)
  then obtain ct where "aead_seal E (ec_aead x) (as_nonce (derive_block_nonce (of_nat off)))
      (block_aad (ec_sstable_id x) (of_nat off)) (block_bytes E rs) = Inr ct"
    "length ct = length (block_bytes E rs) + TAG_LEN"
    "aead_open E (ec_aead x) (as_nonce (derive_block_nonce (of_nat off)))
      (block_aad (ec_sstable_id x) (of_nat off)) ct = Inr (block_bytes E rs)"
    using seal_open [of E "ec_aead x" "block_bytes E rs"] assms by (auto simp: sealable_def)
  then show ?thesis using Some by (simp add: disk_block_def disk_crc_def seal_block_def TAG_LEN_def)
qed

lemmas seal_block_ok = seal_block_cases [THEN conjunct1]
lemmas disk_block_size = seal_block_cases [THEN conjunct2, THEN conjunct1]
lemmas disk_block_opens = seal_block_cases [THEN conjunct2, THEN conjunct2]

lemma disk_block_length:
  assumes "sealable E c" "length (block_bytes E rs) < 2 ^ 36 - 32"
  shows "length (disk_block E c off rs) \<le> length (block_bytes E rs) + 16"
  using disk_block_size [OF assms, of off] by simp

section \<open>Sizes\<close>

definition data_size :: "block_record list \<Rightarrow> nat" where
  "data_size rs = (\<Sum>r\<leftarrow>rs. 64 + length (rec_key r) + length (rec_value r))"

lemma data_size_simps [simp]: "data_size [] = 0" "data_size (r # rs) = 64 + length (rec_key r) + length (rec_value r) + data_size rs"
  "data_size (xs @ ys) = data_size xs + data_size ys"
  by (simp_all add: data_size_def)

lemma data_size_enc: "(\<Sum>r\<leftarrow>rs. 24 + length (rec_key r) + length (rec_value r)) + 4 * length rs \<le> data_size rs"
  by (induction rs) simp_all

lemma data_size_length: "64 * length rs \<le> data_size rs"
  by (induction rs) simp_all

lemma length_block_bytes: "length (block_bytes E rs) = length (enc 0 [] rs) + 4 * ((length rs + 15) div 16) + 8"
  by (simp add: block_bytes_def block_body_def length_restart_list)

lemma length_block_bytes_le:
  assumes "list_all rec_fits rs" shows "length (block_bytes E rs) \<le> data_size rs + 8"
proof -
  have "(length rs + 15) div 16 \<le> length rs" by (cases rs) simp_all
  then show ?thesis using length_enc_le [OF assms, of 0 "[]"] data_size_enc [of rs] unfolding length_block_bytes by linarith
qed

text \<open>Records that a table can hold: the fields fit their lengths, and all together stay below 2 GiB.\<close>

definition table_fits :: "block_record list \<Rightarrow> bool" where
  "table_fits rs \<longleftrightarrow> list_all rec_fits rs \<and> data_size rs < 2 ^ 31"

lemma table_fits_append: "table_fits (xs @ ys) \<Longrightarrow> table_fits xs \<and> table_fits ys"
  by (simp add: table_fits_def)

lemma table_fits_block:
  assumes "table_fits rs"
  shows "length (block_bytes E rs) < 2 ^ 31 + 8" "length rs < 2 ^ 25" "length (enc 0 [] rs) < 2 ^ 31"
proof -
  have "length (block_bytes E rs) \<le> data_size rs + 8" "data_size rs < 2 ^ 31"
    using assms length_block_bytes_le by (auto simp: table_fits_def)
  then show "length (block_bytes E rs) < 2 ^ 31 + 8" "length (enc 0 [] rs) < 2 ^ 31"
    by (simp_all add: length_block_bytes)
  show "length rs < 2 ^ 25" using data_size_length [of rs] \<open>data_size rs < 2 ^ 31\<close> by simp
qed

section \<open>The state of the writer\<close>

definition zero_region :: bytes where "zero_region = replicate 4096 0"

lemma length_zero_region [simp]: "length zero_region = 4096"
  by (simp add: zero_region_def)

definition table_state ::
  "externs \<Rightarrow> encryption_ctx option \<Rightarrow> 'h sst_writer \<Rightarrow> bytes \<Rightarrow> block_record list list \<Rightarrow> block_record list \<Rightarrow> bool" where
  "table_state E c w bs bss cur \<longleftrightarrow>
     st_data_builder w = builder_of cur \<and> st_last_key w = key_before [] cur \<and> st_crypto w = c \<and>
     bs = zero_region @ data_bytes E c 4096 bss \<and> st_bytes_written w = length bs \<and> 4096 dvd length bs \<and>
     st_pending_index w = index_entries E c 4096 bss \<and> [] \<notin> set bss \<and>
     st_num_entries w = of_nat (length (concat bss @ cur)) \<and> st_num_blocks w = of_nat (length bss) \<and>
     st_min_seqno w = fold min (map rec_seqno (concat bss @ cur)) (- 1) \<and>
     st_max_seqno w = fold max (map rec_seqno (concat bss @ cur)) 0"

definition filter_state :: "externs \<Rightarrow> u32 \<Rightarrow> blocked_bloom option \<Rightarrow> block_record list \<Rightarrow> bool" where
  "filter_state E nb bloom rs \<longleftrightarrow>
     (case bloom of None \<Rightarrow> True
      | Some b \<Rightarrow> bloom_wf b \<and> bb_num_blocks b = nb \<and> (\<forall>r \<in> set rs. bloom_contains E (rec_key r) b = Inr True))"

lemma bloom_insert_num_blocks: "bloom_insert E k b = Inr b' \<Longrightarrow> bb_num_blocks b' = bb_num_blocks b"
  by (auto simp: bloom_insert_def Let_def result_simps)

lemma filter_insert_ok:
  assumes "filter_state E nb bloom rs"
  shows "\<exists>bloom'. filter_insert E (rec_key r) bloom = Inr bloom' \<and> filter_state E nb bloom' (rs @ [r]) \<and>
    (bloom' = None \<longleftrightarrow> bloom = None)"
proof (cases bloom)
  case (Some b)
  then have b: "bloom_wf b" "bb_num_blocks b = nb" "\<forall>r \<in> set rs. bloom_contains E (rec_key r) b = Inr True"
    using assms by (simp_all add: filter_state_def)
  then obtain b' where "bloom_insert E (rec_key r) b = Inr b'" "bloom_wf b'" "bloom_contains E (rec_key r) b' = Inr True"
    "\<forall>x. bloom_contains E x b = Inr True \<longrightarrow> bloom_contains E x b' = Inr True"
    using bloom.ins [OF b(1), of E "rec_key r"] by blast
  then show ?thesis using Some b bloom_insert_num_blocks by (auto simp: filter_insert_def filter_state_def)
qed (simp add: filter_insert_def filter_state_def)

lemma st_pure_apply [simp]: "st_pure f (w, s) = ((w, s), f w)"
  by (simp add: st_pure_def)

lemma st_update_apply [simp]: "st_update f (w, s) = ((f w, s), Inr ())"
  by (simp add: st_update_def)

lemma align_pad_mod: "n mod BLOCK_ALIGNMENT \<noteq> 0 \<Longrightarrow> BLOCK_ALIGNMENT - n mod BLOCK_ALIGNMENT = align_pad n"
  "n mod BLOCK_ALIGNMENT = 0 \<Longrightarrow> align_pad n = 0"
  by (simp_all add: align_pad_def BLOCK_ALIGNMENT_def)

context file_store
begin

lemma st_append_ok:
  assumes "live s (fid (st_file w))"
  obtains s' where "st_append V d (w, s) = ((w\<lparr>st_bytes_written := st_bytes_written w + length d\<rparr>, s'), Inr ())"
    "grew (fid (st_file w)) d s s'"
proof -
  obtain s' where "v_append V (st_file w) d s = (s', Inr (length (contents s (fid (st_file w)))))" "grew (fid (st_file w)) d s s'"
    using append_grew [OF assms] .
  then show thesis by (intro that [of s']) (simp_all add: st_append_def)
qed

lemma align_ok:
  assumes "live s (fid (st_file w))"
  obtains s' where "align_to_block_boundary V (w, s) =
      ((w\<lparr>st_bytes_written := st_bytes_written w + align_pad (st_bytes_written w)\<rparr>, s'), Inr ())"
    "grew (fid (st_file w)) (replicate (align_pad (st_bytes_written w)) 0) s s'"
proof (cases "st_bytes_written w mod BLOCK_ALIGNMENT = 0")
  case True
  then show thesis
    by (intro that [of s]) (simp_all add: align_to_block_boundary_def Let_def align_pad_mod(2))
next
  case False
  obtain s' where "st_append V (replicate (align_pad (st_bytes_written w)) 0) (w, s) =
      ((w\<lparr>st_bytes_written := st_bytes_written w + align_pad (st_bytes_written w)\<rparr>, s'), Inr ())"
    "grew (fid (st_file w)) (replicate (align_pad (st_bytes_written w)) 0) s s'"
    using st_append_ok [OF assms, of "replicate (align_pad (st_bytes_written w)) 0"] unfolding length_replicate .
  with False show thesis
    by (intro that [of s']) (simp_all add: align_to_block_boundary_def Let_def align_pad_mod(1))
qed

lemma grew_live: "grew f d s s' \<Longrightarrow> live s' = live s"
  by (simp add: grew_def)

lemma write_block_ok:
  assumes live: "live s (fid (st_file w))" and seal: "sealable E (st_crypto w)" and fits: "table_fits rs"
    and off: "off = st_bytes_written w" and c: "c = st_crypto w"
  obtains s' where "write_block E V (block_bytes E rs) (w, s) =
      ((w\<lparr>st_bytes_written := off + length (padded_block E c off rs)\<rparr>, s'), Inr (snd (block_entry E c off rs)))"
    "grew (fid (st_file w)) (padded_block E c off rs) s s'"
proof -
  define d where "d = disk_block E c off rs"
  have len: "length (block_bytes E rs) < 2 ^ 36 - 32" using table_fits_block(1) [OF fits, of E] by simp
  have "length d \<le> length (block_bytes E rs) + 16" unfolding d_def c by (rule disk_block_length [OF seal len])
  then have dlen: "length d < 2 ^ 32" using table_fits_block(1) [OF fits, of E] by simp
  have sealed: "seal_block E c off (block_bytes E rs) = Inr (d, disk_crc E c off rs)"
    unfolding d_def c by (rule seal_block_ok [OF seal len])
  obtain s1 where s1: "st_append V d (w, s) = ((w\<lparr>st_bytes_written := off + length d\<rparr>, s1), Inr ())"
    "grew (fid (st_file w)) d s s1" using st_append_ok [OF live] unfolding off .
  let ?w1 = "w\<lparr>st_bytes_written := off + length d\<rparr>"
  have "live s1 (fid (st_file ?w1))" using live grew_live [OF s1(2)] by simp
  then obtain s2 where s2: "align_to_block_boundary V (?w1, s1) =
      ((?w1\<lparr>st_bytes_written := off + length d + align_pad (off + length d)\<rparr>, s2), Inr ())"
    "grew (fid (st_file w)) (replicate (align_pad (off + length d)) 0) s1 s2"
    using align_ok [of s1 ?w1] by auto
  have "write_block E V (block_bytes E rs) (w, s) =
      ((w\<lparr>st_bytes_written := off + length (padded_block E c off rs)\<rparr>, s2), Inr (snd (block_entry E c off rs)))"
    unfolding write_block_def Let_def off [symmetric] prod.case
    using sealed [unfolded c] s1(1) s2(1) dlen
    by (simp add: u32_length_def padded_block_def block_entry_def c d_def)
  moreover have "grew (fid (st_file w)) (padded_block E c off rs) s s2"
    using grew_trans [OF s1(2) s2(2)] by (simp add: padded_block_def flip: d_def)
  ultimately show thesis by (rule that)
qed

lemma flush_block_ok:
  assumes live: "live s (fid (st_file w))" and st: "table_state E c w bs bss cur" and ne: "cur \<noteq> []"
    and seal: "sealable E c" and fits: "table_fits cur"
  obtains w' s' where "flush_block E V (w, s) = ((w', s'), Inr ())"
    "grew (fid (st_file w)) (padded_block E c (length bs) cur) s s'"
    "table_state E c w' (bs @ padded_block E c (length bs) cur) (bss @ [cur]) []"
    "st_file w' = st_file w" "st_bloom w' = st_bloom w" "st_block_size w' = st_block_size w" "st_checksum_alg w' = st_checksum_alg w"
proof -
  note T = st [unfolded table_state_def]
  define w1 where "w1 = w\<lparr>st_data_builder := builder_of []\<rparr>"
  have w1: "live s (fid (st_file w1))" "sealable E (st_crypto w1)" "length bs = st_bytes_written w1" "c = st_crypto w1"
    using live seal T by (simp_all add: w1_def)
  obtain s' where wb: "write_block E V (block_bytes E cur) (w1, s) =
      ((w1\<lparr>st_bytes_written := length bs + length (padded_block E c (length bs) cur)\<rparr>, s'),
       Inr (snd (block_entry E c (length bs) cur)))" "grew (fid (st_file w1)) (padded_block E c (length bs) cur) s s'"
    using write_block_ok [OF w1(1,2) fits w1(3,4)] .
  define w' where "w' = w1\<lparr>st_bytes_written := length bs + length (padded_block E c (length bs) cur),
     st_pending_index := st_pending_index w @ [block_entry E c (length bs) cur], st_last_key := [], st_num_blocks := st_num_blocks w + 1\<rparr>"
  have fin: "block_finish E (st_data_builder w) = Inr (builder_of [], block_bytes E cur)"
    using T block_finish_ok [of cur E] table_fits_block(2) [OF fits] by simp
  have "\<not> block_is_empty (st_data_builder w)" using T ne by (simp add: block_is_empty_builder)
  moreover have "(st_last_key w, snd (block_entry E c (length bs) cur)) = block_entry E c (length bs) cur"
    using T ne by (simp add: block_entry_def key_before_def)
  moreover have "w1\<lparr>st_bytes_written := n, st_pending_index := st_pending_index w1 @ es, st_last_key := [], st_num_blocks := st_num_blocks w1 + 1\<rparr> =
      w1\<lparr>st_bytes_written := n, st_pending_index := st_pending_index w @ es, st_last_key := [], st_num_blocks := st_num_blocks w + 1\<rparr>"
    "st_last_key w1 = st_last_key w" for n es by (simp_all add: w1_def)
  ultimately have "flush_block E V (w, s) = ((w', s'), Inr ())"
    unfolding flush_block_def prod.case using fin wb(1) by (simp add: w1_def [symmetric] w'_def)
  moreover have "table_state E c w' (bs @ padded_block E c (length bs) cur) (bss @ [cur]) []"
  proof -
    have bs: "bs = zero_region @ data_bytes E c 4096 bss" and len: "length bs = 4096 + length (data_bytes E c 4096 bss)"
      using T by simp_all
    have dvd: "4096 dvd length (bs @ padded_block E c (length bs) cur)"
      using align_pad_dvd [of "length bs + length (disk_block E c (length bs) cur)"] by (simp add: padded_block_def add.assoc)
    have "bs @ padded_block E c (length bs) cur = zero_region @ data_bytes E c 4096 (bss @ [cur])"
      unfolding data_bytes_snoc len [symmetric] using bs by simp
    moreover have "st_pending_index w' = index_entries E c 4096 (bss @ [cur])"
      unfolding index_entries_snoc len [symmetric] using T by (simp add: w'_def)
    moreover have "st_bytes_written w' = length (bs @ padded_block E c (length bs) cur)" by (simp add: w'_def)
    moreover have all: "concat (bss @ [cur]) @ [] = concat bss @ cur" by simp
    moreover have "st_data_builder w' = builder_of []" "st_last_key w' = []" "st_crypto w' = c" "[] \<notin> set (bss @ [cur])"
      "st_num_blocks w' = of_nat (length (bss @ [cur]))" "st_num_entries w' = st_num_entries w"
      "st_min_seqno w' = st_min_seqno w" "st_max_seqno w' = st_max_seqno w"
      using T ne by (simp_all add: w'_def w1_def)
    ultimately show ?thesis unfolding table_state_def all key_before_simps using T dvd by metis
  qed
  ultimately show thesis using wb(2) by (intro that [of w' s']) (simp_all add: w'_def w1_def)
qed

end

fun sst_add_all :: "externs \<Rightarrow> ('s, 'h) vfs \<Rightarrow> block_record list \<Rightarrow> ('s, 'h, unit) sst_io" where
  "sst_add_all E V [] = io_return ()"
| "sst_add_all E V (r # rs) =
     io_bind (sst_add E V (rec_key r) (rec_value r) (rec_seqno r) (rec_op r)) (\<lambda>_. sst_add_all E V rs)"

text \<open>The parts of the writer that adding records leaves alone.\<close>

definition same_config :: "'h sst_writer \<Rightarrow> 'h sst_writer \<Rightarrow> bool" where
  "same_config w w' \<longleftrightarrow> st_file w' = st_file w \<and> st_block_size w' = st_block_size w \<and>
     st_checksum_alg w' = st_checksum_alg w \<and> (st_bloom w' = None \<longleftrightarrow> st_bloom w = None)"

lemma same_config_refl [simp]: "same_config w w"
  by (simp add: same_config_def)

lemma same_config_trans: "same_config w w' \<Longrightarrow> same_config w' w'' \<Longrightarrow> same_config w w''"
  by (simp add: same_config_def)

lemma table_state_add:
  assumes "table_state E c w bs bss cur"
  shows "table_state E c (w\<lparr>st_data_builder := builder_of (cur @ [r]), st_bloom := bl, st_last_key := rec_key r,
     st_num_entries := st_num_entries w + 1, st_min_seqno := min (st_min_seqno w) (rec_seqno r),
     st_max_seqno := max (st_max_seqno w) (rec_seqno r)\<rparr>) bs bss (cur @ [r])"
  using assms unfolding table_state_def by (auto simp: min.commute max.commute)

context file_store
begin

lemma sst_add_ok:
  assumes live: "live s (fid (st_file w))" and st: "table_state E c w bs bss cur"
    and fs: "filter_state E nb (st_bloom w) (concat bss @ cur)"
    and seal: "sealable E c" and fits: "table_fits (concat bss @ cur @ [r])"
  obtains w' s' d bss' cur' where
    "sst_add E V (rec_key r) (rec_value r) (rec_seqno r) (rec_op r) (w, s) = ((w', s'), Inr ())"
    "grew (fid (st_file w)) d s s'" "table_state E c w' (bs @ d) bss' cur'" "concat bss' @ cur' = concat bss @ cur @ [r]"
    "filter_state E nb (st_bloom w') (concat bss' @ cur')" "same_config w w'"
proof -
  have "rec_fits r" "table_fits (cur @ [r])" using fits table_fits_append [of "concat bss" "cur @ [r]"] by (simp_all add: table_fits_def)
  then have add: "block_add (rec_key r) (rec_value r) (rec_seqno r) (rec_op r) (st_data_builder w) = Inr (builder_of (cur @ [r]))"
    using st block_add_ok by (simp add: table_state_def)
  obtain bl where bl: "filter_insert E (rec_key r) (st_bloom w) = Inr bl" "filter_state E nb bl ((concat bss @ cur) @ [r])"
    "bl = None \<longleftrightarrow> st_bloom w = None" using filter_insert_ok [OF fs] by blast
  define w1 where "w1 = w\<lparr>st_data_builder := builder_of (cur @ [r]), st_bloom := bl, st_last_key := rec_key r,
     st_num_entries := st_num_entries w + 1, st_min_seqno := min (st_min_seqno w) (rec_seqno r),
     st_max_seqno := max (st_max_seqno w) (rec_seqno r)\<rparr>"
  have st1: "table_state E c w1 bs bss (cur @ [r])" unfolding w1_def by (rule table_state_add [OF st])
  have w1: "same_config w w1" "st_bloom w1 = bl" using bl(3) by (simp_all add: same_config_def w1_def)
  have run: "sst_add E V (rec_key r) (rec_value r) (rec_seqno r) (rec_op r) (w, s) =
      (if st_block_size w1 \<le> estimated_size (st_data_builder w1) then flush_block E V (w1, s) else ((w1, s), Inr ()))"
    using add bl(1) by (simp add: sst_add_def w1_def)
  show thesis
  proof (cases "st_block_size w1 \<le> estimated_size (st_data_builder w1)")
    case True
    have same_file: "st_file w1 = st_file w" by (simp add: w1_def)
    then have "live s (fid (st_file w1))" using live by simp
    then obtain w2 s2 where w2: "flush_block E V (w1, s) = ((w2, s2), Inr ())"
      "grew (fid (st_file w1)) (padded_block E c (length bs) (cur @ [r])) s s2"
      "table_state E c w2 (bs @ padded_block E c (length bs) (cur @ [r])) (bss @ [cur @ [r]]) []"
      "st_file w2 = st_file w1" "st_bloom w2 = st_bloom w1" "st_block_size w2 = st_block_size w1" "st_checksum_alg w2 = st_checksum_alg w1"
      using flush_block_ok [OF _ st1 _ seal \<open>table_fits (cur @ [r])\<close>] by blast
    have "same_config w w2" using w1(1) w2(4-7) by (simp add: same_config_def)
    then show thesis using run True w2 bl(2) w1(2) same_file by (intro that [OF _ _ w2(3)]) simp_all
  next
    case False
    then show thesis using run st1 bl(2) w1 by (intro that [of w1 s "[]" bss "cur @ [r]"]) simp_all
  qed
qed

lemma sst_add_all_ok:
  assumes "live s (fid (st_file w))" "table_state E c w bs bss cur" "filter_state E nb (st_bloom w) (concat bss @ cur)"
    "sealable E c" "table_fits (concat bss @ cur @ rs)"
  shows "\<exists>w' s' d bss' cur'. sst_add_all E V rs (w, s) = ((w', s'), Inr ()) \<and>
    grew (fid (st_file w)) d s s' \<and> table_state E c w' (bs @ d) bss' cur' \<and> concat bss' @ cur' = concat bss @ cur @ rs \<and>
    filter_state E nb (st_bloom w') (concat bss' @ cur') \<and> same_config w w'"
  using assms
proof (induction rs arbitrary: w s bs bss cur)
  case Nil
  then show ?case by (intro exI [of _ w] exI [of _ s] exI [of _ "[]"] exI [of _ bss] exI [of _ cur]) simp
next
  case (Cons r rs)
  have "table_fits (concat bss @ cur @ [r])" using Cons.prems(5) table_fits_append [of "concat bss @ cur @ [r]" rs] by simp
  from sst_add_ok [OF Cons.prems(1-4) this] obtain w1 s1 d1 bss1 cur1 where
    one: "sst_add E V (rec_key r) (rec_value r) (rec_seqno r) (rec_op r) (w, s) = ((w1, s1), Inr ())"
    "grew (fid (st_file w)) d1 s s1" "table_state E c w1 (bs @ d1) bss1 cur1" "concat bss1 @ cur1 = concat bss @ cur @ [r]"
    "filter_state E nb (st_bloom w1) (concat bss1 @ cur1)" "same_config w w1" .
  have same_file: "st_file w1 = st_file w" using one(6) by (simp add: same_config_def)
  have tail: "concat bss1 @ cur1 @ rs = concat bss @ cur @ r # rs" using arg_cong [OF one(4), of "\<lambda>xs. xs @ rs"] by simp
  have "live s1 (fid (st_file w1))" using Cons.prems(1) grew_live [OF one(2)] same_file by simp
  moreover have "table_fits (concat bss1 @ cur1 @ rs)" using Cons.prems(5) unfolding tail .
  ultimately obtain w2 s2 d2 bss2 cur2 where two: "sst_add_all E V rs (w1, s1) = ((w2, s2), Inr ())"
    "grew (fid (st_file w1)) d2 s1 s2" "table_state E c w2 ((bs @ d1) @ d2) bss2 cur2" "concat bss2 @ cur2 = concat bss1 @ cur1 @ rs"
    "filter_state E nb (st_bloom w2) (concat bss2 @ cur2)" "same_config w1 w2"
    using Cons.IH [OF _ one(3,5) Cons.prems(4)] by blast
  have "sst_add_all E V (r # rs) (w, s) = ((w2, s2), Inr ())" using one(1) two(1) by simp
  moreover have "grew (fid (st_file w)) (d1 @ d2) s s2" using grew_trans [OF one(2)] two(2) same_file by simp
  moreover have "concat bss2 @ cur2 = concat bss @ cur @ r # rs" using two(4) unfolding tail .
  ultimately show ?case using two(3,5) same_config_trans [OF one(6) two(6)] by (metis append.assoc)
qed

end

section \<open>The finished table\<close>

definition index_record :: "key \<times> block_handle \<Rightarrow> block_record" where
  "index_record = (\<lambda>(k, h). \<lparr>rec_key = k, rec_value = block_handle_bytes h, rec_seqno = 0, rec_op = RPut\<rparr>)"

definition index_records :: "externs \<Rightarrow> encryption_ctx option \<Rightarrow> block_record list list \<Rightarrow> block_record list" where
  "index_records E c bss = map index_record (index_entries E c 4096 bss)"

definition filter_bytes :: "blocked_bloom option \<Rightarrow> bytes" where
  "filter_bytes bloom = (case bloom of None \<Rightarrow> [] | Some b \<Rightarrow> (case bloom_encode b of Inl _ \<Rightarrow> [] | Inr bs \<Rightarrow> bs))"

definition handle_for :: "nat \<Rightarrow> bytes \<Rightarrow> u32 \<Rightarrow> block_handle" where
  "handle_for off bs crc = \<lparr>bh_offset = of_nat off, bh_length = of_nat (length bs), bh_checksum = crc\<rparr>"

definition index_crc :: "bytes \<Rightarrow> u32" where
  "index_crc bs = u32_from_le (drop (length bs - 4) bs)"

definition min_or_zero :: "u64 list \<Rightarrow> u64" where
  "min_or_zero xs = (let m = fold min xs (- 1) in if m = - 1 then 0 else m)"

definition table_header :: "externs \<Rightarrow> encryption_ctx option \<Rightarrow> algorithm \<Rightarrow> block_record list list \<Rightarrow> file_header" where
  "table_header E c alg bss =
     file_header_new_signed E (if c \<noteq> None then flag_CHECKSUMMED OR flag_ENCRYPTED else flag_CHECKSUMMED)
       NoCompression alg (of_nat (length (concat bss))) (of_nat (length bss))
       (min_or_zero (map rec_seqno (concat bss))) (fold max (map rec_seqno (concat bss)) 0)
       (of_nat (4096 + length (data_bytes E c 4096 bss)))"

definition table_footer :: "externs \<Rightarrow> nat \<Rightarrow> bytes \<Rightarrow> bytes \<Rightarrow> footer" where
  "table_footer E off fb ib =
     footer_new_signed E (handle_for (off + length fb) ib (index_crc ib)) (handle_for off fb 0)
       (handle_for (off + length fb) [] 0)"

definition table_bytes ::
  "externs \<Rightarrow> encryption_ctx option \<Rightarrow> algorithm \<Rightarrow> blocked_bloom option \<Rightarrow> block_record list list \<Rightarrow> bytes" where
  "table_bytes E c alg bloom bss =
     (let data = data_bytes E c 4096 bss; fb = filter_bytes bloom; ib = block_bytes E (index_records E c bss)
      in file_header_bytes (table_header E c alg bss) @ replicate (4096 - 64) 0 @ data @ fb @ ib @
         footer_bytes (table_footer E (4096 + length data) fb ib))"

lemma rec_fits_index: "rec_fits r \<Longrightarrow> rec_fits (index_record (rec_key r, h))"
  by (simp add: rec_fits_def index_record_def)

lemma index_entries_fit:
  assumes "list_all rec_fits (concat bss)" "[] \<notin> set bss"
  shows "list_all rec_fits (map index_record (index_entries E c off bss)) \<and>
    data_size (map index_record (index_entries E c off bss)) \<le> data_size (concat bss) + 16 * length bss \<and>
    length (index_entries E c off bss) = length bss"
  using assms
proof (induction bss arbitrary: off)
  case (Cons rs bss)
  then have ne: "rs \<noteq> []" and fit: "list_all rec_fits rs" by auto
  then have rs: "rs = butlast rs @ [last rs]" by simp
  then have "data_size rs = data_size (butlast rs) + 64 + length (rec_key (last rs)) + length (rec_value (last rs))"
    using data_size_simps(3) [of "butlast rs" "[last rs]"] by simp
  moreover have "rec_fits (last rs)" using fit ne by (simp add: list_all_iff)
  ultimately show ?case
    using Cons.IH [of "off + length (padded_block E c off rs)"] Cons.prems
    by (auto simp: block_entry_def index_record_def rec_fits_def)
qed simp

lemma block_count: "[] \<notin> set bss \<Longrightarrow> length bss \<le> length (concat bss)"
proof (induction bss)
  case (Cons rs bss) then show ?case by (cases rs) auto
qed simp

lemma index_add_ok:
  "list_all rec_fits (map index_record es) \<Longrightarrow>
     index_add es (builder_of rs) = Inr (builder_of (rs @ map index_record es))"
proof (induction es arbitrary: rs)
  case (Cons e es)
  obtain k h where e: "e = (k, h)" by (cases e)
  have "block_add k (block_handle_bytes h) 0 RPut (builder_of rs) = Inr (builder_of (rs @ [index_record e]))"
    using block_add_ok [of "index_record e" rs] Cons.prems by (simp add: e index_record_def)
  then show ?case using Cons by (simp add: e)
qed simp

lemma index_block_ok:
  assumes "table_fits (concat bss)" "[] \<notin> set bss"
  shows "build_index_block E (index_entries E c 4096 bss) = Inr (block_bytes E (index_records E c bss))"
    "length (block_bytes E (index_records E c bss)) < 2 ^ 32" "list_all rec_fits (index_records E c bss)"
    "length (index_records E c bss) < 2 ^ 32" "length (enc 0 [] (index_records E c bss)) < 2 ^ 32"
proof -
  have fit: "list_all rec_fits (index_records E c bss)"
    and sz: "data_size (index_records E c bss) \<le> data_size (concat bss) + 16 * length bss"
    and len: "length (index_records E c bss) = length bss"
    using index_entries_fit [OF _ assms(2), of E c 4096] assms(1) by (simp_all add: table_fits_def index_records_def)
  have "length bss < 2 ^ 25" using block_count [OF assms(2)] table_fits_block(2) [OF assms(1)] by linarith
  then show n: "length (index_records E c bss) < 2 ^ 32" using len by simp
  have "data_size (concat bss) < 2 ^ 31" using assms(1) by (simp add: table_fits_def)
  then show b: "length (block_bytes E (index_records E c bss)) < 2 ^ 32"
    using length_block_bytes_le [OF fit, of E] sz \<open>length bss < 2 ^ 25\<close> by simp
  then show "length (enc 0 [] (index_records E c bss)) < 2 ^ 32" by (simp add: length_block_bytes)
  show "build_index_block E (index_entries E c 4096 bss) = Inr (block_bytes E (index_records E c bss))"
    using index_add_ok [of "index_entries E c 4096 bss" "[]"] fit block_finish_ok [OF n, of E]
    by (simp add: build_index_block_def index_records_def)
  show "list_all rec_fits (index_records E c bss)" by (rule fit)
qed

lemma filter_bytes_ok:
  assumes "filter_state E nb (Some b) rs"
  shows "bloom_encode b = Inr (filter_bytes (Some b))" "length (filter_bytes (Some b)) = 16 + 64 * unat nb"
proof -
  have wf: "bloom_wf b" "bb_num_blocks b = nb" using assms by (simp_all add: filter_state_def)
  show "bloom_encode b = Inr (filter_bytes (Some b))" using bloom_encode_ok [OF wf(1)] by (simp add: filter_bytes_def)
  show "length (filter_bytes (Some b)) = 16 + 64 * unat nb"
    using bloom_encode_ok [OF wf(1)] wf by (simp add: filter_bytes_def bloom_wf_def)
qed

context file_store
begin

lemma write_filter_ok:
  assumes live: "live s (fid (st_file w))" and fs: "filter_state E nb (st_bloom w) rs" and nb: "unat nb < 2 ^ 25"
    and fb: "fb = filter_bytes (st_bloom w)"
  obtains s' where "write_filter V (w, s) = ((w\<lparr>st_bloom := None, st_bytes_written := st_bytes_written w + length fb\<rparr>, s'),
      Inr (handle_for (st_bytes_written w) fb 0))" "grew (fid (st_file w)) fb s s'"
proof (cases "st_bloom w")
  case None
  then have "w\<lparr>st_bloom := None, st_bytes_written := st_bytes_written w\<rparr> = w" by (cases w) simp
  then show thesis using None by (intro that [of s]) (simp_all add: write_filter_def fb filter_bytes_def handle_for_def)
next
  case (Some b)
  note ok = filter_bytes_ok [OF fs [unfolded Some]]
  have len: "length fb < 2 ^ 32" using ok(2) nb by (simp add: fb Some)
  obtain s' where s': "st_append V fb (w\<lparr>st_bloom := None\<rparr>, s) =
      ((w\<lparr>st_bloom := None, st_bytes_written := st_bytes_written w + length fb\<rparr>, s'), Inr ())" "grew (fid (st_file w)) fb s s'"
    using st_append_ok [of s "w\<lparr>st_bloom := None\<rparr>" fb] live by auto
  then show thesis using Some ok(1) len
    by (intro that [of s']) (simp_all add: write_filter_def Let_def u32_length_def handle_for_def flip: fb [unfolded Some])
qed

lemma write_index_ok:
  assumes live: "live s (fid (st_file w))" and ix: "st_pending_index w = index_entries E c 4096 bss"
    and fits: "table_fits (concat bss)" "[] \<notin> set bss" and ib: "ib = block_bytes E (index_records E c bss)"
  obtains s' where "write_index E V (w, s) = ((w\<lparr>st_pending_index := [], st_bytes_written := st_bytes_written w + length ib\<rparr>, s'),
      Inr (handle_for (st_bytes_written w) ib (index_crc ib)))" "grew (fid (st_file w)) ib s s'"
proof -
  note ok = index_block_ok [OF fits, of E c, folded ib]
  have "\<not> length ib < 4" by (simp add: ib block_bytes_def)
  moreover obtain s' where s': "st_append V ib (w\<lparr>st_pending_index := []\<rparr>, s) =
      ((w\<lparr>st_pending_index := [], st_bytes_written := st_bytes_written w + length ib\<rparr>, s'), Inr ())" "grew (fid (st_file w)) ib s s'"
    using st_append_ok [of s "w\<lparr>st_pending_index := []\<rparr>" ib] live by auto
  ultimately show thesis using ok(1,2) ix
    by (intro that [of s']) (simp_all add: write_index_def Let_def u32_length_def handle_for_def block_crc_def index_crc_def)
qed

lemma flush_last_ok:
  assumes live: "live s (fid (st_file w))" and st: "table_state E c w bs bss cur"
    and seal: "sealable E c" and fits: "table_fits (concat bss @ cur)"
  obtains w' s' d bss' where "flush_block E V (w, s) = ((w', s'), Inr ())" "grew (fid (st_file w)) d s s'"
    "table_state E c w' (bs @ d) bss' []" "concat bss' = concat bss @ cur" "same_config w w'" "st_bloom w' = st_bloom w"
proof (cases "cur = []")
  case True
  then have "block_is_empty (st_data_builder w)" using st by (simp add: table_state_def block_is_empty_builder)
  then show thesis using st True by (intro that [of w s "[]" bss]) (simp_all add: flush_block_def)
next
  case False
  have "table_fits cur" using fits table_fits_append by blast
  from flush_block_ok [OF live st False seal this] obtain w' s' where
    f: "flush_block E V (w, s) = ((w', s'), Inr ())" "grew (fid (st_file w)) (padded_block E c (length bs) cur) s s'"
      "table_state E c w' (bs @ padded_block E c (length bs) cur) (bss @ [cur]) []"
      "st_file w' = st_file w" "st_bloom w' = st_bloom w" "st_block_size w' = st_block_size w" "st_checksum_alg w' = st_checksum_alg w" .
  have "concat (bss @ [cur]) = concat bss @ cur" by simp
  moreover have "same_config w w'" using f(4-7) by (simp add: same_config_def)
  ultimately show thesis by (rule that [OF f(1-3) _ _ f(5)])
qed

text \<open>The blocks after the data: filter, index and footer.\<close>

lemma write_tail_ok:
  assumes live: "live s (fid (st_file w))" and fs: "filter_state E nb (st_bloom w) rs" and nb: "unat nb < 2 ^ 25"
    and ix: "st_pending_index w = index_entries E c 4096 bss" and fits: "table_fits (concat bss)" "[] \<notin> set bss"
    and fb: "fb = filter_bytes (st_bloom w)" and ib: "ib = block_bytes E (index_records E c bss)"
    and off: "off = st_bytes_written w"
  obtains s1 s2 s3 where
    "write_filter V (w, s) = ((w\<lparr>st_bloom := None, st_bytes_written := off + length fb\<rparr>, s1), Inr (handle_for off fb 0))"
    "write_index E V (w\<lparr>st_bloom := None, st_bytes_written := off + length fb\<rparr>, s1) =
       ((w\<lparr>st_bloom := None, st_pending_index := [], st_bytes_written := off + length fb + length ib\<rparr>, s2),
        Inr (handle_for (off + length fb) ib (index_crc ib)))"
    "st_append V (footer_bytes (table_footer E off fb ib))
       (w\<lparr>st_bloom := None, st_pending_index := [], st_bytes_written := off + length fb + length ib\<rparr>, s2) =
       ((w\<lparr>st_bloom := None, st_pending_index := [], st_bytes_written := off + length fb + length ib + 64\<rparr>, s3), Inr ())"
    "grew (fid (st_file w)) (fb @ ib @ footer_bytes (table_footer E off fb ib)) s s3"
proof -
  define w1 where "w1 = w\<lparr>st_bloom := None, st_bytes_written := off + length fb\<rparr>"
  define w2 where "w2 = w\<lparr>st_bloom := None, st_pending_index := [], st_bytes_written := off + length fb + length ib\<rparr>"
  define ft where "ft = footer_bytes (table_footer E off fb ib)"
  have len: "length ft = 64" by (simp add: ft_def)
  obtain s1 where s1: "write_filter V (w, s) = ((w1, s1), Inr (handle_for off fb 0))" "grew (fid (st_file w)) fb s s1"
    using write_filter_ok [OF live fs nb fb, folded off, folded w1_def] .
  have w1: "live s1 (fid (st_file w1))" "st_pending_index w1 = index_entries E c 4096 bss"
    using live ix grew_live [OF s1(2)] by (simp_all add: w1_def)
  have w1': "st_bytes_written w1 = off + length fb" "w1\<lparr>st_pending_index := [], st_bytes_written := off + length fb + length ib\<rparr> = w2"
    "st_file w1 = st_file w" by (simp_all add: w1_def w2_def)
  obtain s2 where s2: "write_index E V (w1, s1) = ((w2, s2), Inr (handle_for (off + length fb) ib (index_crc ib)))"
    "grew (fid (st_file w)) ib s1 s2" using write_index_ok [OF w1 fits ib, unfolded w1'] .
  have w2: "live s2 (fid (st_file w2))" using w1(1) grew_live [OF s2(2)] by (simp add: w2_def w1_def)
  have w2': "st_bytes_written w2 = off + length fb + length ib" "w2\<lparr>st_bytes_written := off + length fb + length ib + 64\<rparr> =
      w\<lparr>st_bloom := None, st_pending_index := [], st_bytes_written := off + length fb + length ib + 64\<rparr>" "st_file w2 = st_file w"
    by (simp_all add: w2_def len)
  obtain s3 where s3: "st_append V ft (w2, s2) =
      ((w\<lparr>st_bloom := None, st_pending_index := [], st_bytes_written := off + length fb + length ib + 64\<rparr>, s3), Inr ())"
    "grew (fid (st_file w)) ft s2 s3" using st_append_ok [OF w2, of ft, unfolded len w2'] .
  have "grew (fid (st_file w)) (fb @ ib @ ft) s s3" using grew_trans [OF s1(2) grew_trans [OF s2(2) s3(2)]] .
  then show thesis using that [of s1 s2 s3, folded w1_def w2_def ft_def] s1(1) s2(1) s3(1) by blast
qed

end

lemma length_padded_block:
  assumes "sealable E c" "table_fits rs"
  shows "length (padded_block E c off rs) \<le> data_size rs + 4120"
proof -
  have "length (disk_block E c off rs) \<le> length (block_bytes E rs) + 16"
    using disk_block_length [OF assms(1)] table_fits_block(1) [OF assms(2), of E] by simp
  moreover have "length (block_bytes E rs) \<le> data_size rs + 8"
    using length_block_bytes_le assms(2) by (simp add: table_fits_def)
  ultimately show ?thesis
    using align_pad_less [of "off + length (disk_block E c off rs)"] by (simp add: padded_block_def)
qed

lemma length_data_bytes:
  assumes "sealable E c" "table_fits (concat bss)"
  shows "length (data_bytes E c off bss) \<le> data_size (concat bss) + 4120 * length bss"
  using assms(2)
proof (induction bss arbitrary: off)
  case (Cons rs bss)
  then have "table_fits rs" "table_fits (concat bss)" using table_fits_append [of rs "concat bss"] by simp_all
  then show ?case using length_padded_block [OF assms(1), of rs off] Cons.IH [of "off + length (padded_block E c off rs)"] by simp
qed simp

lemma data_bytes_bound:
  assumes "sealable E c" "table_fits (concat bss)" "[] \<notin> set bss"
  shows "length (data_bytes E c off bss) < 2 ^ 40"
proof -
  have "length bss < 2 ^ 25" using block_count [OF assms(3)] table_fits_block(2) [OF assms(2)] by linarith
  moreover have "data_size (concat bss) < 2 ^ 31" using assms(2) by (simp add: table_fits_def)
  ultimately show ?thesis using length_data_bytes [OF assms(1,2), of off] by simp
qed

lemma length_filter_bytes:
  assumes "filter_state E nb bloom rs" "unat nb < 2 ^ 25" shows "length (filter_bytes bloom) < 2 ^ 32"
proof (cases bloom)
  case (Some b)
  then show ?thesis using filter_bytes_ok(2) [of E nb b rs] assms by simp
qed (simp add: filter_bytes_def)

context file_store
begin

lemma sst_finish_ok:
  assumes live: "live s (fid (st_file w))" and cont: "contents s (fid (st_file w)) = bs"
    and st: "table_state E c w bs bss cur" and fs: "filter_state E nb (st_bloom w) rs" and nb: "unat nb < 2 ^ 25"
    and seal: "sealable E c" and fits: "table_fits (concat bss @ cur)"
  obtains w' s' bss' where "sst_finish E V (w, s) = ((w', s'), Inr (st_file w))" "concat bss' = concat bss @ cur" "[] \<notin> set bss'"
    "contents s' (fid (st_file w)) = table_bytes E c (st_checksum_alg w) (st_bloom w) bss'"
    "\<forall>f. f \<noteq> fid (st_file w) \<longrightarrow> contents s' f = contents s f" "live s' = live s"
proof -
  obtain w1 s1 d bss' where fl: "flush_block E V (w, s) = ((w1, s1), Inr ())" "grew (fid (st_file w)) d s s1"
    "table_state E c w1 (bs @ d) bss' []" "concat bss' = concat bss @ cur" "same_config w w1" "st_bloom w1 = st_bloom w"
    using flush_last_ok [OF live st seal fits] .
  note T = fl(3) [unfolded table_state_def append_Nil2]
  define data fb ib where "data = data_bytes E c 4096 bss'" "fb = filter_bytes (st_bloom w1)" "ib = block_bytes E (index_records E c bss')"
  define ft where "ft = footer_bytes (table_footer E (4096 + length data) fb ib)"
  have file1: "st_file w1 = st_file w" "st_checksum_alg w1 = st_checksum_alg w" using fl(5) by (simp_all add: same_config_def)
  have bs: "bs @ d = zero_region @ data" using T by (simp add: data_fb_ib_def)
  have off: "4096 + length data = st_bytes_written w1" using T bs by simp
  have fits': "table_fits (concat bss')" "[] \<notin> set bss'" using fits fl(4) T by simp_all
  have live1: "live s1 (fid (st_file w1))" using live grew_live [OF fl(2)] file1 by simp
  obtain s2 s3 s4 where t: "write_filter V (w1, s1) = ((w1\<lparr>st_bloom := None, st_bytes_written := 4096 + length data + length fb\<rparr>, s2),
      Inr (handle_for (4096 + length data) fb 0))"
    "write_index E V (w1\<lparr>st_bloom := None, st_bytes_written := 4096 + length data + length fb\<rparr>, s2) =
       ((w1\<lparr>st_bloom := None, st_pending_index := [], st_bytes_written := 4096 + length data + length fb + length ib\<rparr>, s3),
        Inr (handle_for (4096 + length data + length fb) ib (index_crc ib)))"
    "st_append V ft (w1\<lparr>st_bloom := None, st_pending_index := [], st_bytes_written := 4096 + length data + length fb + length ib\<rparr>, s3) =
       ((w1\<lparr>st_bloom := None, st_pending_index := [], st_bytes_written := 4096 + length data + length fb + length ib + 64\<rparr>, s4), Inr ())"
    "grew (fid (st_file w1)) (fb @ ib @ ft) s1 s4"
    using write_tail_ok [OF live1 fs [folded fl(6)] nb _ fits' data_fb_ib_def(2,3) off, folded ft_def] T by blast
  define w4 where "w4 = w1\<lparr>st_bloom := None, st_pending_index := [], st_bytes_written := 4096 + length data + length fb + length ib + 64\<rparr>"
  have w4: "st_file w4 = st_file w1" by (simp add: w4_def)
  define hdr where "hdr = file_header_bytes (table_header E c (st_checksum_alg w) bss')"
  have hdr: "file_header_bytes (final_header E (st_crypto w1 \<noteq> None) (4096 + length data) w4) = hdr"
    using T file1 by (simp add: hdr_def final_header_def table_header_def w4_def data_fb_ib_def min_or_zero_def Let_def)
  have c4: "contents s4 (fid (st_file w)) = zero_region @ data @ fb @ ib @ ft"
    using fl(2) t(4) cont bs file1 by (simp add: grew_def)
  have "length (contents s4 (fid (st_file w))) < 2 ^ 64"
    using data_bytes_bound [OF seal fits', of 4096] length_filter_bytes [OF fs nb] index_block_ok(2) [OF fits', of E c] fl(6)
    by (simp add: c4 data_fb_ib_def ft_def)
  moreover have "live s4 (fid (st_file w))" "0 + length hdr \<le> length (contents s4 (fid (st_file w)))"
    using live1 grew_live [OF t(4)] file1 by (simp_all add: c4 hdr_def)
  ultimately obtain s5 where s5: "v_write_at V (st_file w) hdr 0 s4 = (s5, Inr ())"
    "contents s5 (fid (st_file w)) = overwrite (contents s4 (fid (st_file w))) 0 hdr"
    "\<forall>f. f \<noteq> fid (st_file w) \<longrightarrow> contents s5 f = contents s4 f" "live s5 = live s4"
    using write_at_ok [of s4 "st_file w" 0 hdr] by blast
  have ft: "footer_bytes (footer_new_signed E (handle_for (4096 + length data + length fb) ib (index_crc ib)) (handle_for (4096 + length data) fb 0)
      \<lparr>bh_offset = of_nat (4096 + length data + length fb), bh_length = 0, bh_checksum = 0\<rparr>) = ft"
    by (simp add: ft_def table_footer_def handle_for_def)
  have "sst_finish E V (w, s) = ((w4, s5), Inr (st_file w))"
    using fl(1) t(1,2) t(3) [folded w4_def] s5(1) file1(1) hdr w4
    by (simp add: sst_finish_def Let_def off [symmetric] ft del: of_nat_add)
  moreover have "contents s5 (fid (st_file w)) = table_bytes E c (st_checksum_alg w) (st_bloom w) bss'"
    unfolding s5(2) c4 table_bytes_def Let_def using fl(6)
    by (simp add: overwrite_def hdr_def ft_def data_fb_ib_def zero_region_def)
  moreover have "\<forall>f. f \<noteq> fid (st_file w) \<longrightarrow> contents s5 f = contents s f" "live s5 = live s"
    using s5(3,4) t(4) fl(2) file1 by (simp_all add: grew_def)
  ultimately show thesis using fl(4) fits'(2) by (intro that)
qed

end

text \<open>
  A whole table: create, an optional block size, all records, finish.  The result is the file
  with the bytes of \<open>table_bytes\<close> for some division of the records into blocks.
\<close>

definition write_table ::
  "externs \<Rightarrow> ('s, 'h) vfs \<Rightarrow> 'h \<Rightarrow> algorithm \<Rightarrow> nat \<Rightarrow> bloom_params \<Rightarrow> encryption_ctx option \<Rightarrow> nat \<Rightarrow>
     block_record list \<Rightarrow> ('s, 'h) io" where
  "write_table E V h alg n params c k rs =
     io_bind (sst_create_inner E V h alg n params c) (\<lambda>w s.
       case io_bind (sst_add_all E V rs) (\<lambda>_. sst_finish E V) (set_block_size k w, s) of
         ((w', s'), r) \<Rightarrow> (s', r))"

definition filter_sized :: "externs \<Rightarrow> nat \<Rightarrow> bloom_params \<Rightarrow> bool" where
  "filter_sized E n params \<longleftrightarrow> n = 0 \<or>
     allocates E \<and> 1 \<le> bp_num_hashes params \<and> bp_num_hashes params \<le> 16 \<and> unat (bloom_num_blocks n params) < 2 ^ 25"

definition table_written ::
  "externs \<Rightarrow> encryption_ctx option \<Rightarrow> algorithm \<Rightarrow> nat \<Rightarrow> block_record list \<Rightarrow> bytes \<Rightarrow> bool" where
  "table_written E c alg n rs bs \<longleftrightarrow> (\<exists>bloom bss nb. bs = table_bytes E c alg bloom bss \<and> concat bss = rs \<and> [] \<notin> set bss \<and>
     filter_state E nb bloom rs \<and> unat nb < 2 ^ 25 \<and> (bloom = None \<longleftrightarrow> n = 0))"

lemma bloom_new_num_blocks: "bloom_new E n params = Inr b \<Longrightarrow> bb_num_blocks b = bloom_num_blocks n params"
  by (auto simp: bloom_new_def Let_def result_simps split: if_splits)

lemma table_state_new:
  "table_state E c \<lparr>st_file = h, st_data_builder = block_builder_new, st_pending_index = [],
     st_last_key = [], st_bytes_written = FILE_HEADER_REGION_SIZE, st_num_entries = 0,
     st_num_blocks = 0, st_min_seqno = - 1, st_max_seqno = 0, st_checksum_alg = alg,
     st_block_size = k, st_bloom = bloom, st_crypto = c\<rparr> zero_region [] []"
  by (simp add: table_state_def builder_of_Nil FILE_HEADER_REGION_SIZE_def)

context file_store
begin

lemma sst_create_ok:
  assumes live: "live s (fid h)" and empty: "contents s (fid h) = []" and fs: "filter_sized E n params"
  obtains w s' nb where "sst_create_inner E V h alg n params c s = (s', Inr w)"
    "grew (fid h) zero_region s s'" "table_state E c (set_block_size k w) zero_region [] []"
    "filter_state E nb (st_bloom w) []" "unat nb < 2 ^ 25" "st_file w = h" "st_checksum_alg w = alg" "st_bloom w = None \<longleftrightarrow> n = 0"
proof -
  obtain s' where s': "v_append V h zero_region s = (s', Inr (length (contents s (fid h))))" "grew (fid h) zero_region s s'"
    using append_grew [OF live] .
  define mk where "mk bloom = \<lparr>st_file = h, st_data_builder = builder_of [], st_pending_index = [],
     st_last_key = [], st_bytes_written = FILE_HEADER_REGION_SIZE, st_num_entries = 0,
     st_num_blocks = 0, st_min_seqno = - 1, st_max_seqno = 0, st_checksum_alg = alg,
     st_block_size = DEFAULT_BLOCK_SIZE, st_bloom = bloom, st_crypto = c\<rparr>" for bloom
  have st: "table_state E c (set_block_size k (mk bloom)) zero_region [] []"
    "st_bloom (mk bloom) = bloom" "st_file (mk bloom) = h" "st_checksum_alg (mk bloom) = alg" for bloom
    using table_state_new by (simp_all add: mk_def set_block_size_def)
  have z: "replicate FILE_HEADER_REGION_SIZE 0 = zero_region" by (simp add: zero_region_def FILE_HEADER_REGION_SIZE_def)
  show thesis
  proof (cases "n = 0")
    case True
    then show thesis using s' st z
      by (intro that [of s' "mk None" 0]) (simp_all add: sst_create_inner_def io_read_def filter_state_def flip: mk_def)
  next
    case False
    then obtain b where b: "bloom_new E n params = Inr b" "bloom_wf b" using fs bloom_new_ok [of E params n] unfolding filter_sized_def by blast
    then show thesis using False fs s' st z bloom_new_num_blocks [OF b(1)]
      by (intro that [of s' "mk (Some b)" "bloom_num_blocks n params"])
         (simp_all add: sst_create_inner_def io_read_def filter_state_def filter_sized_def flip: mk_def)
  qed
qed

lemma write_table_ok:
  assumes live: "live s (fid h)" and empty: "contents s (fid h) = []" and fs: "filter_sized E n params"
    and seal: "sealable E c" and fits: "table_fits rs"
  obtains s' where "write_table E V h alg n params c k rs s = (s', Inr h)" "table_written E c alg n rs (contents s' (fid h))"
    "\<forall>f. f \<noteq> fid h \<longrightarrow> contents s' f = contents s f" "live s' = live s"
proof -
  obtain w s1 nb where w: "sst_create_inner E V h alg n params c s = (s1, Inr w)"
    "grew (fid h) zero_region s s1" "table_state E c (set_block_size k w) zero_region [] []"
    "filter_state E nb (st_bloom w) []" "unat nb < 2 ^ 25" "st_file w = h" "st_checksum_alg w = alg" "st_bloom w = None \<longleftrightarrow> n = 0"
    using sst_create_ok [OF live empty fs] .
  define w0 where "w0 = set_block_size k w"
  have w0: "st_file w0 = h" "st_bloom w0 = st_bloom w" "st_checksum_alg w0 = alg" using w(6,7) by (simp_all add: w0_def set_block_size_def)
  have "live s1 (fid (st_file w0))" using live grew_live [OF w(2)] w0(1) by simp
  moreover have "filter_state E nb (st_bloom w0) (concat [] @ [])" using w(4) w0(2) by simp
  ultimately obtain w1 s2 d bss cur where a: "sst_add_all E V rs (w0, s1) = ((w1, s2), Inr ())"
    "grew (fid (st_file w0)) d s1 s2" "table_state E c w1 (zero_region @ d) bss cur" "concat bss @ cur = rs"
    "filter_state E nb (st_bloom w1) (concat bss @ cur)" "same_config w0 w1"
    using sst_add_all_ok [of s1 w0 E c zero_region "[]" "[]" nb rs] w(3) [folded w0_def] seal fits by auto
  have w1: "st_file w1 = h" "st_checksum_alg w1 = alg" "st_bloom w1 = None \<longleftrightarrow> n = 0"
    using a(6) w0 w(8) by (simp_all add: same_config_def)
  have g: "grew (fid h) (zero_region @ d) s s2" using grew_trans [OF w(2)] a(2) w0(1) by simp
  then have "live s2 (fid (st_file w1))" "contents s2 (fid (st_file w1)) = zero_region @ d"
    using live empty w1(1) by (simp_all add: grew_def)
  then obtain w2 s3 bss' where f: "sst_finish E V (w1, s2) = ((w2, s3), Inr (st_file w1))" "concat bss' = concat bss @ cur" "[] \<notin> set bss'"
    "contents s3 (fid (st_file w1)) = table_bytes E c (st_checksum_alg w1) (st_bloom w1) bss'"
    "\<forall>f. f \<noteq> fid (st_file w1) \<longrightarrow> contents s3 f = contents s2 f" "live s3 = live s2"
    using sst_finish_ok [OF _ _ a(3,5) w(5) seal] fits a(4) by blast
  have "write_table E V h alg n params c k rs s = (s3, Inr h)"
    using w(1) a(1) f(1) w1(1) by (simp add: write_table_def flip: w0_def)
  moreover have "table_written E c alg n rs (contents s3 (fid h))"
    unfolding table_written_def using f(2,3,4) w1 a(4,5) w(5) by metis
  moreover have "\<forall>f. f \<noteq> fid h \<longrightarrow> contents s3 f = contents s f" "live s3 = live s"
    using f(5,6) g w1(1) by (simp_all add: grew_def)
  ultimately show thesis by (rule that)
qed

end

end
