(* ===== verification/SstReader.thy ===== *)
theory SstReader
  imports SstWriter
begin

text \<open>
  The table reader, \<^verbatim>\<open>crates/paddock-core/src/sstable/reader.rs\<close>: opening a file with all checks,
  point lookup, full scan and the streaming scan.  Reads do not change the store; the only
  state is the counter of pruned lookups and the position of a stream.  The theorems compose
  it with the writer: what was written is what is read, encrypted or not.
\<close>

section \<open>The reader\<close>

record decryption_ctx =
  dc_aead :: aead
  dc_sstable_id :: u64

record 'h sst_reader =
  rd_file :: 'h
  rd_header :: file_header
  rd_footer :: footer
  rd_index_bytes :: bytes
  rd_bloom :: "blocked_bloom option"
  rd_bloom_misses_pruned :: u64
  rd_crypto :: "decryption_ctx option"

record lookup_hit =
  hit_seqno :: u64
  hit_op :: record_op
  hit_value :: bytes

definition load_footer :: "externs \<Rightarrow> ('s, 'h) vfs \<Rightarrow> 's \<Rightarrow> 'h \<Rightarrow> nat \<Rightarrow> footer result" where
  "load_footer E V s file sz =
     and_then (v_read_at V file FOOTER_SIZE (sz - FOOTER_SIZE) s) (\<lambda>bs.
     case footer_from_bytes bs of
       None \<Rightarrow> Inl (invalid_format_static ''sstable footer'' ''size mismatch'')
     | Some footer \<Rightarrow>
         if \<not> footer_is_valid E footer then Inl (Corruption ''sstable footer'' ''checksum / magic mismatch'')
         else Inr footer)"

definition load_header :: "externs \<Rightarrow> ('s, 'h) vfs \<Rightarrow> 's \<Rightarrow> 'h \<Rightarrow> file_header result" where
  "load_header E V s file =
     and_then (v_read_at V file FILE_HEADER_SIZE 0 s) (\<lambda>bs.
     case file_header_from_bytes bs of
       None \<Rightarrow> Inl (invalid_format_static ''sstable file header'' ''size mismatch'')
     | Some header \<Rightarrow>
         if \<not> file_header_is_valid E header
         then Inl (Corruption ''sstable file header'' ''magic / version / reserved / checksum mismatch'')
         else Inr header)"

definition check_encryption :: "file_header \<Rightarrow> decryption_ctx option \<Rightarrow> unit result" where
  "check_encryption header crypto =
     (let file_is_encrypted = (fh_flags header AND flag_ENCRYPTED \<noteq> 0)
      in case (file_is_encrypted, crypto \<noteq> None) of
           (True, False) \<Rightarrow> Inl (InvalidFormat ''sstable'' ''file is encrypted; open via SstReader::open_encrypted'')
         | (False, True) \<Rightarrow> Inl (InvalidFormat ''sstable'' ''file is not encrypted; open via SstReader::open'')
         | _ \<Rightarrow> Inr ())"

definition load_filter :: "externs \<Rightarrow> ('s, 'h) vfs \<Rightarrow> 's \<Rightarrow> 'h \<Rightarrow> footer \<Rightarrow> blocked_bloom option result" where
  "load_filter E V s file footer =
     (let filter_off = unat (bh_offset (ft_filter_handle footer));
          filter_len = unat (bh_length (ft_filter_handle footer))
      in if filter_len = 0 then Inr None
         else and_then (v_read_at V file filter_len filter_off s) (\<lambda>filter_bytes.
              and_then (bloom_decode E filter_bytes) (\<lambda>b. Inr (Some b))))"

definition sst_open_inner ::
  "externs \<Rightarrow> ('s, 'h) vfs \<Rightarrow> 's \<Rightarrow> 'h \<Rightarrow> decryption_ctx option \<Rightarrow> 'h sst_reader result" where
  "sst_open_inner E V s file crypto =
     and_then (v_size V file s) (\<lambda>sz.
     if sz < FILE_HEADER_SIZE + FOOTER_SIZE
     then Inl (invalid_format_static ''sstable'' ''file smaller than header + footer'')
     else and_then (load_footer E V s file sz) (\<lambda>footer.
          and_then (load_header E V s file) (\<lambda>header.
          and_then (check_encryption header crypto) (\<lambda>_.
          and_then (v_read_at V file (unat (bh_length (ft_index_handle footer)))
                      (unat (bh_offset (ft_index_handle footer))) s) (\<lambda>index_bytes.
          and_then (load_filter E V s file footer) (\<lambda>bloom.
          Inr \<lparr>rd_file = file, rd_header = header, rd_footer = footer, rd_index_bytes = index_bytes,
               rd_bloom = bloom, rd_bloom_misses_pruned = 0, rd_crypto = crypto\<rparr>))))))"

definition sst_open :: "externs \<Rightarrow> ('s, 'h) vfs \<Rightarrow> 's \<Rightarrow> 'h \<Rightarrow> 'h sst_reader result" where
  "sst_open E V s file = sst_open_inner E V s file None"

definition sst_open_encrypted :: "externs \<Rightarrow> ('s, 'h) vfs \<Rightarrow> 's \<Rightarrow> 'h \<Rightarrow> aead_key \<Rightarrow> u64 \<Rightarrow> 'h sst_reader result" where
  "sst_open_encrypted E V s file key sstable_id =
     sst_open_inner E V s file (Some \<lparr>dc_aead = aead_new key, dc_sstable_id = sstable_id\<rparr>)"

definition read_data_block :: "externs \<Rightarrow> ('s, 'h) vfs \<Rightarrow> 's \<Rightarrow> 'h sst_reader \<Rightarrow> block_handle \<Rightarrow> bytes result" where
  "read_data_block E V s r handle =
     (let block_off = bh_offset handle;
          block_len = unat (bh_length handle)
      in and_then (v_read_at V (rd_file r) block_len (unat block_off) s) (\<lambda>on_disk.
         case rd_crypto r of
           Some ctx \<Rightarrow>
             (case aead_open E (dc_aead ctx) (as_nonce (derive_block_nonce block_off))
                     (block_aad (dc_sstable_id ctx) block_off) on_disk of
                Inl _ \<Rightarrow> Inl (Corruption ''sstable data block'' ''AEAD authentication failed (corruption or wrong key)'')
              | Inr plaintext \<Rightarrow> Inr plaintext)
         | None \<Rightarrow> Inr on_disk))"

definition into_hit :: "block_record \<Rightarrow> lookup_hit" where
  "into_hit rec = \<lparr>hit_seqno = rec_seqno rec, hit_op = rec_op rec, hit_value = rec_value rec\<rparr>"

definition decode_block_handle :: "bytes \<Rightarrow> block_handle result" where
  "decode_block_handle bs =
     (if length bs < BLOCK_HANDLE_SIZE
      then Inl (invalid_format_static ''sstable index value'' ''shorter than BlockHandle'')
      else ok_or (block_handle_from_bytes (take BLOCK_HANDLE_SIZE bs))
             (invalid_format_static ''sstable index value'' ''size mismatch''))"

definition locate_block :: "externs \<Rightarrow> 'h sst_reader \<Rightarrow> key \<Rightarrow> block_handle option result" where
  "locate_block E r key =
     and_then (block_open E (rd_index_bytes r)) (\<lambda>reader.
     and_then (block_seek reader key) (\<lambda>found.
     case found of
       None \<Rightarrow> Inr None
     | Some rec \<Rightarrow> and_then (decode_block_handle (rec_value rec)) (\<lambda>handle. Inr (Some handle))))"

definition next_after :: "block_reader \<Rightarrow> key \<Rightarrow> u64 \<Rightarrow> block_record option" where
  "next_after reader same_key seqno =
     find (\<lambda>rec. rec_key rec = same_key \<and> rec_seqno rec < seqno) (block_collect (block_into_iter reader))"

lemma next_after_Some: "next_after reader k q = Some rec \<Longrightarrow> rec_key rec = k \<and> rec_seqno rec < q"
  by (auto simp: next_after_def find_Some_iff)

text \<open>The loop of \<^verbatim>\<open>get\<close> over the versions of the key.\<close>

function get_versions :: "block_reader \<Rightarrow> key \<Rightarrow> u64 \<Rightarrow> block_record option \<Rightarrow> lookup_hit option" where
  "get_versions reader key snapshot rec_opt =
     (case rec_opt of
        None \<Rightarrow> None
      | Some rec \<Rightarrow>
          if rec_key rec \<noteq> key then None
          else if rec_seqno rec \<le> snapshot then Some (into_hit rec)
          else get_versions reader key snapshot (next_after reader (rec_key rec) (rec_seqno rec)))"
  by pat_completeness auto

termination
  by (relation "measure (\<lambda>(reader, key, snapshot, rec_opt). case rec_opt of None \<Rightarrow> 0 | Some rec \<Rightarrow> Suc (unat (rec_seqno rec)))")
     (auto split: option.split dest!: next_after_Some simp: word_less_nat_alt)

declare get_versions.simps [simp del]

definition sst_get :: "externs \<Rightarrow> ('s, 'h) vfs \<Rightarrow> 's \<Rightarrow> key \<Rightarrow> u64 \<Rightarrow> ('h sst_reader, lookup_hit option) io" where
  "sst_get E V s key snapshot = (\<lambda>r.
     case (case rd_bloom r of None \<Rightarrow> Inr True | Some bloom \<Rightarrow> bloom_contains E key bloom) of
       Inl e \<Rightarrow> (r, Inl e)
     | Inr maybe \<Rightarrow>
         if \<not> maybe then (r\<lparr>rd_bloom_misses_pruned := rd_bloom_misses_pruned r + 1\<rparr>, Inr None)
         else (r, and_then (locate_block E r key) (\<lambda>located.
                  case located of
                    None \<Rightarrow> Inr None
                  | Some handle \<Rightarrow>
                      and_then (read_data_block E V s r handle) (\<lambda>block_bytes.
                      and_then (block_open E block_bytes) (\<lambda>reader.
                      and_then (block_seek reader key) (\<lambda>rec_opt.
                      Inr (get_versions reader key snapshot rec_opt)))))))"

definition entry_of :: "block_record \<Rightarrow> key \<times> lookup_hit" where
  "entry_of rec = (rec_key rec, into_hit rec)"

text \<open>One data block with all its records, as \<^verbatim>\<open>scan\<close> and \<^verbatim>\<open>refill\<close> read it.\<close>

definition read_records :: "externs \<Rightarrow> ('s, 'h) vfs \<Rightarrow> 's \<Rightarrow> 'h sst_reader \<Rightarrow> block_handle \<Rightarrow> (key \<times> lookup_hit) list result" where
  "read_records E V s r handle =
     and_then (read_data_block E V s r handle) (\<lambda>block_bytes.
     and_then (block_open E block_bytes) (\<lambda>data_reader.
     Inr (map entry_of (block_collect (block_into_iter data_reader)))))"

fun scan_blocks ::
  "externs \<Rightarrow> ('s, 'h) vfs \<Rightarrow> 's \<Rightarrow> 'h sst_reader \<Rightarrow> block_record list \<Rightarrow> (key \<times> lookup_hit) list \<Rightarrow> (key \<times> lookup_hit) list result" where
  "scan_blocks E V s r [] out = Inr out"
| "scan_blocks E V s r (index_rec # rest) out =
     and_then (decode_block_handle (rec_value index_rec)) (\<lambda>handle.
     and_then (read_records E V s r handle) (\<lambda>recs. scan_blocks E V s r rest (out @ recs)))"

definition sst_scan :: "externs \<Rightarrow> ('s, 'h) vfs \<Rightarrow> 's \<Rightarrow> 'h sst_reader \<Rightarrow> (key \<times> lookup_hit) list result" where
  "sst_scan E V s r =
     and_then (block_open E (rd_index_bytes r)) (\<lambda>index_reader.
     scan_blocks E V s r (block_collect (block_into_iter index_reader)) [])"

fun decode_handles :: "block_record list \<Rightarrow> block_handle list result" where
  "decode_handles [] = Inr []"
| "decode_handles (rec # recs) =
     and_then (decode_block_handle (rec_value rec)) (\<lambda>h. and_then (decode_handles recs) (\<lambda>hs. Inr (h # hs)))"

definition decode_index_handles :: "externs \<Rightarrow> bytes \<Rightarrow> block_handle list result" where
  "decode_index_handles E index_bytes =
     and_then (block_open E index_bytes) (\<lambda>reader. decode_handles (block_collect (block_into_iter reader)))"

record 'h sst_stream =
  ss_reader :: "'h sst_reader"
  ss_handles :: "block_handle list"
  ss_next_block :: nat
  ss_current :: "(key \<times> lookup_hit) list"

definition scan_stream :: "externs \<Rightarrow> 'h sst_reader \<Rightarrow> 'h sst_stream result" where
  "scan_stream E r =
     and_then (decode_index_handles E (rd_index_bytes r)) (\<lambda>handles.
     Inr \<lparr>ss_reader = r, ss_handles = handles, ss_next_block = 0, ss_current = []\<rparr>)"

function refill :: "externs \<Rightarrow> ('s, 'h) vfs \<Rightarrow> 's \<Rightarrow> ('h sst_stream, bool) io" where
  "refill E V s st =
     (if ss_next_block st < length (ss_handles st) then
        let h = ss_handles st ! ss_next_block st;
            st' = st\<lparr>ss_next_block := ss_next_block st + 1\<rparr>
        in case read_records E V s (ss_reader st) h of
             Inl e \<Rightarrow> (st', Inl e)
           | Inr records \<Rightarrow> if records = [] then refill E V s st' else (st'\<lparr>ss_current := records\<rparr>, Inr True)
      else (st, Inr False))"
  by pat_completeness auto

termination
  by (relation "measure (\<lambda>(E, V, s, st). length (ss_handles st) - ss_next_block st)") auto

declare refill.simps [simp del]

lemma refill_progress:
  "refill E V s st = (st', Inr True) \<Longrightarrow>
     ss_next_block st < length (ss_handles st) \<and> ss_handles st' = ss_handles st \<and> ss_next_block st < ss_next_block st' \<and>
     ss_current st' \<noteq> []"
proof (induction E V s st rule: refill.induct)
  case (1 E V s st)
  then show ?case
    by (subst (asm) (2) refill.simps) (force simp: Let_def split: if_splits sum.splits)
qed

function stream_next_record :: "externs \<Rightarrow> ('s, 'h) vfs \<Rightarrow> 's \<Rightarrow> ('h sst_stream, (key \<times> lookup_hit) option) io" where
  "stream_next_record E V s st =
     (case ss_current st of
        rec # rest \<Rightarrow> (st\<lparr>ss_current := rest\<rparr>, Inr (Some rec))
      | [] \<Rightarrow>
          (case refill E V s st of
             (st', Inl e) \<Rightarrow> (st', Inl e)
           | (st', Inr got) \<Rightarrow> if \<not> got then (st', Inr None) else stream_next_record E V s st'))"
  by pat_completeness auto

termination
  by (relation "measure (\<lambda>(E, V, s, st). length (ss_handles st) - ss_next_block st)")
     (auto dest!: refill_progress [OF sym])

declare stream_next_record.simps [simp del]

text \<open>\<^verbatim>\<open>Iterator::next\<close> of the stream.\<close>

definition stream_next :: "externs \<Rightarrow> ('s, 'h) vfs \<Rightarrow> 's \<Rightarrow> 'h sst_stream \<Rightarrow> 'h sst_stream \<times> (key \<times> lookup_hit) result option" where
  "stream_next E V s st =
     (case stream_next_record E V s st of
        (st', Inr (Some rec)) \<Rightarrow> (st', Some (Inr rec))
      | (st', Inr None) \<Rightarrow> (st', None)
      | (st', Inl e) \<Rightarrow> (st', Some (Inl e)))"

section \<open>What a reader serves\<close>

text \<open>
  The contract between an opened table and its blocks: the index opens to one entry per block
  with the block's last key, and the handle of the entry reads the bytes of the block.
\<close>

definition entry_serves :: "externs \<Rightarrow> ('s, 'h) vfs \<Rightarrow> 's \<Rightarrow> 'h sst_reader \<Rightarrow> key \<times> block_handle \<Rightarrow> block_record list \<Rightarrow> bool" where
  "entry_serves E V s r e rs \<longleftrightarrow> rs \<noteq> [] \<and> table_fits rs \<and> fst e = rec_key (last rs) \<and>
     read_data_block E V s r (snd e) = Inr (block_bytes E rs)"

definition serves :: "externs \<Rightarrow> ('s, 'h) vfs \<Rightarrow> 's \<Rightarrow> 'h sst_reader \<Rightarrow> block_record list list \<Rightarrow> bool" where
  "serves E V s r bss \<longleftrightarrow> (\<exists>es nb. block_open E (rd_index_bytes r) = Inr (reader_of (map index_record es)) \<and>
     list_all rec_fits (map index_record es) \<and> length (enc 0 [] (map index_record es)) < 2 ^ 32 \<and>
     list_all2 (entry_serves E V s r) es bss \<and> filter_state E nb (rd_bloom r) (concat bss))"

lemma decode_index_record [simp]: "decode_block_handle (rec_value (index_record (k, h))) = Inr h"
  by (simp add: decode_block_handle_def index_record_def BLOCK_HANDLE_SIZE_def)

lemma block_opens: "table_fits rs \<Longrightarrow> block_open E (block_bytes E rs) = Inr (reader_of rs)"
  using table_fits_block(2) by (intro block_open_ok) fastforce

lemma read_records_ok:
  assumes "entry_serves E V s r e rs" shows "read_records E V s r (snd e) = Inr (map entry_of rs)"
  using assms block_opens [of rs E] block_iterates [of rs] by (simp add: read_records_def entry_serves_def table_fits_def)

lemma scan_blocks_ok:
  "list_all2 (entry_serves E V s r) es bss \<Longrightarrow>
     scan_blocks E V s r (map index_record es) out = Inr (out @ map entry_of (concat bss))"
proof (induction es bss arbitrary: out rule: list_all2_induct)
  case (Cons e es rs bss)
  obtain k h where "e = (k, h)" by (cases e)
  then show ?case using Cons read_records_ok [OF Cons(1)] by simp
qed simp

lemma sst_scan_ok: "serves E V s r bss \<Longrightarrow> sst_scan E V s r = Inr (map entry_of (concat bss))"
  using scan_blocks_ok [where out = "[]"] by (auto simp: serves_def sst_scan_def block_iterates)

lemma decode_handles_ok: "decode_handles (map index_record es) = Inr (map snd es)"
  by (induction es) auto

section \<open>The lookup\<close>

lemma find_conj_filter: "find (\<lambda>x. P x \<and> Q x) xs = find Q (filter P xs)"
  by (induction xs) auto

lemma find_split: "find P xs = Some x \<Longrightarrow> \<exists>pre post. xs = pre @ x # post \<and> (\<forall>y \<in> set pre. \<not> P y) \<and> P x"
proof (induction xs)
  case (Cons y ys)
  show ?case
  proof (cases "P y")
    case True then show ?thesis using Cons.prems by (intro exI [of _ "[]"] exI [of _ ys]) simp
  next
    case False
    then obtain pre post where "ys = pre @ x # post" "\<forall>z \<in> set pre. \<not> P z" "P x" using Cons by auto
    then show ?thesis using False by (intro exI [of _ "y # pre"] exI [of _ post]) simp
  qed
qed simp

definition versions_sorted :: "block_record list \<Rightarrow> bool" where
  "versions_sorted rs \<longleftrightarrow> sorted_wrt (\<lambda>r r'. rec_key r < rec_key r' \<or> rec_key r = rec_key r' \<and> rec_seqno r' < rec_seqno r) rs"

abbreviation versions :: "key \<Rightarrow> block_record list \<Rightarrow> block_record list" where
  "versions key rs \<equiv> filter (\<lambda>r. rec_key r = key) rs"

lemma versions_sorted_keys: "versions_sorted rs \<Longrightarrow> keys_sorted rs"
  unfolding versions_sorted_def sorted_wrt_map by (rule sorted_wrt_mono_rel) auto

lemma versions_sorted_append:
  "versions_sorted (xs @ ys) \<longleftrightarrow> versions_sorted xs \<and> versions_sorted ys \<and>
     (\<forall>x \<in> set xs. \<forall>y \<in> set ys. rec_key x < rec_key y \<or> rec_key x = rec_key y \<and> rec_seqno y < rec_seqno x)"
  by (simp add: versions_sorted_def sorted_wrt_append)

lemma versions_descending:
  assumes "versions_sorted rs" shows "sorted_wrt (\<lambda>r r'. rec_seqno r' < rec_seqno r) (versions key rs)"
proof -
  have "sorted_wrt (\<lambda>r r'. rec_key r < rec_key r' \<or> rec_key r = rec_key r' \<and> rec_seqno r' < rec_seqno r) (versions key rs)"
    using assms unfolding versions_sorted_def by (rule sorted_wrt_filter)
  then show ?thesis by (rule sorted_wrt_mono_rel [rotated]) auto
qed

lemma find_next_version:
  assumes "sorted_wrt (\<lambda>r r'. rec_seqno r' < rec_seqno r) (pre @ v # vs)"
  shows "find (\<lambda>r. rec_seqno r < rec_seqno v) (pre @ v # vs) = (case vs of [] \<Rightarrow> None | y # ys \<Rightarrow> Some y)"
proof -
  have "\<forall>x \<in> set pre. \<not> rec_seqno x < rec_seqno v" using assms by (auto simp: sorted_wrt_append)
  then have "find (\<lambda>r. rec_seqno r < rec_seqno v) (pre @ v # vs) = find (\<lambda>r. rec_seqno r < rec_seqno v) vs"
    by (simp add: find_append_none)
  also have "\<dots> = (case vs of [] \<Rightarrow> None | y # ys \<Rightarrow> Some y)"
    using assms by (cases vs) (auto simp: sorted_wrt_append)
  finally show ?thesis .
qed

lemma get_versions_from:
  assumes "list_all rec_fits rs" "versions_sorted rs" "versions key rs = pre @ vs"
  shows "get_versions (reader_of rs) key snapshot (case vs of [] \<Rightarrow> None | v # _ \<Rightarrow> Some v) =
    map_option into_hit (find (\<lambda>r. rec_seqno r \<le> snapshot) vs)"
  using assms(3)
proof (induction vs arbitrary: pre)
  case Nil
  then show ?case by (simp add: get_versions.simps)
next
  case (Cons v vs)
  have "v \<in> set (versions key rs)" unfolding Cons.prems by simp
  then have key: "rec_key v = key" by simp
  have "next_after (reader_of rs) key (rec_seqno v) = find (\<lambda>r. rec_seqno r < rec_seqno v) (versions key rs)"
    unfolding next_after_def block_iterates [OF assms(1)] by (rule find_conj_filter)
  also have "\<dots> = (case vs of [] \<Rightarrow> None | y # ys \<Rightarrow> Some y)"
    using find_next_version [of pre v vs] versions_descending [OF assms(2), of key] unfolding Cons.prems by simp
  finally show ?case using Cons.IH [of "pre @ [v]"] Cons.prems key
    by (subst get_versions.simps) simp
qed

lemma get_versions_seek:
  assumes "list_all rec_fits rs" "versions_sorted rs"
  shows "get_versions (reader_of rs) key snapshot (find (\<lambda>r. key \<le> rec_key r) rs) =
    map_option into_hit (find (\<lambda>r. rec_seqno r \<le> snapshot) (versions key rs))"
proof (cases "find (\<lambda>r. key \<le> rec_key r) rs")
  case None
  then have "versions key rs = []" by (auto simp: find_None_iff filter_empty_conv)
  then show ?thesis using None by (simp add: get_versions.simps)
next
  case (Some x)
  then obtain pre post where x: "rs = pre @ x # post" "\<forall>y \<in> set pre. \<not> key \<le> rec_key y" "key \<le> rec_key x"
    using find_split [OF Some] by blast
  have pre: "versions key pre = []" using x(2) by (auto simp: filter_empty_conv)
  show ?thesis
  proof (cases "rec_key x = key")
    case True
    then have "versions key rs = x # versions key post" using x(1) pre by simp
    then show ?thesis using get_versions_from [OF assms, of key "[]" "x # versions key post" snapshot] Some by simp
  next
    case False
    then have "\<forall>y \<in> set post. rec_key y \<noteq> key" using x assms(2) by (auto simp: versions_sorted_def sorted_wrt_append)
    then have "versions key rs = []" using x(1) pre False by (auto simp: filter_empty_conv)
    then show ?thesis using Some False by (subst get_versions.simps) simp
  qed
qed

text \<open>The index as the search sees it: one record per block, keyed by the block's last key.\<close>

abbreviation last_key :: "block_record list \<Rightarrow> key" where
  "last_key rs \<equiv> rec_key (last rs)"

definition index_no_straddle :: "block_record list list \<Rightarrow> key \<Rightarrow> bool" where
  "index_no_straddle bss target \<longleftrightarrow> (\<forall>j. 0 < j \<and> 16 * j < length bss \<and> last_key (bss ! (16 * j)) = target \<longrightarrow>
     last_key (bss ! (16 * j - 1)) \<noteq> target)"

lemma index_keys: "list_all2 (entry_serves E V s r) es bss \<Longrightarrow> map rec_key (map index_record es) = map last_key bss"
  by (induction es bss rule: list_all2_induct) (auto simp: entry_serves_def index_record_def split: prod.split)

lemma index_record_key:
  assumes "list_all2 (entry_serves E V s r) es bss" "i < length bss"
  shows "rec_key (map index_record es ! i) = last_key (bss ! i)"
  using arg_cong [OF index_keys [OF assms(1)], of "\<lambda>xs. xs ! i"] list_all2_lengthD [OF assms(1)] assms(2) by simp

lemma index_straddle:
  assumes "list_all2 (entry_serves E V s r) es bss"
  shows "no_straddle (map index_record es) key = index_no_straddle bss key"
proof -
  have "length es = length bss" using assms by (rule list_all2_lengthD)
  then show ?thesis unfolding no_straddle_def index_no_straddle_def
    using index_record_key [OF assms] by (intro arg_cong [of _ _ All] ext) auto
qed

lemma last_key_greatest: "versions_sorted rs \<Longrightarrow> x \<in> set rs \<Longrightarrow> rec_key x \<le> last_key rs"
proof (induction rs)
  case (Cons y ys)
  have "rec_key y \<le> last_key ys" if "ys \<noteq> []"
    using Cons.prems(1) last_in_set [OF that] by (auto simp: versions_sorted_def dest!: bspec [of _ _ "last ys"])
  then show ?case using Cons by (cases "ys = []") (auto simp: versions_sorted_def)
qed simp

lemma block_sorted: "versions_sorted (concat bss) \<Longrightarrow> b \<in> set bss \<Longrightarrow> versions_sorted b"
  by (induction bss) (auto simp: versions_sorted_append)

lemma last_key_below: "versions_sorted b \<Longrightarrow> \<not> key \<le> last_key b \<Longrightarrow> versions key b = []"
  using last_key_greatest by (fastforce simp: filter_empty_conv)

lemma block_order:
  assumes "versions_sorted (concat (bpre @ rs # bpost))" "x \<in> set rs" "y \<in> set (concat bpost)"
  shows "rec_key x \<le> rec_key y"
  using assms by (force simp: versions_sorted_append)

lemma index_sorted:
  assumes "versions_sorted (concat bss)" "[] \<notin> set bss" shows "sorted_wrt (\<le>) (map last_key bss)"
  using assms
proof (induction bss)
  case (Cons rs bss)
  have "last_key rs \<le> last_key b" if "b \<in> set bss" for b
  proof -
    have "rs \<noteq> []" "b \<noteq> []" using Cons.prems(2) that by auto
    then have "last rs \<in> set rs" "last b \<in> set (concat bss)" using that last_in_set by auto
    then show ?thesis using block_order [of "[]" rs bss] Cons.prems(1) by simp
  qed
  then show ?case using Cons by (simp add: versions_sorted_append)
qed simp

lemma locate_split:
  "list_all2 (entry_serves E V s r) es bss \<Longrightarrow>
   (case find (\<lambda>x. key \<le> rec_key x) (map index_record es) of
      None \<Rightarrow> find (\<lambda>rs. key \<le> last_key rs) bss = None
    | Some x \<Rightarrow> \<exists>e rs. x = index_record e \<and> find (\<lambda>rs. key \<le> last_key rs) bss = Some rs \<and> entry_serves E V s r e rs)"
proof (induction es bss rule: list_all2_induct)
  case (Cons e es rs bss)
  have "rec_key (index_record e) = last_key rs" using Cons(1) by (cases e) (simp add: entry_serves_def index_record_def)
  then show ?case using Cons(1,3) by (cases "key \<le> last_key rs") (auto simp del: split_paired_Ex split: option.split)
qed simp

lemma serves_nonempty: "list_all2 (entry_serves E V s r) es bss \<Longrightarrow> [] \<notin> set bss"
  by (induction es bss rule: list_all2_induct) (auto simp: entry_serves_def)

lemma sst_get_first_block:
  assumes srv: "serves E V s r bss" and sorted: "versions_sorted (concat bss)" and ix: "index_no_straddle bss key"
    and blocks: "\<forall>rs \<in> set bss. no_straddle rs key"
  shows "snd (sst_get E V s key snapshot r) = Inr (map_option into_hit (find (\<lambda>r. rec_seqno r \<le> snapshot)
    (case find (\<lambda>rs. key \<le> last_key rs) bss of None \<Rightarrow> [] | Some rs \<Rightarrow> versions key rs)))"
proof -
  obtain es nb where es: "block_open E (rd_index_bytes r) = Inr (reader_of (map index_record es))"
    "list_all rec_fits (map index_record es)" "length (enc 0 [] (map index_record es)) < 2 ^ 32"
    "list_all2 (entry_serves E V s r) es bss" "filter_state E nb (rd_bloom r) (concat bss)"
    using srv unfolding serves_def by blast
  have "keys_sorted (map index_record es)" using index_sorted [OF sorted serves_nonempty [OF es(4)]] index_keys [OF es(4)] by simp
  then have seek: "block_seek (reader_of (map index_record es)) key = Inr (find (\<lambda>x. key \<le> rec_key x) (map index_record es))"
    using block_seek_ok [OF es(2,3)] index_straddle [OF es(4)] ix by simp
  let ?found = "case find (\<lambda>rs. key \<le> last_key rs) bss of None \<Rightarrow> [] | Some rs \<Rightarrow> versions key rs"
  have main: "and_then (locate_block E r key) (\<lambda>located. case located of None \<Rightarrow> Inr None | Some handle \<Rightarrow>
      and_then (read_data_block E V s r handle) (\<lambda>block_bytes. and_then (block_open E block_bytes) (\<lambda>reader.
      and_then (block_seek reader key) (\<lambda>rec_opt. Inr (get_versions reader key snapshot rec_opt))))) =
    Inr (map_option into_hit (find (\<lambda>r. rec_seqno r \<le> snapshot) ?found))"
  proof (cases "find (\<lambda>x. key \<le> rec_key x) (map index_record es)")
    case None
    then show ?thesis using locate_split [OF es(4), of key] es(1) seek by (simp add: locate_block_def)
  next
    case (Some x)
    then obtain e rs where e: "x = index_record e" "find (\<lambda>rs. key \<le> last_key rs) bss = Some rs" "entry_serves E V s r e rs"
      using locate_split [OF es(4), of key] by auto
    have rs: "rs \<in> set bss" using e(2) by (auto simp: find_Some_iff)
    then have vs: "versions_sorted rs" using block_sorted [OF sorted] by blast
    have fits: "table_fits rs" "list_all rec_fits rs" using e(3) by (simp_all add: entry_serves_def table_fits_def)
    then have "length (enc 0 [] rs) < 2 ^ 32" using table_fits_block(3) by fastforce
    then have "block_seek (reader_of rs) key = Inr (find (\<lambda>r. key \<le> rec_key r) rs)"
      using block_seek_ok [OF fits(2) _ versions_sorted_keys [OF vs]] blocks rs by blast
    then show ?thesis using Some e es(1) seek block_opens [OF fits(1)] get_versions_seek [OF fits(2) vs]
      by (cases e) (simp add: locate_block_def entry_serves_def)
  qed
  have none: "?found = []" if "bloom_contains E key b = Inr False" "rd_bloom r = Some b" for b
  proof -
    have "\<forall>x \<in> set (concat bss). rec_key x \<noteq> key" using es(5) that by (auto simp: filter_state_def)
    then show ?thesis by (auto simp: find_Some_iff filter_empty_conv split: option.split)
  qed
  have "\<exists>x. bloom_contains E key b = Inr x" if "rd_bloom r = Some b" for b
    using es(5) that bloom_contains_eq by (fastforce simp: filter_state_def)
  then show ?thesis using main none by (fastforce simp: sst_get_def split: option.splits)
qed

lemma nth_in_parts:
  assumes "i < j" "j < length xs" shows "xs ! i \<in> set (take j xs)" "xs ! j \<in> set (drop j xs)"
proof -
  have "take j xs ! i \<in> set (take j xs)" using assms by (intro nth_mem) simp
  then show "xs ! i \<in> set (take j xs)" using assms by simp
  have "drop j xs ! 0 \<in> set (drop j xs)" using assms by (intro nth_mem) simp
  then show "xs ! j \<in> set (drop j xs)" using assms by simp
qed

lemma two_matches:
  assumes "i < j" "j < length xs" "P (xs ! i)" "P (xs ! j)" shows "2 \<le> length (filter P xs)"
proof -
  have "filter P (take j xs) \<noteq> []" "filter P (drop j xs) \<noteq> []"
    using nth_in_parts [OF assms(1,2)] assms(3,4) unfolding filter_empty_conv by blast+
  then have "1 \<le> length (filter P (take j xs))" "1 \<le> length (filter P (drop j xs))" by (simp_all add: Suc_le_eq)
  moreover have "length (filter P xs) = length (filter P (take j xs)) + length (filter P (drop j xs))"
    by (metis append_take_drop_id filter_append length_append)
  ultimately show ?thesis by linarith
qed

lemma two_block_matches:
  assumes "i < j" "j < length bss" "\<exists>x \<in> set (bss ! i). P x" "\<exists>x \<in> set (bss ! j). P x"
  shows "2 \<le> length (filter P (concat bss))"
proof -
  have "filter P (concat (take j bss)) \<noteq> []" "filter P (concat (drop j bss)) \<noteq> []"
    using nth_in_parts [OF assms(1,2)] assms(3,4) unfolding filter_empty_conv set_concat by blast+
  then have "1 \<le> length (filter P (concat (take j bss)))" "1 \<le> length (filter P (concat (drop j bss)))" by (simp_all add: Suc_le_eq)
  moreover have "length (filter P (concat bss)) = length (filter P (concat (take j bss))) + length (filter P (concat (drop j bss)))"
    by (metis append_take_drop_id concat_append filter_append length_append)
  ultimately show ?thesis by linarith
qed

lemma unique_no_straddle:
  assumes "length (versions key rs) \<le> 1" shows "no_straddle rs key"
  unfolding no_straddle_def
proof (intro allI impI notI)
  fix j assume "0 < j \<and> 16 * j < length rs \<and> rec_key (rs ! (16 * j)) = key" "rec_key (rs ! (16 * j - 1)) = key"
  then show False using two_matches [of "16 * j - 1" "16 * j" rs "\<lambda>r. rec_key r = key"] assms by simp
qed

lemma first_block_versions:
  assumes "versions_sorted (concat bss)" "[] \<notin> set bss"
    "\<And>bpre rs bpost. bss = bpre @ rs # bpost \<Longrightarrow> last_key rs = key \<Longrightarrow> versions key (concat bpost) = []"
  shows "(case find (\<lambda>rs. key \<le> last_key rs) bss of None \<Rightarrow> [] | Some rs \<Rightarrow> versions key rs) = versions key (concat bss)"
proof (cases "find (\<lambda>rs. key \<le> last_key rs) bss")
  case None
  have "versions key b = []" if "b \<in> set bss" for b
    using last_key_below [OF block_sorted [OF assms(1) that]] None that by (simp add: find_None_iff)
  then show ?thesis using None by (simp add: filter_concat)
next
  case (Some rs)
  then obtain bpre bpost where b: "bss = bpre @ rs # bpost" "\<forall>b \<in> set bpre. \<not> key \<le> last_key b" "key \<le> last_key rs"
    using find_split [OF Some] by blast
  have "versions key c = []" if "c \<in> set bpre" for c
    using last_key_below [OF block_sorted [OF assms(1)]] b(1,2) that by simp
  then have "versions key (concat bpre) = []" by (simp add: filter_concat)
  moreover have "versions key (concat bpost) = []"
  proof (cases "last_key rs = key")
    case False
    have "rs \<noteq> []" using assms(2) b(1) by auto
    then have "last_key rs \<le> rec_key y" if "y \<in> set (concat bpost)" for y
      using block_order [of bpre rs bpost "last rs" y] assms(1) b(1) that by simp
    then show ?thesis using b(3) False by (fastforce simp: filter_empty_conv)
  qed (rule assms(3) [OF b(1)])
  ultimately show ?thesis using Some b(1) by simp
qed

lemma block_versions: "b \<in> set bss \<Longrightarrow> length (versions key b) \<le> length (versions key (concat bss))"
  by (induction bss) auto

lemma sst_get_ok:
  assumes "serves E V s r bss" "versions_sorted (concat bss)" "length (versions key (concat bss)) \<le> 1"
  shows "snd (sst_get E V s key snapshot r) =
    Inr (map_option into_hit (find (\<lambda>r. rec_seqno r \<le> snapshot) (versions key (concat bss))))"
proof -
  obtain es where "list_all2 (entry_serves E V s r) es bss" using assms(1) unfolding serves_def by blast
  then have ne: "[] \<notin> set bss" by (rule serves_nonempty)
  have last: "\<exists>x \<in> set (bss ! i). rec_key x = key" if "i < length bss" "last_key (bss ! i) = key" for i
  proof (intro bexI [of _ "last (bss ! i)"])
    have "bss ! i \<noteq> []" using ne nth_mem [OF that(1)] by auto
    then show "last (bss ! i) \<in> set (bss ! i)" by simp
  qed (rule that(2))
  have ix: "index_no_straddle bss key" unfolding index_no_straddle_def
  proof (intro allI impI notI)
    fix j assume j: "0 < j \<and> 16 * j < length bss \<and> last_key (bss ! (16 * j)) = key" "last_key (bss ! (16 * j - 1)) = key"
    have lt: "16 * j - 1 < 16 * j" "16 * j < length bss" "16 * j - 1 < length bss" using j(1) by linarith+
    show False
      using two_block_matches [of _ _ _ "\<lambda>r. rec_key r = key", OF lt(1,2) last [OF lt(3) j(2)] last [OF lt(2)]] j(1) assms(3) by linarith
  qed
  have blocks: "\<forall>rs \<in> set bss. no_straddle rs key"
  proof
    fix rs assume "rs \<in> set bss"
    then show "no_straddle rs key" using assms(3) block_versions [of rs bss key] by (intro unique_no_straddle) simp
  qed
  have rest: "versions key (concat bpost) = []" if "bss = bpre @ rs # bpost" "last_key rs = key" for bpre rs bpost
  proof -
    have "rs \<noteq> []" using that(1) ne by auto
    then have "last rs \<in> set (versions key rs)" using that(2) by simp
    then have "1 \<le> length (versions key rs)" using length_pos_if_in_set [of "last rs"] by (simp add: Suc_le_eq)
    then have "length (versions key (concat bpost)) = 0"
      using assms(3) unfolding that(1) concat_append concat.simps filter_append length_append by linarith
    then show ?thesis by (simp only: length_0_conv)
  qed
  have found: "(case find (\<lambda>rs. key \<le> last_key rs) bss of None \<Rightarrow> [] | Some rs \<Rightarrow> versions key rs) = versions key (concat bss)"
    by (rule first_block_versions [OF assms(2) ne]) (rule rest)
  show ?thesis using sst_get_first_block [OF assms(1,2) ix blocks, of snapshot] unfolding found .
qed

section \<open>Streams\<close>

text \<open>
  The contract of a record source, \<^verbatim>\<open>Iterator<Item = Result<(Vec<u8>, LookupHit)>>\<close> as the merger
  uses it: a source that owes a list of records hands out its head and then owes the tail; one
  that owes nothing ends, and keeps owing nothing.
\<close>

type_synonym hit_entry = "key \<times> lookup_hit"

fun take_records :: "('i \<Rightarrow> 'i \<times> hit_entry result option) \<Rightarrow> nat \<Rightarrow> 'i \<Rightarrow> 'i \<times> hit_entry list" where
  "take_records nxt 0 i = (i, [])"
| "take_records nxt (Suc n) i =
     (case nxt i of (i', Some (Inr x)) \<Rightarrow> (let (i'', xs) = take_records nxt n i' in (i'', x # xs)) | (i', _) \<Rightarrow> (i', []))"

locale record_source =
  fixes nxt :: "'i \<Rightarrow> 'i \<times> hit_entry result option" and owes :: "'i \<Rightarrow> hit_entry list \<Rightarrow> bool"
  assumes nxt_Cons: "owes i (x # xs) \<Longrightarrow> \<exists>i'. nxt i = (i', Some (Inr x)) \<and> owes i' xs"
    and nxt_Nil: "owes i [] \<Longrightarrow> \<exists>i'. nxt i = (i', None) \<and> owes i' []"
begin

text \<open>Taking as many records as the source owes gives exactly these records.\<close>

lemma take_records_owed: "owes i xs \<Longrightarrow> \<exists>i'. take_records nxt (length xs) i = (i', xs) \<and> owes i' []"
proof (induction xs arbitrary: i)
  case (Cons x xs)
  obtain i' where i': "nxt i = (i', Some (Inr x))" "owes i' xs" using nxt_Cons [OF Cons.prems] by blast
  obtain i'' where "take_records nxt (length xs) i' = (i'', xs)" "owes i'' []" using Cons.IH [OF i'(2)] by blast
  then show ?case using i'(1) by simp
qed simp

end

definition stream_pending :: "externs \<Rightarrow> ('s, 'h) vfs \<Rightarrow> 's \<Rightarrow> 'h sst_stream \<Rightarrow> hit_entry list \<Rightarrow> bool" where
  "stream_pending E V s st rest \<longleftrightarrow> (\<exists>es bss. list_all2 (entry_serves E V s (ss_reader st)) es bss \<and>
     drop (ss_next_block st) (ss_handles st) = map snd es \<and> rest = ss_current st @ map entry_of (concat bss))"

lemma drop_Cons_nth: "drop n xs = y # ys \<Longrightarrow> n < length xs \<and> xs ! n = y \<and> drop (Suc n) xs = ys"
proof -
  assume a: "drop n xs = y # ys"
  have "n < length xs" using arg_cong [OF a, of length] by simp
  then show ?thesis using a Cons_nth_drop_Suc [of n xs] by simp
qed

lemma refill_Cons:
  assumes "entry_serves E V s (ss_reader st) e rs" "drop (ss_next_block st) (ss_handles st) = snd e # hs"
  shows "refill E V s st = (st\<lparr>ss_next_block := ss_next_block st + 1, ss_current := map entry_of rs\<rparr>, Inr True)"
  using drop_Cons_nth [OF assms(2)] read_records_ok [OF assms(1)] assms(1)
  by (subst refill.simps) (simp add: Let_def entry_serves_def)

lemma refill_Nil: "drop (ss_next_block st) (ss_handles st) = [] \<Longrightarrow> refill E V s st = (st, Inr False)"
  by (subst refill.simps) simp

lemma stream_next_Cons:
  assumes "stream_pending E V s st (x # xs)"
  shows "\<exists>st'. stream_next E V s st = (st', Some (Inr x)) \<and> stream_pending E V s st' xs"
proof -
  obtain es bss where p: "list_all2 (entry_serves E V s (ss_reader st)) es bss"
    "drop (ss_next_block st) (ss_handles st) = map snd es" "x # xs = ss_current st @ map entry_of (concat bss)"
    using assms unfolding stream_pending_def by blast
  show ?thesis
  proof (cases "ss_current st")
    case (Cons y ys)
    then have "stream_pending E V s (st\<lparr>ss_current := ys\<rparr>) xs" unfolding stream_pending_def
      using p by (intro exI [of _ es] exI [of _ bss]) simp
    moreover have "stream_next E V s st = (st\<lparr>ss_current := ys\<rparr>, Some (Inr x))"
      using Cons p(3) by (simp add: stream_next_def stream_next_record.simps)
    ultimately show ?thesis by blast
  next
    case Nil
    then obtain rs bss' where b: "bss = rs # bss'" using p(3) by (cases bss) simp_all
    then obtain e es' where e: "es = e # es'" "entry_serves E V s (ss_reader st) e rs" "list_all2 (entry_serves E V s (ss_reader st)) es' bss'"
      using p(1) unfolding b list_all2_Cons2 by blast
    then obtain z zs where z: "rs = z # zs" by (cases rs) (simp_all add: entry_serves_def)
    let ?st = "st\<lparr>ss_next_block := ss_next_block st + 1, ss_current := map entry_of rs\<rparr>"
    let ?st' = "st\<lparr>ss_next_block := ss_next_block st + 1, ss_current := map entry_of zs\<rparr>"
    have d: "drop (ss_next_block st) (ss_handles st) = snd e # map snd es'" using p(2) e(1) by simp
    have "stream_next_record E V s ?st = (?st', Inr (Some (entry_of z)))" by (subst stream_next_record.simps) (simp add: z)
    then have "stream_next_record E V s st = (?st', Inr (Some (entry_of z)))"
      using refill_Cons [OF e(2) d] Nil by (subst stream_next_record.simps) simp
    moreover have "x = entry_of z" "xs = map entry_of zs @ map entry_of (concat bss')" using p(3) Nil b z by simp_all
    moreover have "stream_pending E V s ?st' (map entry_of zs @ map entry_of (concat bss'))" unfolding stream_pending_def
      using e(3) drop_Cons_nth [OF d] by (intro exI [of _ es'] exI [of _ bss']) simp
    ultimately show ?thesis by (simp add: stream_next_def)
  qed
qed

lemma stream_next_Nil:
  assumes "stream_pending E V s st []"
  shows "stream_next E V s st = (st, None)"
proof -
  obtain es bss where p: "list_all2 (entry_serves E V s (ss_reader st)) es bss"
    "drop (ss_next_block st) (ss_handles st) = map snd es" "[] = ss_current st @ map entry_of (concat bss)"
    using assms unfolding stream_pending_def by blast
  have "bss = []" using p(3) serves_nonempty [OF p(1)] by (cases bss) auto
  then have "refill E V s st = (st, Inr False)" using p(1,2) by (intro refill_Nil) simp
  then show ?thesis using p(3) by (simp add: stream_next_def stream_next_record.simps)
qed

interpretation sst_source: record_source "stream_next E V s" "stream_pending E V s" for E V s
proof
  fix i x xs assume "stream_pending E V s i (x # xs)"
  then show "\<exists>i'. stream_next E V s i = (i', Some (Inr x)) \<and> stream_pending E V s i' xs" by (rule stream_next_Cons)
next
  fix i assume "stream_pending E V s i []"
  then show "\<exists>i'. stream_next E V s i = (i', None) \<and> stream_pending E V s i' []" by (intro exI [of _ i] conjI stream_next_Nil)
qed

lemma scan_stream_ok:
  assumes "serves E V s r bss"
  shows "\<exists>st. scan_stream E r = Inr st \<and> stream_pending E V s st (map entry_of (concat bss)) \<and> ss_reader st = r"
proof -
  obtain es nb where es: "block_open E (rd_index_bytes r) = Inr (reader_of (map index_record es))"
    "list_all rec_fits (map index_record es)" "list_all2 (entry_serves E V s r) es bss" using assms unfolding serves_def by blast
  have "scan_stream E r = Inr \<lparr>ss_reader = r, ss_handles = map snd es, ss_next_block = 0, ss_current = []\<rparr>"
    using es(1) block_iterates [OF es(2)] decode_handles_ok by (simp add: scan_stream_def decode_index_handles_def)
  then show ?thesis unfolding stream_pending_def using es(3) by auto
qed

section \<open>Opening a finished table\<close>

definition dec_ctx :: "encryption_ctx option \<Rightarrow> decryption_ctx option" where
  "dec_ctx c = map_option (\<lambda>ctx. \<lparr>dc_aead = ec_aead ctx, dc_sstable_id = ec_sstable_id ctx\<rparr>) c"

definition at_offset :: "bytes \<Rightarrow> nat \<Rightarrow> bytes \<Rightarrow> bool" where
  "at_offset w off d \<longleftrightarrow> (\<exists>pre post. w = pre @ d @ post \<and> length pre = off)"

lemma at_offsetI: "length pre = off \<Longrightarrow> at_offset (pre @ d @ post) off d"
  by (auto simp: at_offset_def)

lemma at_offset_le: "at_offset w off d \<Longrightarrow> off + length d \<le> length w"
  by (auto simp: at_offset_def)

lemma at_offset_take: "at_offset w off d \<Longrightarrow> take (length d) (drop off w) = d"
  by (auto simp: at_offset_def)

lemma index_entries_at:
  "length pre = off \<Longrightarrow> list_all2 (\<lambda>e rs. \<exists>o'. e = block_entry E c o' rs \<and>
     at_offset (pre @ data_bytes E c off bss @ post) o' (disk_block E c o' rs)) (index_entries E c off bss) bss"
proof (induction bss arbitrary: pre off)
  case (Cons rs bss)
  let ?p = "padded_block E c off rs"
  have "at_offset (pre @ disk_block E c off rs @ replicate (align_pad (off + length (disk_block E c off rs))) 0 @
      data_bytes E c (off + length ?p) bss @ post) off (disk_block E c off rs)" using Cons.prems by (rule at_offsetI)
  moreover have "length (pre @ ?p) = off + length ?p" using Cons.prems by simp
  ultimately show ?case using Cons.IH [of "pre @ ?p" "off + length ?p"]
    by (auto simp: padded_block_def)
qed simp

lemma table_fits_block_of: "table_fits (concat bss) \<Longrightarrow> [] \<notin> set bss \<Longrightarrow> rs \<in> set bss \<Longrightarrow> table_fits rs \<and> rs \<noteq> []"
proof (induction bss)
  case (Cons b bss)
  then show ?case using table_fits_append [of b "concat bss"] by auto
qed simp

lemma list_all2_weaken:
  "list_all2 P xs ys \<Longrightarrow> (\<And>x y. y \<in> set ys \<Longrightarrow> P x y \<Longrightarrow> Q x y) \<Longrightarrow> list_all2 Q xs ys"
  by (induction xs ys rule: list_all2_induct) auto

lemma table_bytes_layout:
  assumes "data = data_bytes E c 4096 bss" "fb = filter_bytes bloom" "ib = block_bytes E (index_records E c bss)"
    "hdr = file_header_bytes (table_header E c alg bss)" "ft = footer_bytes (table_footer E (4096 + length data) fb ib)"
  shows "table_bytes E c alg bloom bss = hdr @ replicate 4032 0 @ data @ fb @ ib @ ft"
    "at_offset (table_bytes E c alg bloom bss) 0 hdr" "at_offset (table_bytes E c alg bloom bss) (4096 + length data) fb"
    "at_offset (table_bytes E c alg bloom bss) (4096 + length data + length fb) ib"
    "at_offset (table_bytes E c alg bloom bss) (length (table_bytes E c alg bloom bss) - 64) ft"
proof -
  show t: "table_bytes E c alg bloom bss = hdr @ replicate 4032 0 @ data @ fb @ ib @ ft"
    using assms by (simp add: table_bytes_def Let_def)
  have len: "length hdr = 64" "length ft = 64" using assms by simp_all
  show "at_offset (table_bytes E c alg bloom bss) 0 hdr" unfolding t using at_offsetI [of "[]" 0 hdr] by simp
  show "at_offset (table_bytes E c alg bloom bss) (4096 + length data) fb"
    unfolding t using at_offsetI [of "hdr @ replicate 4032 0 @ data" "4096 + length data" fb "ib @ ft"] len by simp
  show "at_offset (table_bytes E c alg bloom bss) (4096 + length data + length fb) ib"
    unfolding t using at_offsetI [of "hdr @ replicate 4032 0 @ data @ fb" "4096 + length data + length fb" ib ft] len by simp
  show "at_offset (table_bytes E c alg bloom bss) (length (table_bytes E c alg bloom bss) - 64) ft"
    unfolding t using at_offsetI [of "hdr @ replicate 4032 0 @ data @ fb @ ib" _ ft "[]"] len by simp
qed

lemma table_bytes_length:
  assumes "sealable E c" "table_fits (concat bss)" "[] \<notin> set bss" "filter_state E nb bloom rs" "unat nb < 2 ^ 25"
  shows "length (table_bytes E c alg bloom bss) < 2 ^ 64" "128 \<le> length (table_bytes E c alg bloom bss)"
  using data_bytes_bound [OF assms(1-3), of 4096] length_filter_bytes [OF assms(4,5)] index_block_ok(2) [OF assms(2,3), of E c]
  by (simp_all add: table_bytes_def Let_def)

lemma flags_encrypted: "flag_ENCRYPTED \<noteq> 0" "flag_CHECKSUMMED AND flag_ENCRYPTED = 0"
  by (simp_all add: flag_CHECKSUMMED_def flag_ENCRYPTED_def)

lemma check_encryption_ok: "check_encryption (table_header E c alg bss) (dec_ctx c) = Inr ()"
  by (cases c) (simp_all add: check_encryption_def table_header_def dec_ctx_def flags_encrypted Let_def)

text \<open>
  A reader is backed by a file when the file has the bytes of a finished table and the reader
  is one that opening such a table gives.  This depends on the store only through that file.
\<close>

definition table_reader :: "externs \<Rightarrow> encryption_ctx option \<Rightarrow> algorithm \<Rightarrow> block_record list list \<Rightarrow> 'h sst_reader \<Rightarrow> bool" where
  "table_reader E c alg bss r \<longleftrightarrow> rd_index_bytes r = block_bytes E (index_records E c bss) \<and> rd_crypto r = dec_ctx c \<and>
     rd_header r = table_header E c alg bss \<and> (\<exists>nb. filter_state E nb (rd_bloom r) (concat bss))"

context file_store
begin

definition backs :: "externs \<Rightarrow> 's \<Rightarrow> 'h sst_reader \<Rightarrow> block_record list list \<Rightarrow> bool" where
  "backs E s r bss \<longleftrightarrow> (\<exists>c alg bloom nb. live s (fid (rd_file r)) \<and>
     contents s (fid (rd_file r)) = table_bytes E c alg bloom bss \<and> table_reader E c alg bss r \<and> table_fits (concat bss) \<and>
     [] \<notin> set bss \<and> sealable E c \<and> filter_state E nb bloom (concat bss) \<and> unat nb < 2 ^ 25)"

lemma read_region:
  assumes "live s (fid h)" "length (contents s (fid h)) < 2 ^ 64" "at_offset (contents s (fid h)) off d" "n = length d"
  shows "v_read_at V h n off s = Inr d"
  using read_at_ok [OF assms(1) at_offset_le [OF assms(3)] assms(2)] at_offset_take [OF assms(3)] assms(4) by simp

lemma read_data_block_ok:
  assumes r: "rd_file r = h" "rd_crypto r = dec_ctx c" and live: "live s (fid h)"
    and at: "at_offset (contents s (fid h)) off (disk_block E c off rs)" and len: "length (contents s (fid h)) < 2 ^ 64"
    and seal: "sealable E c" and fits: "table_fits rs"
  shows "read_data_block E V s r (snd (block_entry E c off rs)) = Inr (block_bytes E rs)"
proof -
  have small: "length (block_bytes E rs) < 2 ^ 36 - 32" using table_fits_block(1) [OF fits, of E] by simp
  have "length (disk_block E c off rs) < 2 ^ 32" using disk_block_length [OF seal small, of off] table_fits_block(1) [OF fits, of E] by simp
  then have n: "unat (of_nat (length (disk_block E c off rs)) :: u32) = length (disk_block E c off rs)" by (simp add: unat_of_nat_less)
  have "off < 2 ^ 64" using at_offset_le [OF at] len by linarith
  then have o': "unat (of_nat off :: u64) = off" by (simp add: unat_of_nat_less)
  have "v_read_at V h (length (disk_block E c off rs)) off s = Inr (disk_block E c off rs)" by (rule read_region [OF live len at refl])
  then show ?thesis using r n o' disk_block_opens [OF seal small, of off]
    by (cases c) (simp_all add: read_data_block_def block_entry_def dec_ctx_def)
qed

lemma load_filter_ok:
  assumes live: "live s (fid h)" and len: "length (contents s (fid h)) < 2 ^ 64" and fs: "filter_state E nb bloom rs" "unat nb < 2 ^ 25"
    and at: "at_offset (contents s (fid h)) off (filter_bytes bloom)" and alloc: "bloom = None \<or> allocates E"
    and ft: "ft_filter_handle ft = handle_for off (filter_bytes bloom) 0"
  obtains bloom' where "load_filter E V s h ft = Inr bloom'" "filter_state E nb bloom' rs" "bloom' = None \<longleftrightarrow> bloom = None"
proof (cases bloom)
  case None
  then show thesis using ft by (intro that [of None]) (simp_all add: load_filter_def handle_for_def filter_bytes_def filter_state_def)
next
  case (Some b)
  note fb = filter_bytes_ok [OF fs(1) [unfolded Some]]
  have wf: "bloom_wf b" using fs(1) Some by (simp add: filter_state_def)
  obtain p where p: "bloom_decode E (filter_bytes bloom) = Inr (b\<lparr>bb_blocks := (bb_blocks b)\<lparr>ab_ptr := p\<rparr>\<rparr>)" "64 dvd p"
    using bloom_decode_encode [OF _ wf fb(1)] alloc Some by auto
  have "length (filter_bytes bloom) < 2 ^ 32" "length (filter_bytes bloom) \<noteq> 0" using fb(2) fs(2) Some by simp_all
  moreover have "off < 2 ^ 64" using at_offset_le [OF at] len by linarith
  ultimately have "load_filter E V s h ft = Inr (Some (b\<lparr>bb_blocks := (bb_blocks b)\<lparr>ab_ptr := p\<rparr>\<rparr>))"
    using ft read_region [OF live len at refl] p(1) by (simp add: load_filter_def handle_for_def unat_of_nat_less)
  moreover have "filter_state E nb (Some (b\<lparr>bb_blocks := (bb_blocks b)\<lparr>ab_ptr := p\<rparr>\<rparr>)) rs"
    using fs(1) Some contains_ptr [OF wf p(2)] by (simp add: filter_state_def)
  ultimately show thesis by (rule that) (simp only: Some option.distinct)
qed

lemma backs_serves:
  assumes "backs E s r bss" shows "serves E V s r bss"
proof -
  obtain c alg bloom nb nb' where b: "live s (fid (rd_file r))" "contents s (fid (rd_file r)) = table_bytes E c alg bloom bss"
    "rd_index_bytes r = block_bytes E (index_records E c bss)" "rd_crypto r = dec_ctx c" "filter_state E nb' (rd_bloom r) (concat bss)"
    "table_fits (concat bss)" "[] \<notin> set bss" "sealable E c" "filter_state E nb bloom (concat bss)" "unat nb < 2 ^ 25"
    using assms unfolding backs_def table_reader_def by blast
  note lay = table_bytes_layout [OF refl refl refl refl refl, of E c alg bloom bss]
  let ?hdr = "file_header_bytes (table_header E c alg bss)" and ?fb = "filter_bytes bloom"
  let ?ib = "block_bytes E (index_records E c bss)"
  let ?ft = "footer_bytes (table_footer E (4096 + length (data_bytes E c 4096 bss)) ?fb ?ib)"
  have w: "contents s (fid (rd_file r)) = (?hdr @ replicate 4032 0) @ data_bytes E c 4096 bss @ (?fb @ ?ib @ ?ft)"
    unfolding b(2) lay(1) by simp
  have len: "length (contents s (fid (rd_file r))) < 2 ^ 64" unfolding b(2) by (rule table_bytes_length(1) [OF b(8,6,7,9,10)])
  have entry: "entry_serves E V s r e rs"
    if "rs \<in> set bss" "e = block_entry E c o' rs" "at_offset (contents s (fid (rd_file r))) o' (disk_block E c o' rs)" for e rs o'
    using read_data_block_ok [OF refl b(4,1) that(3) len b(8)] table_fits_block_of [OF b(6,7) that(1)] that(2)
    by (simp add: entry_serves_def block_entry_def)
  have "length (?hdr @ replicate 4032 0) = 4096" by simp
  from index_entries_at [OF this, of E c bss "?fb @ ?ib @ ?ft", folded w]
  have "list_all2 (entry_serves E V s r) (index_entries E c 4096 bss) bss" by (rule list_all2_weaken) (use entry in blast)
  then show ?thesis unfolding serves_def
    using index_block_ok(3,5) [OF b(6,7), of E c] block_open_ok [OF index_block_ok(4) [OF b(6,7)], of E E c] b(3,5)
    by (intro exI [of _ "index_entries E c 4096 bss"] exI [of _ nb']) (simp add: index_records_def)
qed

lemma backs_frame:
  assumes "backs E s r bss" "live s' (fid (rd_file r))" "contents s' (fid (rd_file r)) = contents s (fid (rd_file r))"
  shows "backs E s' r bss"
  using assms unfolding backs_def by metis

lemma sst_open_ok:
  assumes live: "live s (fid h)" and bs: "contents s (fid h) = table_bytes E c alg bloom bss"
    and fits: "table_fits (concat bss)" "[] \<notin> set bss" and seal: "sealable E c"
    and fs: "filter_state E nb bloom (concat bss)" "unat nb < 2 ^ 25" and alloc: "bloom = None \<or> allocates E"
  obtains r where "sst_open_inner E V s h (dec_ctx c) = Inr r" "backs E s r bss" "table_reader E c alg bss r" "rd_file r = h"
proof -
  define data fb ib where "data = data_bytes E c 4096 bss" "fb = filter_bytes bloom" "ib = block_bytes E (index_records E c bss)"
  define hdr ft where "hdr = table_header E c alg bss" "ft = table_footer E (4096 + length data) fb ib"
  define w where "w = table_bytes E c alg bloom bss"
  note lay = table_bytes_layout [OF data_fb_ib_def refl refl, of alg, folded hdr_ft_def w_def]
  have len: "length (contents s (fid h)) < 2 ^ 64" and big: "128 \<le> length w"
    unfolding bs w_def using table_bytes_length [OF seal fits fs, of alg] by simp_all
  have c: "contents s (fid h) = w" unfolding w_def by (rule bs)
  note read = read_region [OF live len, unfolded c]
  have "v_read_at V h 64 (length w - 64) s = Inr (footer_bytes ft)" by (rule read [OF lay(5)]) simp
  then have footer: "load_footer E V s h (length w) = Inr ft"
    by (simp add: load_footer_def FOOTER_SIZE_def hdr_ft_def table_footer_def)
  have "v_read_at V h 64 0 s = Inr (file_header_bytes hdr)" by (rule read [OF lay(2)]) simp
  then have header: "load_header E V s h = Inr hdr"
    by (simp add: load_header_def FILE_HEADER_SIZE_def hdr_ft_def table_header_def)
  have ixl: "length ib < 2 ^ 32" using index_block_ok(2) [OF fits, of E c] by (simp add: data_fb_ib_def)
  have off: "4096 + length data + length fb < 2 ^ 64" using at_offset_le [OF lay(4)] len unfolding c by linarith
  have "unat (of_nat (length ib) :: u32) = length ib" "unat (of_nat (4096 + length data + length fb) :: u64) = 4096 + length data + length fb"
    using ixl off by (simp_all add: unat_of_nat_less del: of_nat_add)
  then have h: "unat (bh_length (ft_index_handle ft)) = length ib" "unat (bh_offset (ft_index_handle ft)) = 4096 + length data + length fb"
    by (simp_all add: hdr_ft_def table_footer_def handle_for_def del: of_nat_add)
  have index: "v_read_at V h (length ib) (4096 + length data + length fb) s = Inr ib" by (rule read [OF lay(4) refl])
  have "ft_filter_handle ft = handle_for (4096 + length data) (filter_bytes bloom) 0"
    by (simp add: hdr_ft_def table_footer_def data_fb_ib_def)
  from load_filter_ok [OF live len fs, unfolded c, OF lay(3) [unfolded data_fb_ib_def(2)] alloc this] obtain bloom' where
    bl: "load_filter E V s h ft = Inr bloom'" "filter_state E nb bloom' (concat bss)" by blast
  define r where "r = \<lparr>rd_file = h, rd_header = hdr, rd_footer = ft, rd_index_bytes = ib,
     rd_bloom = bloom', rd_bloom_misses_pruned = 0, rd_crypto = dec_ctx c\<rparr>"
  have open_ok: "sst_open_inner E V s h (dec_ctx c) = Inr r"
    using footer header index h bl(1) check_encryption_ok [of E c alg bss] size_ok [OF live] big
    by (simp add: sst_open_inner_def r_def c hdr_ft_def(1) FILE_HEADER_SIZE_def FOOTER_SIZE_def del: of_nat_add)
  have tr: "table_reader E c alg bss r" unfolding table_reader_def using bl(2) by (auto simp: r_def hdr_ft_def data_fb_ib_def)
  have file_r: "rd_file r = h" by (simp add: r_def)
  have "backs E s r bss" unfolding backs_def file_r using live bs tr fits seal fs by blast
  from that [OF open_ok this tr file_r] show thesis .
qed

lemma table_round_trip:
  assumes live: "live s (fid h)" and empty: "contents s (fid h) = []" and fs: "filter_sized E n params"
    and seal: "sealable E c" and fits: "table_fits rs"
  obtains s' r bss where "write_table E V h alg n params c k rs s = (s', Inr h)" "sst_open_inner E V s' h (dec_ctx c) = Inr r"
    "backs E s' r bss" "concat bss = rs" "table_reader E c alg bss r" "rd_file r = h"
    "\<forall>f. f \<noteq> fid h \<longrightarrow> contents s' f = contents s f" "live s' = live s" "[] \<notin> set bss"
proof -
  obtain s' where w: "write_table E V h alg n params c k rs s = (s', Inr h)" "table_written E c alg n rs (contents s' (fid h))"
    "\<forall>f. f \<noteq> fid h \<longrightarrow> contents s' f = contents s f" "live s' = live s"
    using write_table_ok [OF live empty fs seal fits] .
  obtain bloom bss nb where t: "contents s' (fid h) = table_bytes E c alg bloom bss" "concat bss = rs" "[] \<notin> set bss"
    "filter_state E nb bloom (concat bss)" "unat nb < 2 ^ 25" "bloom = None \<longleftrightarrow> n = 0" using w(2) unfolding table_written_def by blast
  have "live s' (fid h)" "table_fits (concat bss)" "bloom = None \<or> allocates E"
    using live w(4) fits t(2,6) fs by (auto simp: filter_sized_def)
  from sst_open_ok [OF this(1) t(1) this(2) t(3) seal t(4,5) this(3)] obtain r where
    r: "sst_open_inner E V s' h (dec_ctx c) = Inr r" "backs E s' r bss" "table_reader E c alg bss r" "rd_file r = h" .
  show thesis by (rule that [OF w(1) r(1,2) t(2) r(3,4) w(3,4) t(3)])
qed

end

section \<open>Properties\<close>

lemma table_header_fields:
  "fh_num_entries (table_header E c alg bss) = of_nat (length (concat bss))"
  "fh_max_seqno (table_header E c alg bss) = fold max (map rec_seqno (concat bss)) 0"
  by (simp_all add: table_header_def)

lemma mem_table_round_trip:
  assumes "h < length (mv_heap s)" "mv_heap s ! h = []" "filter_sized E n params" "sealable E c" "table_fits rs"
  obtains s' r bss where "write_table E MemVfs h alg n params c k rs s = (s', Inr h)" "sst_open_inner E MemVfs s' h (dec_ctx c) = Inr r"
    "serves E MemVfs s' r bss" "concat bss = rs" "rd_header r = table_header E c alg bss" "[] \<notin> set bss"
    "rd_index_bytes r = block_bytes E (index_records E c bss)"
proof -
  have "mem_live s (id h)" "mem_contents s (id h) = []" using assms(1,2) by simp_all
  then show thesis
  proof (rule mem.table_round_trip [OF _ _ assms(3-5)])
    fix s' r bss
    assume a: "write_table E MemVfs h alg n params c k rs s = (s', Inr h)" "sst_open_inner E MemVfs s' h (dec_ctx c) = Inr r"
      "mem.backs E s' r bss" "concat bss = rs" "table_reader E c alg bss r" "[] \<notin> set bss"
    have "rd_header r = table_header E c alg bss" "rd_index_bytes r = block_bytes E (index_records E c bss)"
      using a(5) by (simp_all add: table_reader_def)
    from that [OF a(1,2) mem.backs_serves [OF a(3)] a(4) this(1) a(6) this(2)] show thesis .
  qed
qed


definition sample_records :: "block_record list" where
  "sample_records = [\<lparr>rec_key = [1], rec_value = [7], rec_seqno = 3, rec_op = RPut\<rparr>,
     \<lparr>rec_key = [4], rec_value = [], rec_seqno = 5, rec_op = RTombstone\<rparr>]"

lemma sample_records_fit: "table_fits sample_records" "versions_sorted sample_records"
  by (simp_all add: sample_records_def table_fits_def rec_fits_def versions_sorted_def)

definition sample_ctx :: encryption_ctx where
  "sample_ctx = \<lparr>ec_aead = aead_new (AeadKey (replicate 32 7)), ec_sstable_id = 3\<rparr>"

lemma sample_sealable: "sealable (toy_aead undefined) (Some sample_ctx)"
  by (simp add: sealable_def sample_ctx_def aead_correct_def toy_aead_def aead_new_def)


text \<open>
  C24. Point lookups are correct for keys with one version.  On a table written from sorted
  records, a lookup of a key that has at most one record returns that record if its sequence
  number is at most the snapshot, tombstones included, and nothing otherwise; a key that is
  absent is never found.
\<close>

theorem sst_get_correct:
  assumes "h < length (mv_heap s)" "mv_heap s ! h = []" "filter_sized E n params" "sealable E c" "table_fits rs"
    and "versions_sorted rs" "length (versions key rs) \<le> 1"
  shows "\<exists>s' r. write_table E MemVfs h alg n params c k rs s = (s', Inr h) \<and>
    sst_open_inner E MemVfs s' h (dec_ctx c) = Inr r \<and>
    snd (sst_get E MemVfs s' key snapshot r) = Inr (map_option into_hit (find (\<lambda>r. rec_seqno r \<le> snapshot) (versions key rs)))"
proof -
  obtain s' r bss where "write_table E MemVfs h alg n params c k rs s = (s', Inr h)" "sst_open_inner E MemVfs s' h (dec_ctx c) = Inr r"
    "serves E MemVfs s' r bss" "concat bss = rs" using mem_table_round_trip [OF assms(1-5)] by metis
  then show ?thesis using sst_get_ok [of E MemVfs s' r bss key snapshot] assms(6,7) by simp
qed

theorem sst_get_correct_witness:
  "\<exists>s' r. write_table (toy_aead undefined) MemVfs 0 Crc32c 0 bloom_params_default (Some sample_ctx) 1 sample_records
       \<lparr>mv_files = [], mv_heap = [[]]\<rparr> = (s', Inr 0) \<and>
     sst_open_inner (toy_aead undefined) MemVfs s' 0 (dec_ctx (Some sample_ctx)) = Inr r \<and>
     snd (sst_get (toy_aead undefined) MemVfs s' [4] 9 r) = Inr (Some \<lparr>hit_seqno = 5, hit_op = RTombstone, hit_value = []\<rparr>)"
proof -
  have "filter_sized (toy_aead undefined) 0 bloom_params_default" by (simp add: filter_sized_def)
  from sst_get_correct [of 0 "\<lparr>mv_files = [], mv_heap = [[]]\<rparr>", OF _ _ this sample_sealable sample_records_fit, of "[4]" Crc32c 1 9]
  show ?thesis by (simp add: sample_records_def into_hit_def)
qed


lemma short_no_straddle: "length rs \<le> 16 \<Longrightarrow> no_straddle rs k"
  by (auto simp: no_straddle_def)

definition split_versions :: "block_record list list" where
  "split_versions = [[\<lparr>rec_key = [1], rec_value = [8], rec_seqno = 2, rec_op = RPut\<rparr>],
     [\<lparr>rec_key = [1], rec_value = [7], rec_seqno = 1, rec_op = RPut\<rparr>]]"


text \<open>
  C26. Encryption is not bridged silently: a plaintext table does not open with a key, and an
  encrypted one does not open without.
\<close>

theorem sst_encryption_mismatch:
  assumes "h < length (mv_heap s)" "mv_heap s ! h = []" "filter_sized E n params" "sealable E c" "table_fits rs"
    and "(d = None) \<noteq> (c = None)"
  shows "\<exists>s'. write_table E MemVfs h alg n params c k rs s = (s', Inr h) \<and>
    sst_open_inner E MemVfs s' h d = Inl (InvalidFormat ''sstable''
      (if c = None then ''file is not encrypted; open via SstReader::open'' else ''file is encrypted; open via SstReader::open_encrypted''))"
proof -
  obtain s' r bss where w: "write_table E MemVfs h alg n params c k rs s = (s', Inr h)" "sst_open_inner E MemVfs s' h (dec_ctx c) = Inr r"
    "rd_header r = table_header E c alg bss" using mem_table_round_trip [OF assms(1-5)] by metis
  have "check_encryption (table_header E c alg bss) d = Inl (InvalidFormat ''sstable''
      (if c = None then ''file is not encrypted; open via SstReader::open'' else ''file is encrypted; open via SstReader::open_encrypted''))"
    using assms(6) by (cases c; cases d) (simp_all add: check_encryption_def table_header_def flags_encrypted Let_def)
  moreover have "\<exists>sz footer. v_size MemVfs h s' = Inr sz \<and> \<not> sz < FILE_HEADER_SIZE + FOOTER_SIZE \<and> load_footer E MemVfs s' h sz = Inr footer \<and>
      load_header E MemVfs s' h = Inr (rd_header r)"
    using w(2) by (auto simp: sst_open_inner_def result_simps split: if_splits)
  ultimately show ?thesis using w(1,3) by (auto simp: sst_open_inner_def)
qed

theorem sst_encryption_mismatch_witness:
  "\<exists>s'. write_table (toy_aead undefined) MemVfs 0 Crc32c 0 bloom_params_default (Some sample_ctx) 1 sample_records
       \<lparr>mv_files = [], mv_heap = [[]]\<rparr> = (s', Inr 0) \<and>
     sst_open (toy_aead undefined) MemVfs s' 0 = Inl (InvalidFormat ''sstable'' ''file is encrypted; open via SstReader::open_encrypted'')"
proof -
  have "filter_sized (toy_aead undefined) 0 bloom_params_default" by (simp add: filter_sized_def)
  from sst_encryption_mismatch [of 0 "\<lparr>mv_files = [], mv_heap = [[]]\<rparr>", OF _ _ this sample_sealable sample_records_fit(1), of None Crc32c 1]
  show ?thesis by (simp add: sst_open_def)
qed

lemma index_offsets:
  assumes "sealable E c" "table_fits (concat bss)" "4096 dvd off" "off + length (data_bytes E c off bss) < 2 ^ 64"
  shows "sorted_wrt (<) (map (\<lambda>e. bh_offset (snd e)) (index_entries E c off bss)) \<and>
    list_all (\<lambda>e. off \<le> unat (bh_offset (snd e)) \<and> 4096 dvd unat (bh_offset (snd e))) (index_entries E c off bss)"
  using assms(2-4)
proof (induction bss arbitrary: off)
  case (Cons rs bss)
  let ?p = "length (padded_block E c off rs)"
  have fits: "table_fits rs" "table_fits (concat bss)" using table_fits_append [of rs "concat bss"] Cons.prems(1) by simp_all
  have "length (block_bytes E rs) < 2 ^ 36 - 32" using table_fits_block(1) [OF fits(1), of E] by simp
  then have pos: "0 < ?p" using disk_block_size [OF assms(1), of rs off] by (simp add: padded_block_def block_bytes_def)
  have dvd: "4096 dvd off + ?p"
    using align_pad_dvd [of "off + length (disk_block E c off rs)"] by (simp add: padded_block_def add.assoc)
  have off: "unat (of_nat off :: u64) = off" using Cons.prems(3) by (simp add: unat_of_nat_less)
  have "off + ?p + length (data_bytes E c (off + ?p) bss) < 2 ^ 64" using Cons.prems(3) by simp
  note IH = Cons.IH [OF fits(2) dvd this]
  have "off < unat (bh_offset (snd e))" if "e \<in> set (index_entries E c (off + ?p) bss)" for e
    using bspec [OF IH [THEN conjunct2, unfolded list_all_iff] that] pos by linarith
  then show ?case using IH off Cons.prems(2)
    by (auto simp: block_entry_def word_less_nat_alt list_all_iff intro: less_imp_le)
qed simp

lemma derive_block_nonce_inj: "inj derive_block_nonce"
  by (rule injI) (simp add: derive_block_nonce_def)



section \<open>Untrusted files\<close>

lemma no_panic_bind: "no_panic (and_then m f) \<longleftrightarrow> no_panic m \<and> (\<forall>x. m = Inr x \<longrightarrow> no_panic (f x))"
  by (cases m) simp_all

lemma no_panic_ok_or: "no_panic (ok_or x e) \<longleftrightarrow> x \<noteq> None \<or> (\<forall>m. e \<noteq> Panic m)"
  by (cases x) simp_all

lemma no_panic_mem_read [simp]: "no_panic (v_read_at MemVfs h n off s)"
  by (simp add: MemVfs_def mem_read_at_def Let_def)

lemma no_panic_mem_size [simp]: "no_panic (v_size MemVfs h s)"
  by (simp add: MemVfs_def mem_size_def)

lemma no_panic_decode_block_handle [simp]: "no_panic (decode_block_handle bs)"
  by (simp add: decode_block_handle_def invalid_format_static_def no_panic_ok_or)

lemma no_panic_read_data_block [simp]: "no_panic (read_data_block E MemVfs s r bh)"
  by (simp add: read_data_block_def Let_def no_panic_bind split: option.split sum.split)

lemma no_panic_read_records [simp]: "no_panic (read_records E MemVfs s r bh)"
  by (simp add: read_records_def no_panic_bind no_panic_block_open)

lemma no_panic_scan_blocks [simp]: "no_panic (scan_blocks E MemVfs s r ixs out)"
  by (induction ixs arbitrary: out) (simp_all add: no_panic_bind)

lemma no_panic_load:
  "no_panic (load_footer E MemVfs s h sz)" "no_panic (load_header E MemVfs s h)" "no_panic (check_encryption hdr d)"
  by (simp_all add: load_footer_def load_header_def check_encryption_def Let_def no_panic_bind invalid_format_static_def
      split: option.split bool.split)

lemma no_panic_load_filter: "allocates E \<Longrightarrow> no_panic (load_filter E MemVfs s h ft)"
  using bloom_decode_result by (auto simp: load_filter_def Let_def no_panic_bind)

lemma sst_open_filter:
  assumes "allocates E" "sst_open_inner E V s h d = Inr r" "rd_bloom r = Some b" shows "bloom_wf b"
proof -
  obtain footer where "load_filter E V s h footer = Inr (Some b)"
    using assms(2,3) by (auto simp: sst_open_inner_def result_simps split: if_splits)
  then obtain bs where "bloom_decode E bs = Inr b" by (auto simp: load_filter_def Let_def result_simps split: if_splits)
  then show ?thesis using bloom_decode_result [OF assms(1)] by blast
qed



end
