(* ===== verification/Merger.thy ===== *)
theory Merger
  imports SstReader "HOL-Library.Product_Lexorder" "HOL-Library.Multiset"
begin

text \<open>
  The k-way merge, \<^verbatim>\<open>crates/paddock-core/src/compaction/merger.rs\<close>, over any record source.  The
  standard library's \<^verbatim>\<open>BinaryHeap\<close> is a list from which a least entry is taken.  The merge of
  sorted sources is shown to be the stable sort of their records, sources in their order, and
  the merger to be itself a record source.
\<close>

section \<open>The merger\<close>

record heap_entry =
  he_key :: key
  he_seqno :: u64
  he_hit :: lookup_hit
  he_source :: nat

definition heap_cmp :: "heap_entry \<Rightarrow> heap_entry \<Rightarrow> ordering" where
  "heap_cmp a b =
     (case cmp (he_key a) (he_key b) of
        Equal \<Rightarrow> (case cmp (he_seqno b) (he_seqno a) of Equal \<Rightarrow> cmp (he_source a) (he_source b) | r \<Rightarrow> r)
      | r \<Rightarrow> r)"

text \<open>\<^verbatim>\<open>BinaryHeap<Reverse<HeapEntry>>\<close>: \<^verbatim>\<open>pop\<close> removes a least entry.\<close>

fun heap_pop :: "heap_entry list \<Rightarrow> (heap_entry \<times> heap_entry list) option" where
  "heap_pop [] = None"
| "heap_pop (e # es) =
     (case heap_pop es of
        None \<Rightarrow> Some (e, [])
      | Some (t, rest) \<Rightarrow> if heap_cmp t e = Less then Some (t, e # rest) else Some (e, es))"

record 'i kway_merge =
  km_streams :: "'i list"
  km_heap :: "heap_entry list"
  km_primed :: bool

definition kway_merge_new :: "'i list \<Rightarrow> 'i kway_merge" where
  "kway_merge_new streams = \<lparr>km_streams = streams, km_heap = [], km_primed = False\<rparr>"

definition input_count :: "'i kway_merge \<Rightarrow> nat" where
  "input_count m = length (km_streams m)"

type_synonym 'i source_next = "'i \<Rightarrow> 'i \<times> hit_entry result option"

definition merge_advance :: "'i source_next \<Rightarrow> nat \<Rightarrow> ('i kway_merge, bool) io" where
  "merge_advance nxt source = (\<lambda>m.
     if length (km_streams m) \<le> source then (m, Inl (Panic ''index out of bounds''))
     else let (i, item) = nxt (km_streams m ! source);
              m = m\<lparr>km_streams := (km_streams m)[source := i]\<rparr>
          in case item of
               Some (Inr (key, hit)) \<Rightarrow>
                 (m\<lparr>km_heap := \<lparr>he_key = key, he_seqno = hit_seqno hit, he_hit = hit, he_source = source\<rparr> # km_heap m\<rparr>, Inr True)
             | Some (Inl e) \<Rightarrow> (m, Inl e)
             | None \<Rightarrow> (m, Inr False))"

fun prime_loop :: "'i source_next \<Rightarrow> nat list \<Rightarrow> ('i kway_merge, unit) io" where
  "prime_loop nxt [] = io_return ()"
| "prime_loop nxt (source # rest) = io_bind (merge_advance nxt source) (\<lambda>_. prime_loop nxt rest)"

definition merge_prime :: "'i source_next \<Rightarrow> ('i kway_merge, unit) io" where
  "merge_prime nxt = (\<lambda>m.
     if km_primed m then (m, Inr ())
     else io_bind (prime_loop nxt [0..<length (km_streams m)]) (\<lambda>_ m. (m\<lparr>km_primed := True\<rparr>, Inr ())) m)"

definition merge_next_record :: "'i source_next \<Rightarrow> ('i kway_merge, hit_entry option) io" where
  "merge_next_record nxt = io_bind (merge_prime nxt) (\<lambda>_ m.
     case heap_pop (km_heap m) of
       None \<Rightarrow> (m, Inr None)
     | Some (top_entry, rest) \<Rightarrow>
         io_bind (merge_advance nxt (he_source top_entry))
           (\<lambda>_. io_return (Some (he_key top_entry, he_hit top_entry))) (m\<lparr>km_heap := rest\<rparr>))"

definition merge_next :: "'i source_next \<Rightarrow> 'i kway_merge \<Rightarrow> 'i kway_merge \<times> hit_entry result option" where
  "merge_next nxt m =
     (case merge_next_record nxt m of
        (m', Inr (Some rec)) \<Rightarrow> (m', Some (Inr rec))
      | (m', Inr None) \<Rightarrow> (m', None)
      | (m', Inl e) \<Rightarrow> (m', Some (Inl e)))"

section \<open>The heap\<close>

definition rank :: "hit_entry \<Rightarrow> key \<times> u64" where
  "rank x = (fst x, NOT (hit_seqno (snd x)))"

definition he_rank :: "heap_entry \<Rightarrow> (key \<times> u64) \<times> nat" where
  "he_rank e = ((he_key e, NOT (he_seqno e)), he_source e)"

lemma not_less_not: "NOT a < NOT b \<longleftrightarrow> b < (a :: 'a::len word)"
proof -
  have eq: "unat (NOT x) = unat (- 1 :: 'a word) - unat x" for x :: "'a word"
    unfolding not_eq_complement minus_diff_commute [of x 1] by (rule unat_sub [OF word_order.extremum [of x]])
  have le: "unat x \<le> unat (- 1 :: 'a word)" for x :: "'a word"
    using word_order.extremum [of x] by (simp only: word_le_nat_alt)
  show ?thesis unfolding word_less_nat_alt eq using le [of a] le [of b] by linarith
qed

lemma not_le_not: "NOT a \<le> NOT b \<longleftrightarrow> b \<le> (a :: 'a::len word)"
  using not_less_not [of b a] by (simp add: linorder_not_less [symmetric])

lemma heap_cmp_Less: "heap_cmp a b = Less \<longleftrightarrow> he_rank a < he_rank b"
  by (auto simp: heap_cmp_def he_rank_def not_less_not not_le_not less_le split: ordering.split)

lemma heap_pop_None [simp]: "heap_pop es = None \<longleftrightarrow> es = []"
  by (cases es) (auto split: option.split)

lemma heap_pop_Some:
  "heap_pop es = Some (t, rest) \<Longrightarrow> mset es = add_mset t (mset rest) \<and> (\<forall>e \<in> set es. he_rank t \<le> he_rank e)"
proof (induction es arbitrary: t rest)
  case (Cons e es)
  show ?case
  proof (cases "heap_pop es")
    case None
    then show ?thesis using Cons.prems by auto
  next
    case (Some p)
    then obtain t' rest' where p: "heap_pop es = Some (t', rest')" by (cases p) simp
    note IH = Cons.IH [OF p]
    show ?thesis
    proof (cases "heap_cmp t' e = Less")
      case True
      then show ?thesis using Cons.prems p IH by (auto simp: heap_cmp_Less)
    next
      case False
      then show ?thesis using Cons.prems p IH by (fastforce simp: heap_cmp_Less)
    qed
  qed
qed simp

section \<open>Merging sorted lists\<close>

lemma sort_key_least:
  assumes "\<forall>a \<in> set xs. f x < f a" "\<forall>b \<in> set ys. f x \<le> f b"
  shows "sort_key f (xs @ x # ys) = x # sort_key f (xs @ ys)"
  using assms(1)
proof (induction xs)
  case Nil
  have "insort_key f x (sort_key f ys) = x # sort_key f ys"
    using assms(2) by (cases "sort_key f ys") (auto simp flip: set_sort [of f ys])
  then show ?case by simp
next
  case (Cons a xs)
  then show ?case by (auto simp: not_le)
qed

definition head_entry :: "nat \<Rightarrow> hit_entry \<Rightarrow> heap_entry" where
  "head_entry i x = \<lparr>he_key = fst x, he_seqno = hit_seqno (snd x), he_hit = snd x, he_source = i\<rparr>"

lemma he_rank_head_entry [simp]: "he_rank (head_entry i x) = (rank x, i)"
  by (simp add: he_rank_def head_entry_def rank_def)

lemma head_entry_sel [simp]: "he_source (head_entry i x) = i" "(he_key (head_entry i x), he_hit (head_entry i x)) = x"
  by (simp_all add: head_entry_def)

definition head_at :: "nat \<Rightarrow> hit_entry list \<Rightarrow> heap_entry multiset" where
  "head_at i xs = (case xs of [] \<Rightarrow> {#} | x # _ \<Rightarrow> {#head_entry i x#})"

lemma head_at_simps [simp]: "head_at i [] = {#}" "head_at i (x # xs) = {#head_entry i x#}"
  by (simp_all add: head_at_def)

definition heads :: "hit_entry list list \<Rightarrow> heap_entry multiset" where
  "heads xss = (\<Sum>i<length xss. head_at i (xss ! i))"

lemma heads_update:
  assumes "i < length xss"
  shows "\<exists>r. heads xss = head_at i (xss ! i) + r \<and> (\<forall>ys. heads (xss[i := ys]) = head_at i ys + r)"
proof (intro exI conjI allI)
  let ?r = "\<Sum>j \<in> {..<length xss} - {i}. head_at j (xss ! j)"
  show "heads xss = head_at i (xss ! i) + ?r"
    unfolding heads_def using assms by (subst sum.remove [of _ i]) simp_all
  fix ys
  have "(\<Sum>j \<in> {..<length xss} - {i}. head_at j (xss[i := ys] ! j)) = ?r" by (rule sum.cong) auto
  then show "heads (xss[i := ys]) = head_at i ys + ?r"
    unfolding heads_def using assms by (subst sum.remove [of _ i]) simp_all
qed

lemma in_heads: "e \<in># heads xss \<Longrightarrow> \<exists>i x xs. i < length xss \<and> xss ! i = x # xs \<and> e = head_entry i x"
proof -
  assume "e \<in># heads xss"
  then obtain i where i: "i < length xss" "e \<in># head_at i (xss ! i)" by (auto simp: heads_def set_mset_sum)
  then show ?thesis by (cases "xss ! i") (auto simp del: split_paired_Ex)
qed

lemma heads_member: "i < length xss \<Longrightarrow> xss ! i = x # xs \<Longrightarrow> head_entry i x \<in># heads xss"
  using heads_update [of i xss] by auto

lemma heads_empty: "heads xss = {#} \<Longrightarrow> concat xss = []"
proof -
  assume a: "heads xss = {#}"
  have "xs = []" if xs: "xs \<in> set xss" for xs
  proof -
    obtain i where i: "i < length xss" "xss ! i = xs" using xs by (auto simp: in_set_conv_nth)
    then show ?thesis using heads_member [OF i(1)] a by (cases xs) auto
  qed
  then show ?thesis by simp
qed

lemma concat_heads: "concat xss = [] \<Longrightarrow> heads xss = {#}"
proof (rule ccontr)
  assume a: "concat xss = []" "heads xss \<noteq> {#}"
  then obtain e where "e \<in># heads xss" by blast
  from in_heads [OF this] obtain i x xs where "i < length xss" "xss ! i = x # xs" by blast
  then have "x # xs \<in> set xss" using nth_mem [of i xss] by simp
  then show False using a(1) by auto
qed

abbreviation rank_sorted :: "hit_entry list \<Rightarrow> bool" where
  "rank_sorted xs \<equiv> sorted (map rank xs)"

lemma merge_step:
  assumes "i < length xss" "xss ! i = x # xs" "\<forall>e \<in># heads xss. he_rank (head_entry i x) \<le> he_rank e"
    and sorted: "\<forall>ys \<in> set xss. rank_sorted ys"
  shows "sort_key rank (concat xss) = x # sort_key rank (concat (xss[i := xs]))"
proof -
  have split: "xss = take i xss @ (x # xs) # drop (Suc i) xss" using assms(1,2) id_take_nth_drop by metis
  have le: "(rank x, i) \<le> (rank y, j)" if y: "j < length xss" "y \<in> set (xss ! j)" for j y
  proof -
    obtain z zs where z: "xss ! j = z # zs" using y(2) by (cases "xss ! j") auto
    have "rank z \<le> rank y" using sorted nth_mem [OF y(1)] y(2) z by auto
    moreover have "(rank x, i) \<le> (rank z, j)" using assms(3) heads_member [OF y(1) z] by auto
    ultimately show ?thesis by auto
  qed
  have lt: "rank x < rank a" if a: "a \<in> set (concat (take i xss))" for a
  proof -
    obtain ys where ys: "ys \<in> set (take i xss)" "a \<in> set ys" using a by auto
    then obtain j where "j < i" "j < length xss" "xss ! j = ys" by (auto simp: in_set_conv_nth)
    then show ?thesis using le [of j a] ys(2) by auto
  qed
  have ge: "rank x \<le> rank b" if "b \<in> set (xs @ concat (drop (Suc i) xss))" for b
  proof -
    have "b \<in> set (concat xss)" using that by (subst split) auto
    then obtain ys where "ys \<in> set xss" "b \<in> set ys" by auto
    then obtain j where "j < length xss" "b \<in> set (xss ! j)" using in_set_conv_nth [of ys xss] by blast
    then show ?thesis using le [of j b] by auto
  qed
  have "concat xss = concat (take i xss) @ x # xs @ concat (drop (Suc i) xss)" by (subst split) simp
  moreover have "concat (xss[i := xs]) = concat (take i xss) @ xs @ concat (drop (Suc i) xss)"
    using assms(1) by (simp add: upd_conv_take_nth_drop)
  ultimately show ?thesis using sort_key_least [of "concat (take i xss)" rank x "xs @ concat (drop (Suc i) xss)"] lt ge by simp
qed

context record_source
begin

definition merging :: "'i kway_merge \<Rightarrow> hit_entry list list \<Rightarrow> bool" where
  "merging m xss \<longleftrightarrow> km_primed m \<and> length (km_streams m) = length xss \<and> mset (km_heap m) = heads xss \<and>
     (\<forall>i < length xss. owes (km_streams m ! i) (tl (xss ! i)))"

lemma advance_ok:
  assumes "i < length (km_streams m)" "owes (km_streams m ! i) ys"
  obtains i' where "merge_advance nxt i m =
      (m\<lparr>km_streams := (km_streams m)[i := i'], km_heap := (if ys = [] then [] else [head_entry i (hd ys)]) @ km_heap m\<rparr>, Inr (ys \<noteq> []))"
    "owes i' (tl ys)"
proof (cases ys)
  case Nil
  then obtain i' where "nxt (km_streams m ! i) = (i', None)" "owes i' []" using nxt_Nil assms(2) by blast
  then show thesis using assms(1) Nil by (intro that [of i']) (simp_all add: merge_advance_def Let_def)
next
  case (Cons y zs)
  then obtain i' where "nxt (km_streams m ! i) = (i', Some (Inr y))" "owes i' zs" using nxt_Cons assms(2) by blast
  then show thesis using assms(1) Cons by (intro that [of i']) (cases y, simp_all add: merge_advance_def Let_def head_entry_def)
qed

lemma prime_loop_ok:
  assumes "k \<le> length xss" "length (km_streams m) = length xss" "\<forall>i. k \<le> i \<and> i < length xss \<longrightarrow> owes (km_streams m ! i) (xss ! i)"
    and "\<forall>i < k. owes (km_streams m ! i) (tl (xss ! i))" "mset (km_heap m) = (\<Sum>i<k. head_at i (xss ! i))"
  shows "\<exists>m'. prime_loop nxt [k..<length xss] m = (m', Inr ()) \<and> merging (m'\<lparr>km_primed := True\<rparr>) xss"
  using assms
proof (induction "length xss - k" arbitrary: k m)
  case 0
  then show ?case by (simp add: merging_def heads_def)
next
  case (Suc n)
  then have k: "k < length xss" by linarith
  then have "k < length (km_streams m)" "owes (km_streams m ! k) (xss ! k)" using Suc.prems by simp_all
  from advance_ok [OF this] obtain i' where adv: "merge_advance nxt k m = (m\<lparr>km_streams := (km_streams m)[k := i'],
      km_heap := (if xss ! k = [] then [] else [head_entry k (hd (xss ! k))]) @ km_heap m\<rparr>, Inr (xss ! k \<noteq> []))"
    "owes i' (tl (xss ! k))" .
  define m1 where "m1 = m\<lparr>km_streams := (km_streams m)[k := i'],
      km_heap := (if xss ! k = [] then [] else [head_entry k (hd (xss ! k))]) @ km_heap m\<rparr>"
  have "mset (km_heap m1) = (\<Sum>i<Suc k. head_at i (xss ! i))" using Suc.prems(5) by (cases "xss ! k") (simp_all add: m1_def)
  moreover have "\<forall>i < Suc k. owes (km_streams m1 ! i) (tl (xss ! i))"
    using Suc.prems(2,4) k adv(2) by (auto simp: m1_def nth_list_update less_Suc_eq)
  moreover have "\<forall>i. Suc k \<le> i \<and> i < length xss \<longrightarrow> owes (km_streams m1 ! i) (xss ! i)" using Suc.prems(3) by (simp add: m1_def)
  moreover have "length (km_streams m1) = length xss" "n = length xss - Suc k" "Suc k \<le> length xss"
    using Suc.prems(2) Suc.hyps(2) k by (simp_all add: m1_def)
  ultimately have "\<exists>m'. prime_loop nxt [Suc k..<length xss] m1 = (m', Inr ()) \<and> merging (m'\<lparr>km_primed := True\<rparr>) xss"
    using Suc.hyps(1) [of "Suc k" m1] by blast
  then show ?case using adv(1) by (simp add: upt_conv_Cons [OF k] flip: m1_def)
qed

definition merge_owes :: "'i kway_merge \<Rightarrow> hit_entry list \<Rightarrow> bool" where
  "merge_owes m ys \<longleftrightarrow> (\<exists>xss. (\<forall>xs \<in> set xss. rank_sorted xs) \<and> ys = sort_key rank (concat xss) \<and>
     (merging m xss \<or> \<not> km_primed m \<and> km_heap m = [] \<and> list_all2 owes (km_streams m) xss))"

lemma merge_owes_new:
  "list_all2 owes streams xss \<Longrightarrow> \<forall>xs \<in> set xss. rank_sorted xs \<Longrightarrow>
     merge_owes (kway_merge_new streams) (sort_key rank (concat xss))"
  unfolding merge_owes_def by (intro exI [of _ xss]) (simp add: kway_merge_new_def)

lemma merge_prime_ok:
  assumes "merge_owes m ys"
  obtains m' xss where "merge_prime nxt m = (m', Inr ())" "merging m' xss" "\<forall>xs \<in> set xss. rank_sorted xs" "ys = sort_key rank (concat xss)"
proof -
  obtain xss where xss: "\<forall>xs \<in> set xss. rank_sorted xs" "ys = sort_key rank (concat xss)"
    "merging m xss \<or> \<not> km_primed m \<and> km_heap m = [] \<and> list_all2 owes (km_streams m) xss"
    using assms unfolding merge_owes_def by blast
  show thesis
  proof (cases "merging m xss")
    case True
    then have "merge_prime nxt m = (m, Inr ())" by (simp add: merge_prime_def merging_def)
    then show thesis using that True xss(1,2) by blast
  next
    case False
    then have m: "\<not> km_primed m" "km_heap m = []" "list_all2 owes (km_streams m) xss" using xss(3) by auto
    have len: "length (km_streams m) = length xss" by (rule list_all2_lengthD [OF m(3)])
    have "\<exists>m'. prime_loop nxt [0..<length xss] m = (m', Inr ()) \<and> merging (m'\<lparr>km_primed := True\<rparr>) xss"
      using prime_loop_ok [of 0 xss m] len m(2) list_all2_nthD2 [OF m(3)] by simp
    then obtain m' where "prime_loop nxt [0..<length xss] m = (m', Inr ())" "merging (m'\<lparr>km_primed := True\<rparr>) xss" by blast
    then show thesis using that [of "m'\<lparr>km_primed := True\<rparr>" xss] xss(1,2) m(1) len by (simp add: merge_prime_def)
  qed
qed

lemma merge_next_Nil:
  assumes "merge_owes m []" shows "\<exists>m'. merge_next nxt m = (m', None) \<and> merge_owes m' []"
proof -
  obtain m' xss where p: "merge_prime nxt m = (m', Inr ())" "merging m' xss" "\<forall>xs \<in> set xss. rank_sorted xs" "[] = sort_key rank (concat xss)"
    using merge_prime_ok [OF assms] .
  have "set (concat xss) = {}" using arg_cong [OF p(4), of set] by simp
  then have "heads xss = {#}" by (intro concat_heads) simp
  then have "km_heap m' = []" using p(2) by (simp add: merging_def)
  then have "merge_next nxt m = (m', None)" using p(1) by (simp add: merge_next_def merge_next_record_def)
  moreover have "merge_owes m' []" unfolding merge_owes_def using p(2-4) by blast
  ultimately show ?thesis by blast
qed

lemma merge_next_Cons:
  assumes "merge_owes m (y # ys)" shows "\<exists>m'. merge_next nxt m = (m', Some (Inr y)) \<and> merge_owes m' ys"
proof -
  obtain m1 xss where p: "merge_prime nxt m = (m1, Inr ())" "merging m1 xss" "\<forall>xs \<in> set xss. rank_sorted xs" "y # ys = sort_key rank (concat xss)"
    using merge_prime_ok [OF assms] .
  note M = p(2) [unfolded merging_def]
  have "concat xss \<noteq> []" using p(4) by (metis list.distinct(1) sort_key_simps(1))
  then have "heads xss \<noteq> {#}" using heads_empty [of xss] by blast
  then have "km_heap m1 \<noteq> []" using M by auto
  then obtain t rest where t: "heap_pop (km_heap m1) = Some (t, rest)" by (metis heap_pop_None option.exhaust surj_pair)
  note pop = heap_pop_Some [OF t]
  have heap: "add_mset t (mset rest) = heads xss" using pop M by simp
  then have "t \<in># heads xss" by (metis union_single_eq_member)
  from in_heads [OF this] obtain i x xs where i: "i < length xss" "xss ! i = x # xs" "t = head_entry i x" by blast
  have "\<forall>e \<in># heads xss. he_rank (head_entry i x) \<le> he_rank e" using pop M i(3) by (metis set_mset_mset)
  from merge_step [OF i(1,2) this p(3)] have yx: "y = x" "ys = sort_key rank (concat (xss[i := xs]))" using p(4) by auto
  obtain r where r: "heads xss = head_at i (xss ! i) + r" "heads (xss[i := xs]) = head_at i xs + r" using heads_update [OF i(1)] by blast
  have rest: "mset rest = r" using heap r(1) i(2,3) by simp
  define m2 where "m2 = m1\<lparr>km_heap := rest\<rparr>"
  have "i < length (km_streams m2)" "owes (km_streams m2 ! i) xs" using M i(1,2) by (auto simp: m2_def)
  from advance_ok [OF this] obtain i' where adv: "merge_advance nxt i m2 = (m2\<lparr>km_streams := (km_streams m2)[i := i'],
      km_heap := (if xs = [] then [] else [head_entry i (hd xs)]) @ km_heap m2\<rparr>, Inr (xs \<noteq> []))" "owes i' (tl xs)" .
  define m3 where "m3 = m2\<lparr>km_streams := (km_streams m2)[i := i'], km_heap := (if xs = [] then [] else [head_entry i (hd xs)]) @ km_heap m2\<rparr>"
  have "merge_next_record nxt m = (m3, Inr (Some x))"
    using p(1) t adv(1) i(3) by (simp add: merge_next_record_def flip: m2_def m3_def)
  then have "merge_next nxt m = (m3, Some (Inr y))" using yx(1) by (simp add: merge_next_def)
  moreover have "merging m3 (xss[i := xs])"
  proof -
    have "mset (km_heap m3) = heads (xss[i := xs])" unfolding r(2) using rest by (cases xs) (simp_all add: m3_def m2_def)
    moreover have "owes (km_streams m3 ! j) (tl (xss[i := xs] ! j))" if "j < length xss" for j
      using M adv(2) i(1) that by (cases "j = i") (simp_all add: m3_def m2_def)
    ultimately show ?thesis using M by (simp add: merging_def m3_def m2_def)
  qed
  moreover have "\<forall>zs \<in> set (xss[i := xs]). rank_sorted zs"
    using p(3) i(1,2) nth_mem [OF i(1)] by (auto dest!: set_update_subset_insert [THEN subsetD])
  ultimately show ?thesis unfolding merge_owes_def using yx(2) by blast
qed

text \<open>The merger is a record source over its sources.\<close>

lemma merged_source: "record_source (merge_next nxt) merge_owes"
  by unfold_locales (fact merge_next_Cons, fact merge_next_Nil)

lemma merged_take:
  assumes "list_all2 owes streams xss" "\<forall>xs \<in> set xss. rank_sorted xs"
  obtains m m' where
    "take_records (merge_next nxt) (length (concat xss)) (kway_merge_new streams) = (m, sort_key rank (concat xss))"
    "merge_next nxt m = (m', None)"
proof -
  obtain m where m: "take_records (merge_next nxt) (length (sort_key rank (concat xss))) (kway_merge_new streams) = (m, sort_key rank (concat xss))"
    "merge_owes m []" using record_source.take_records_owed [OF merged_source merge_owes_new [OF assms]] by blast
  obtain m' where "merge_next nxt m = (m', None)" using merge_next_Nil [OF m(2)] by blast
  then show thesis using that [of m m'] m(1) by simp
qed

end

section \<open>Properties\<close>

lemma merge_owes_mono:
  assumes "record_source.merge_owes owes m ys" "record_source nxt owes" "record_source nxt' owes'"
    and "\<forall>st \<in> set (km_streams m). \<forall>xs. owes st xs \<longrightarrow> owes' st xs"
  shows "record_source.merge_owes owes' m ys"
proof -
  obtain xss where xss: "\<forall>xs \<in> set xss. rank_sorted xs" "ys = sort_key rank (concat xss)"
    "record_source.merging owes m xss \<or> \<not> km_primed m \<and> km_heap m = [] \<and> list_all2 owes (km_streams m) xss"
    using assms(1) unfolding record_source.merge_owes_def [OF assms(2)] by blast
  have "record_source.merging owes' m xss" if "record_source.merging owes m xss"
    using that assms(4) unfolding record_source.merging_def [OF assms(2)] record_source.merging_def [OF assms(3)] by simp
  moreover have "list_all2 owes' (km_streams m) xss" if "list_all2 owes (km_streams m) xss"
    using that assms(4) by (auto simp: list_all2_conv_all_nth)
  ultimately show ?thesis unfolding record_source.merge_owes_def [OF assms(3)] using xss by blast
qed

text \<open>What every source keeps is kept by the merger's sources.\<close>

lemma merge_advance_streams:
  assumes "\<forall>st \<in> set (km_streams m). P st" "\<forall>st. P st \<longrightarrow> P (fst (nxt st))"
  shows "\<forall>st \<in> set (km_streams (fst (merge_advance nxt i m))). P st"
proof (cases "length (km_streams m) \<le> i")
  case False
  then have "P (fst (nxt (km_streams m ! i)))" using assms by simp
  moreover have "km_streams (fst (merge_advance nxt i m)) = (km_streams m)[i := fst (nxt (km_streams m ! i))]"
    using False by (simp add: merge_advance_def Let_def case_prod_unfold split: option.split sum.split)
  ultimately show ?thesis using assms(1) by (auto dest!: set_update_subset_insert [THEN subsetD])
qed (use assms(1) in \<open>simp add: merge_advance_def\<close>)

lemma prime_loop_streams:
  assumes "\<forall>st. P st \<longrightarrow> P (fst (nxt st))" "\<forall>st \<in> set (km_streams m). P st"
  shows "\<forall>st \<in> set (km_streams (fst (prime_loop nxt is m))). P st"
  using assms(2)
proof (induction "is" arbitrary: m)
  case (Cons i "is")
  obtain m' r where m': "merge_advance nxt i m = (m', r)" by (cases "merge_advance nxt i m")
  have "\<forall>st \<in> set (km_streams m'). P st" using merge_advance_streams [OF Cons.prems assms(1), where i = i] m' by simp
  then show ?case using Cons.IH m' by (cases r) simp_all
qed simp

lemma merge_next_streams:
  assumes "\<forall>st. P st \<longrightarrow> P (fst (nxt st))" "\<forall>st \<in> set (km_streams m). P st" "merge_next_record nxt m = (m', r)"
  shows "\<forall>st \<in> set (km_streams m'). P st"
proof -
  obtain m1 r1 where p: "merge_prime nxt m = (m1, r1)" by (cases "merge_prime nxt m")
  obtain m0 r0 where pl: "prime_loop nxt [0..<length (km_streams m)] m = (m0, r0)" by (cases "prime_loop nxt [0..<length (km_streams m)] m")
  have "\<forall>st \<in> set (km_streams m0). P st" using prime_loop_streams [OF assms(1,2)] pl by (metis fst_conv)
  then have m1: "\<forall>st \<in> set (km_streams m1). P st" using p pl assms(2) by (cases r0) (auto simp: merge_prime_def split: if_splits)
  show ?thesis
  proof (cases r1)
    case (Inl e)
    then show ?thesis using assms(3) p m1 by (simp add: merge_next_record_def)
  next
    case (Inr u)
    show ?thesis
    proof (cases "heap_pop (km_heap m1)")
      case None
      then show ?thesis using assms(3) p Inr m1 by (simp add: merge_next_record_def)
    next
      case (Some t)
      obtain e rest where t: "t = (e, rest)" by (cases t)
      obtain m2 r2 where a: "merge_advance nxt (he_source e) (m1\<lparr>km_heap := rest\<rparr>) = (m2, r2)"
        by (cases "merge_advance nxt (he_source e) (m1\<lparr>km_heap := rest\<rparr>)")
      have "\<forall>st \<in> set (km_streams m2). P st"
        using merge_advance_streams [of "m1\<lparr>km_heap := rest\<rparr>" P nxt "he_source e"] m1 assms(1) a by simp
      then show ?thesis using assms(3) p Inr Some t a by (cases r2) (auto simp: merge_next_record_def)
    qed
  qed
qed

text \<open>
  C29. The merge is a stable sort.  When every stream still owes a list of records in ascending
  key and descending sequence-number order, the merger hands out all records of all streams in
  this order, each exactly once, and then ends; among records with the same key and sequence
  number the stream that was passed first comes first.
\<close>

theorem merge_is_stable_sort:
  assumes "list_all2 (stream_pending E V s) streams xss" "\<forall>xs \<in> set xss. rank_sorted xs"
  shows "\<exists>m m'. take_records (merge_next (stream_next E V s)) (length (concat xss)) (kway_merge_new streams) =
      (m, sort_key rank (concat xss)) \<and> merge_next (stream_next E V s) m = (m', None)"
  using sst_source.merged_take [OF assms] by metis

definition loaded_stream :: "hit_entry list \<Rightarrow> nat sst_stream" where
  "loaded_stream xs = \<lparr>ss_reader = undefined, ss_handles = [], ss_next_block = 0, ss_current = xs\<rparr>"

theorem merge_is_stable_sort_witness:
  "\<exists>m m'. take_records (merge_next (stream_next undefined MemVfs undefined)) 3
      (kway_merge_new [loaded_stream [([1], \<lparr>hit_seqno = 4, hit_op = RPut, hit_value = [9]\<rparr>)],
         loaded_stream [([1], \<lparr>hit_seqno = 7, hit_op = RTombstone, hit_value = []\<rparr>), ([2], \<lparr>hit_seqno = 1, hit_op = RPut, hit_value = []\<rparr>)]]) =
      (m, [([1], \<lparr>hit_seqno = 7, hit_op = RTombstone, hit_value = []\<rparr>), ([1], \<lparr>hit_seqno = 4, hit_op = RPut, hit_value = [9]\<rparr>),
           ([2], \<lparr>hit_seqno = 1, hit_op = RPut, hit_value = []\<rparr>)]) \<and>
    merge_next (stream_next undefined MemVfs undefined) m = (m', None)"
proof -
  let ?a = "[([1], \<lparr>hit_seqno = 4, hit_op = RPut, hit_value = [9]\<rparr>)] :: hit_entry list"
  let ?b = "[([1], \<lparr>hit_seqno = 7, hit_op = RTombstone, hit_value = []\<rparr>), ([2], \<lparr>hit_seqno = 1, hit_op = RPut, hit_value = []\<rparr>)] :: hit_entry list"
  have "stream_pending undefined MemVfs undefined (loaded_stream xs) xs" for xs
    unfolding stream_pending_def by (intro exI [of _ "[]"]) (simp add: loaded_stream_def)
  then have "list_all2 (stream_pending undefined MemVfs undefined) [loaded_stream ?a, loaded_stream ?b] [?a, ?b]" by simp
  moreover have "\<forall>xs \<in> set [?a, ?b]. rank_sorted xs" by (simp add: rank_def)
  moreover have "sort_key rank (concat [?a, ?b]) = [?b ! 0, ?a ! 0, ?b ! 1]" by (simp add: rank_def)
  ultimately show ?thesis using merge_is_stable_sort [of undefined MemVfs undefined _ "[?a, ?b]"] by (simp add: numeral_3_eq_3)
qed

end
