(* ===== verification/Compact.thy ===== *)
theory Compact
  imports Merger
begin

text \<open>
  Compaction, \<^verbatim>\<open>crates/paddock-core/src/compaction/compact.rs\<close>: all records of the input tables,
  merged, become one new table.  The loop over the merger is a partial function whose value is
  \<open>None\<close> when it does not end; on finished input tables it is shown to end with a table that
  holds the stable sort of all input records.
\<close>

section \<open>The compaction\<close>

record compaction_config =
  cc_bloom :: bloom_params
  cc_bloom_capacity_floor :: nat
  cc_checksum :: algorithm
  cc_encryption :: "(aead_key \<times> u64) option"

definition compaction_config_default :: compaction_config where
  "compaction_config_default = \<lparr>cc_bloom = bloom_params_default, cc_bloom_capacity_floor = 1024,
     cc_checksum = Crc32c, cc_encryption = None\<rparr>"

record 'h compaction_output =
  co_reader :: "'h sst_reader"
  co_records_emitted :: u64

definition saturating_add_usize :: "nat \<Rightarrow> nat \<Rightarrow> nat" where
  "saturating_add_usize a b = min (a + b) (2 ^ 64 - 1)"

definition estimate_total_entries :: "'h sst_reader list \<Rightarrow> nat" where
  "estimate_total_entries inputs =
     max (fold (\<lambda>r acc. saturating_add_usize acc (unat (bh_length (ft_index_handle (rd_footer r))))) inputs 0) 1024"

fun open_streams :: "externs \<Rightarrow> 'h sst_reader list \<Rightarrow> 'h sst_stream list result" where
  "open_streams E [] = Inr []"
| "open_streams E (sst # ssts) =
     and_then (scan_stream E sst) (\<lambda>st. and_then (open_streams E ssts) (\<lambda>sts. Inr (st # sts)))"

definition create_output ::
  "externs \<Rightarrow> ('s, 'h) vfs \<Rightarrow> compaction_config \<Rightarrow> nat \<Rightarrow> 'h \<Rightarrow> ('s, 'h sst_writer) io" where
  "create_output E V config bloom_capacity file =
     (case cc_encryption config of
        Some (key, sst_id) \<Rightarrow> create_encrypted E V file (cc_checksum config) bloom_capacity (cc_bloom config) key sst_id
      | None \<Rightarrow> create_with_filter_capacity E V file (cc_checksum config) bloom_capacity (cc_bloom config))"

definition reopen_output :: "externs \<Rightarrow> ('s, 'h) vfs \<Rightarrow> compaction_config \<Rightarrow> 's \<Rightarrow> 'h \<Rightarrow> 'h sst_reader result" where
  "reopen_output E V config s file =
     (case cc_encryption config of
        Some (key, sst_id) \<Rightarrow> sst_open_encrypted E V s file key sst_id
      | None \<Rightarrow> sst_open E V s file)"

partial_function (option) compact_loop ::
  "externs \<Rightarrow> ('s, 'h) vfs \<Rightarrow> 'h sst_stream kway_merge \<Rightarrow> 'h sst_writer \<times> 's \<Rightarrow> u64 \<Rightarrow>
     (('h sst_writer \<times> 's) \<times> u64 result) option" where
  "compact_loop E V merger ws emitted =
     (case merge_next_record (stream_next E V (snd ws)) merger of
        (merger', Inl e) \<Rightarrow> Some (ws, Inl e)
      | (merger', Inr None) \<Rightarrow> Some (ws, Inr emitted)
      | (merger', Inr (Some (key, hit))) \<Rightarrow>
          (case sst_add E V key (hit_value hit) (hit_seqno hit) (hit_op hit) ws of
             (ws', Inl e) \<Rightarrow> Some (ws', Inl e)
           | (ws', Inr _) \<Rightarrow> compact_loop E V merger' ws' (emitted + 1)))"

declare compact_loop.simps [code]

definition compact_sstables ::
  "externs \<Rightarrow> ('s, 'h) vfs \<Rightarrow> 'h sst_reader list \<Rightarrow> string \<Rightarrow> compaction_config \<Rightarrow> 's \<Rightarrow>
     ('s \<times> 'h compaction_output result) option" where
  "compact_sstables E V inputs output_path config s =
     (case open_streams E inputs of
        Inl e \<Rightarrow> Some (s, Inl e)
      | Inr streams \<Rightarrow>
          let bloom_capacity = max (cc_bloom_capacity_floor config) (estimate_total_entries inputs)
          in case io_bind (v_open_writable V output_path) (create_output E V config bloom_capacity) s of
               (s, Inl e) \<Rightarrow> Some (s, Inl e)
             | (s, Inr writer) \<Rightarrow>
                 (case compact_loop E V (kway_merge_new streams) (writer, s) 0 of
                    None \<Rightarrow> None
                  | Some ((writer, s), Inl e) \<Rightarrow> Some (s, Inl e)
                  | Some ((writer, s), Inr emitted) \<Rightarrow>
                      (case sst_finish E V (writer, s) of
                         ((writer, s), Inl e) \<Rightarrow> Some (s, Inl e)
                       | ((writer, s), Inr file) \<Rightarrow>
                           Some (io_bind (v_open_readonly V output_path) (\<lambda>file s.
                             (s, and_then (reopen_output E V config s file) (\<lambda>reader.
                                 Inr \<lparr>co_reader = reader, co_records_emitted = emitted\<rparr>))) s))))"

section \<open>Streams while the store changes\<close>

definition record_of :: "hit_entry \<Rightarrow> block_record" where
  "record_of x = \<lparr>rec_key = fst x, rec_value = hit_value (snd x), rec_seqno = hit_seqno (snd x), rec_op = hit_op (snd x)\<rparr>"

lemma record_of_entry_of [simp]: "record_of (entry_of r) = r"
  by (simp add: record_of_def entry_of_def into_hit_def)

lemma entry_of_record_of [simp]: "entry_of (record_of x) = x"
  by (cases x) (simp add: record_of_def entry_of_def into_hit_def)

lemma reader_of_inj:
  assumes "list_all rec_fits xs" "list_all rec_fits ys" "reader_of xs = reader_of ys" shows "xs = ys"
  using block_iterates [OF assms(1)] unfolding assms(3) block_iterates [OF assms(2)] by (rule sym)

lemma entry_serves_unique:
  assumes "entry_serves E V s r e rs" "entry_serves E V s r e' rs'" "snd e = snd e'" shows "rs = rs'"
proof -
  have f: "table_fits rs" "table_fits rs'" "block_bytes E rs = block_bytes E rs'" using assms by (simp_all add: entry_serves_def)
  then have "reader_of rs = reader_of rs'" using block_opens [of rs E] block_opens [of rs' E] by simp
  then show ?thesis using reader_of_inj f(1,2) by (simp add: table_fits_def)
qed

lemma entries_serve_unique:
  assumes "list_all2 (entry_serves E V s r) es bss" "list_all2 (entry_serves E V s r) es' bss'" "map snd es = map snd es'"
  shows "bss = bss'"
  using assms
proof (induction es bss arbitrary: es' bss' rule: list_all2_induct)
  case (Cons e es rs bss)
  obtain e' es2 where es': "es' = e' # es2" "snd e = snd e'" "map snd es = map snd es2" using Cons.prems(2) by (cases es') auto
  obtain rs' bss2 where bss': "bss' = rs' # bss2" "entry_serves E V s r e' rs'" "list_all2 (entry_serves E V s r) es2 bss2"
    using Cons.prems(1) unfolding es'(1) list_all2_Cons1 by blast
  show ?case using Cons.IH [OF bss'(3) es'(3)] entry_serves_unique [OF Cons.hyps(1) bss'(2) es'(2)] bss'(1) by simp
qed simp

lemma index_record_inj: "inj index_record"
proof (rule injI)
  fix a b assume "index_record a = index_record b"
  then have "fst a = fst b" "block_handle_bytes (snd a) = block_handle_bytes (snd b)" by (simp_all add: index_record_def case_prod_unfold)
  then show "a = b" using block_handle_round_trip by (metis option.inject prod.expand)
qed

lemma refill_fields:
  "refill E V s st = (st', r) \<Longrightarrow> ss_reader st' = ss_reader st \<and> ss_handles st' = ss_handles st"
proof (induction E V s st rule: refill.induct)
  case (1 E V s st)
  let ?h = "ss_handles st ! ss_next_block st" and ?st = "st\<lparr>ss_next_block := ss_next_block st + 1\<rparr>"
  note step = refill.simps [of E V s st, unfolded Let_def]
  consider "\<not> ss_next_block st < length (ss_handles st)"
    | (err) e where "ss_next_block st < length (ss_handles st)" "read_records E V s (ss_reader st) ?h = Inl e"
    | (empty) "ss_next_block st < length (ss_handles st)" "read_records E V s (ss_reader st) ?h = Inr []"
    | (full) x xs where "ss_next_block st < length (ss_handles st)" "read_records E V s (ss_reader st) ?h = Inr (x # xs)"
    by (metis list.exhaust sum.exhaust)
  then show ?case
  proof cases
    case empty
    then have "refill E V s ?st = (st', r)" using "1.prems" unfolding step by simp
    then show ?thesis using "1.IH" [OF empty(1) refl refl empty(2) refl] by simp
  qed (use "1.prems" in \<open>auto simp: step\<close>)
qed

lemma stream_next_record_fields:
  "stream_next_record E V s st = (st', r) \<Longrightarrow> ss_reader st' = ss_reader st \<and> ss_handles st' = ss_handles st"
proof (induction E V s st rule: stream_next_record.induct)
  case (1 E V s st)
  obtain st1 r1 where ref: "refill E V s st = (st1, r1)" by (cases "refill E V s st")
  note f = refill_fields [OF ref]
  show ?case
  proof (cases "ss_current st")
    case Nil
    then show ?thesis using "1.prems" "1.IH" [OF Nil ref [symmetric]] ref f
      by (subst (asm) stream_next_record.simps) (auto split: sum.splits if_splits)
  next
    case (Cons x xs)
    then show ?thesis using "1.prems" by (auto simp: stream_next_record.simps)
  qed
qed

lemma stream_next_fields: "ss_reader (fst (stream_next E V s st)) = ss_reader st \<and> ss_handles (fst (stream_next E V s st)) = ss_handles st"
proof -
  obtain st' r where n: "stream_next_record E V s st = (st', r)" by (cases "stream_next_record E V s st")
  have "fst (stream_next E V s st) = st'" unfolding stream_next_def n by (simp split: sum.split option.split)
  then show ?thesis using stream_next_record_fields [OF n] by simp
qed

context file_store
begin

text \<open>A stream over a table of the store, at any position.\<close>

definition stream_on :: "externs \<Rightarrow> 's \<Rightarrow> 'h sst_stream \<Rightarrow> bool" where
  "stream_on E s st \<longleftrightarrow> (\<exists>bss st0. backs E s (ss_reader st) bss \<and> scan_stream E (ss_reader st) = Inr st0 \<and> ss_handles st = ss_handles st0)"

lemma stream_on_next: "stream_on E s st \<Longrightarrow> stream_on E s (fst (stream_next E V s' st))"
  unfolding stream_on_def using stream_next_fields [of E V s' st] by simp

lemma stream_on_frame:
  assumes "stream_on E s st" "live s' (fid (rd_file (ss_reader st)))"
    "contents s' (fid (rd_file (ss_reader st))) = contents s (fid (rd_file (ss_reader st)))"
  shows "stream_on E s' st"
  using assms backs_frame unfolding stream_on_def by metis

lemma backed_index:
  assumes "backs E s r bss" "scan_stream E r = Inr st0"
  obtains es where "block_open E (rd_index_bytes r) = Inr (reader_of (map index_record es))" "list_all rec_fits (map index_record es)"
    "list_all2 (entry_serves E V s r) es bss" "ss_handles st0 = map snd es"
proof -
  obtain es where es: "block_open E (rd_index_bytes r) = Inr (reader_of (map index_record es))" "list_all rec_fits (map index_record es)"
    "list_all2 (entry_serves E V s r) es bss" using backs_serves [OF assms(1)] unfolding serves_def by blast
  have "ss_handles st0 = map snd es" using assms(2) es(1) block_iterates [OF es(2)] decode_handles_ok [of es]
    by (auto simp: scan_stream_def decode_index_handles_def)
  from that [OF es this] show thesis .
qed

lemma stream_pending_frame:
  assumes "stream_pending E V s st xs" "stream_on E s st" "live s' (fid (rd_file (ss_reader st)))"
    and same: "contents s' (fid (rd_file (ss_reader st))) = contents s (fid (rd_file (ss_reader st)))"
  shows "stream_pending E V s' st xs"
proof -
  let ?n = "ss_next_block st" and ?r = "ss_reader st"
  obtain bss st0 where on: "backs E s ?r bss" "scan_stream E ?r = Inr st0" "ss_handles st = ss_handles st0"
    using assms(2) unfolding stream_on_def by blast
  have "backs E s' ?r bss" by (rule backs_frame [OF on(1) assms(3) same])
  from backed_index [OF this on(2)] obtain es' where es': "block_open E (rd_index_bytes ?r) = Inr (reader_of (map index_record es'))"
    "list_all rec_fits (map index_record es')" "list_all2 (entry_serves E V s' ?r) es' bss" "ss_handles st0 = map snd es'" .
  from backed_index [OF on(1,2)] obtain es where es: "block_open E (rd_index_bytes ?r) = Inr (reader_of (map index_record es))"
    "list_all rec_fits (map index_record es)" "list_all2 (entry_serves E V s ?r) es bss" .
  have "map index_record es = map index_record es'" using reader_of_inj [OF es(2) es'(2)] es(1) es'(1) by simp
  then have eq: "es = es'" using index_record_inj by (simp add: inj_map_eq_map)
  obtain es1 bss1 where p: "list_all2 (entry_serves E V s ?r) es1 bss1" "drop ?n (ss_handles st) = map snd es1"
    "xs = ss_current st @ map entry_of (concat bss1)" using assms(1) unfolding stream_pending_def by blast
  have snds: "map snd es1 = map snd (drop ?n es')" using p(2) on(3) es'(4) by (simp add: drop_map)
  have "list_all2 (entry_serves E V s ?r) (drop ?n es') (drop ?n bss)" using es(3) unfolding eq by (rule list_all2_dropI)
  from entries_serve_unique [OF p(1) this snds] have "bss1 = drop ?n bss" .
  moreover have "list_all2 (entry_serves E V s' ?r) (drop ?n es') (drop ?n bss)" using es'(3) by (rule list_all2_dropI)
  moreover have "drop ?n (ss_handles st) = map snd (drop ?n es')" using p(2) snds by simp
  ultimately show ?thesis unfolding stream_pending_def using p(3) by blast
qed

end

lemma merge_next_record_Some: "merge_next nxt m = (m', Some (Inr y)) \<Longrightarrow> merge_next_record nxt m = (m', Inr (Some y))"
  by (auto simp: merge_next_def split: prod.splits sum.splits option.splits)

lemma merge_next_record_None: "merge_next nxt m = (m', None) \<Longrightarrow> merge_next_record nxt m = (m', Inr None)"
  by (auto simp: merge_next_def split: prod.splits sum.splits option.splits)

lemma record_of_sel [simp]: "rec_key (record_of x) = fst x" "rec_value (record_of x) = hit_value (snd x)"
  "rec_seqno (record_of x) = hit_seqno (snd x)" "rec_op (record_of x) = hit_op (snd x)"
  by (simp_all add: record_of_def)

context file_store
begin

definition merger_on :: "externs \<Rightarrow> 's \<Rightarrow> 'f \<Rightarrow> 'h sst_stream kway_merge \<Rightarrow> bool" where
  "merger_on E s f m \<longleftrightarrow> (\<forall>st \<in> set (km_streams m). stream_on E s st \<and> fid (rd_file (ss_reader st)) \<noteq> f)"

lemma merger_on_next:
  assumes "merger_on E s f m" "merge_next_record (stream_next E V s) m = (m', r)" shows "merger_on E s f m'"
  unfolding merger_on_def
  using merge_next_streams [of "\<lambda>st. stream_on E s st \<and> fid (rd_file (ss_reader st)) \<noteq> f", OF _ _ assms(2)]
    assms(1) stream_on_next stream_next_fields unfolding merger_on_def by metis

lemma stream_on_live: "stream_on E s st \<Longrightarrow> live s (fid (rd_file (ss_reader st)))"
  unfolding stream_on_def backs_def by blast

lemma merger_frame:
  assumes on: "merger_on E s f m" and owe: "record_source.merge_owes (stream_pending E V s) m ys" and g: "grew f d s s'"
  shows "merger_on E s' f m" "record_source.merge_owes (stream_pending E V s') m ys"
proof -
  have st: "stream_on E s st" "live s' (fid (rd_file (ss_reader st)))"
    "contents s' (fid (rd_file (ss_reader st))) = contents s (fid (rd_file (ss_reader st)))" "fid (rd_file (ss_reader st)) \<noteq> f"
    if "st \<in> set (km_streams m)" for st
    using on that g stream_on_live unfolding merger_on_def grew_def by auto
  show "merger_on E s' f m" unfolding merger_on_def using st stream_on_frame by blast
  show "record_source.merge_owes (stream_pending E V s') m ys"
  proof (rule merge_owes_mono [OF owe sst_source.record_source_axioms sst_source.record_source_axioms], intro ballI allI impI)
    fix st xs assume "st \<in> set (km_streams m)" "stream_pending E V s st xs"
    then show "stream_pending E V s' st xs" using stream_pending_frame st(1-3) by blast
  qed
qed

lemma compact_loop_ok:
  assumes "record_source.merge_owes (stream_pending E V s) m ys" "merger_on E s (fid (st_file w)) m"
    and "live s (fid (st_file w))" "table_state E c w bs bss cur" "filter_state E nb (st_bloom w) (concat bss @ cur)"
    and "sealable E c" "table_fits (concat bss @ cur @ map record_of ys)"
  shows "\<exists>w' s'. sst_add_all E V (map record_of ys) (w, s) = ((w', s'), Inr ()) \<and>
    compact_loop E V m (w, s) emitted = Some ((w', s'), Inr (emitted + of_nat (length ys)))"
  using assms
proof (induction ys arbitrary: m w s bs bss cur emitted)
  case Nil
  obtain m' where "merge_next (stream_next E V s) m = (m', None)" using sst_source.merge_next_Nil [OF Nil.prems(1)] by blast
  from merge_next_record_None [OF this] show ?case by (simp add: compact_loop.simps)
next
  case (Cons y ys)
  obtain m' where m': "merge_next (stream_next E V s) m = (m', Some (Inr y))" "record_source.merge_owes (stream_pending E V s) m' ys"
    using sst_source.merge_next_Cons [OF Cons.prems(1)] by blast
  note mr = merge_next_record_Some [OF m'(1)]
  have "table_fits (concat bss @ cur @ [record_of y])"
    using Cons.prems(7) table_fits_append [of "concat bss @ cur @ [record_of y]" "map record_of ys"] by simp
  from sst_add_ok [OF Cons.prems(3-6) this] obtain w1 s1 d1 bss1 cur1 where
    one: "sst_add E V (rec_key (record_of y)) (rec_value (record_of y)) (rec_seqno (record_of y)) (rec_op (record_of y)) (w, s) = ((w1, s1), Inr ())"
    "grew (fid (st_file w)) d1 s s1" "table_state E c w1 (bs @ d1) bss1 cur1" "concat bss1 @ cur1 = concat bss @ cur @ [record_of y]"
    "filter_state E nb (st_bloom w1) (concat bss1 @ cur1)" "same_config w w1" .
  have same_file: "st_file w1 = st_file w" using one(6) by (simp add: same_config_def)
  have tail: "concat bss1 @ cur1 @ map record_of ys = concat bss @ cur @ map record_of (y # ys)"
    using arg_cong [OF one(4), of "\<lambda>xs. xs @ map record_of ys"] by simp
  note fr = merger_frame [OF merger_on_next [OF Cons.prems(2) mr] m'(2) one(2)]
  have "live s1 (fid (st_file w1))" using Cons.prems(3) grew_live [OF one(2)] same_file by simp
  from Cons.IH [OF fr(2) fr(1) [folded same_file] this one(3,5) Cons.prems(6), unfolded tail, OF Cons.prems(7), of "emitted + 1"]
  obtain w' s' where r: "sst_add_all E V (map record_of ys) (w1, s1) = ((w', s'), Inr ())"
    "compact_loop E V m' (w1, s1) (emitted + 1) = Some ((w', s'), Inr (emitted + 1 + of_nat (length ys)))" by blast
  have "compact_loop E V m (w, s) emitted = Some ((w', s'), Inr (emitted + of_nat (length (y # ys))))"
    using mr one(1) r(2) by (subst compact_loop.simps) (cases y, simp add: add.assoc)
  then show ?case using one(1) r(1) by simp
qed

end

section \<open>What the writer keeps of the store\<close>

text \<open>
  The writer changes the store only through appends and positioned writes, so whatever these
  two keep is kept by every operation of the writer, on its error paths too.
\<close>

definition store_closed :: "('s, 'h) vfs \<Rightarrow> ('s \<Rightarrow> bool) \<Rightarrow> bool" where
  "store_closed V Q \<longleftrightarrow> (\<forall>h d s. Q s \<longrightarrow> Q (fst (v_append V h d s))) \<and> (\<forall>h d off s. Q s \<longrightarrow> Q (fst (v_write_at V h d off s)))"

definition keeps :: "('s \<Rightarrow> bool) \<Rightarrow> ('s, 'h, 'a) sst_io \<Rightarrow> bool" where
  "keeps Q m \<longleftrightarrow> (\<forall>w s. Q s \<longrightarrow> Q (snd (fst (m (w, s)))))"

lemma keeps_bind:
  assumes "keeps Q m" "\<And>x. keeps Q (f x)" shows "keeps Q (io_bind m f)"
  unfolding keeps_def
proof (intro allI impI)
  fix w s assume "Q s"
  obtain w' s' r where m: "m (w, s) = ((w', s'), r)" by (metis prod.exhaust)
  then have "Q s'" using assms(1) \<open>Q s\<close> unfolding keeps_def by (metis fst_conv snd_conv)
  then show "Q (snd (fst (io_bind m f (w, s))))"
    using m assms(2) unfolding keeps_def by (cases r) simp_all
qed

lemma keeps_basic: "keeps Q (st_update f)" "keeps Q (st_pure g)" "keeps Q (io_return x)" "keeps Q (\<lambda>ws. (ws, r))"
  by (simp_all add: keeps_def)

lemma store_closedD:
  assumes "store_closed V Q" "Q s"
  shows "v_append V h d s = (s', r) \<Longrightarrow> Q s'" "v_write_at V h d off s = (s', u) \<Longrightarrow> Q s'"
  using assms unfolding store_closed_def by (metis fst_conv)+

lemma keeps_st_append:
  fixes V :: "('s, 'h) vfs"
  assumes "store_closed V Q" shows "keeps Q (st_append V d)"
  unfolding keeps_def
proof (intro allI impI)
  fix w :: "'h sst_writer" and s assume "Q s"
  obtain s' r where "v_append V (st_file w) d s = (s', r)" by (cases "v_append V (st_file w) d s")
  then show "Q (snd (fst (st_append V d (w, s))))" using store_closedD(1) [OF assms \<open>Q s\<close>] by (cases r) (auto simp: st_append_def)
qed

lemma keeps_local: "(\<And>w s. keeps Q (m w s)) \<Longrightarrow> keeps Q (\<lambda>(w, s). m w s (w, s))"
  unfolding keeps_def by simp

lemma keeps_if: "keeps Q m \<Longrightarrow> keeps Q m' \<Longrightarrow> keeps Q (\<lambda>(w, s). if b w s then m (w, s) else m' (w, s))"
  unfolding keeps_def by simp

lemma keeps_done: "keeps Q (\<lambda>(w, s). ((w, s), r w s))"
  unfolding keeps_def by simp

lemmas keeps_rules = keeps_bind keeps_basic keeps_st_append keeps_local keeps_if keeps_done

lemma keeps_align:
  assumes "store_closed V Q" shows "keeps Q (align_to_block_boundary V)"
  using keeps_st_append [OF assms] unfolding align_to_block_boundary_def keeps_def Let_def by simp

lemma keeps_write_block:
  assumes "store_closed V Q" shows "keeps Q (write_block E V bs)"
  unfolding write_block_def Let_def
  by (intro keeps_local keeps_bind keeps_basic) (auto intro!: keeps_bind keeps_basic keeps_st_append [OF assms] keeps_align [OF assms])

lemma keeps_flush_block:
  assumes "store_closed V Q" shows "keeps Q (flush_block E V)"
proof -
  have "keeps Q (io_bind (st_pure (\<lambda>w. block_finish E (st_data_builder w))) (\<lambda>(builder, bs).
      io_bind (st_update (\<lambda>w. w\<lparr>st_data_builder := builder\<rparr>)) (\<lambda>_. io_bind (write_block E V bs) (\<lambda>handle.
      st_update (\<lambda>w. w\<lparr>st_pending_index := st_pending_index w @ [(st_last_key w, handle)], st_last_key := [],
        st_num_blocks := st_num_blocks w + 1\<rparr>)))))"
    by (intro keeps_bind keeps_basic) (auto intro!: keeps_bind keeps_basic keeps_write_block [OF assms])
  then show ?thesis unfolding flush_block_def keeps_def by simp
qed

lemma keeps_sst_add:
  assumes "store_closed V Q" shows "keeps Q (sst_add E V key val seqno op)"
  unfolding sst_add_def
  using keeps_flush_block [OF assms, of E] by (intro keeps_bind keeps_basic) (simp add: keeps_def)

lemma keeps_sst_add_all:
  assumes "store_closed V Q" shows "keeps Q (sst_add_all E V rs)"
  by (induction rs) (auto intro!: keeps_bind keeps_basic keeps_sst_add [OF assms])

lemma keeps_write_filter:
  assumes "store_closed V Q" shows "keeps Q (write_filter V)"
proof -
  have "keeps Q (io_bind (st_update (\<lambda>w. w\<lparr>st_bloom := None\<rparr>)) (\<lambda>_. io_bind (st_pure (\<lambda>w. bloom_encode b)) (\<lambda>bs.
     let offset = off in io_bind (st_append V bs) (\<lambda>_. io_bind (st_pure (\<lambda>w. u32_length bs ''filter block fits in u32'')) (\<lambda>len.
     io_return \<lparr>bh_offset = of_nat offset, bh_length = len, bh_checksum = 0\<rparr>)))))" for b off
    unfolding Let_def by (intro keeps_bind keeps_basic keeps_st_append [OF assms])
  then show ?thesis unfolding write_filter_def keeps_def by (auto split: option.split)
qed

lemma keeps_write_index:
  assumes "store_closed V Q" shows "keeps Q (write_index E V)"
  unfolding write_index_def Let_def by (intro keeps_bind keeps_local keeps_basic keeps_st_append [OF assms])

lemma keeps_sst_finish:
  assumes "store_closed V Q" shows "keeps Q (sst_finish E V)"
proof -
  have last: "keeps Q (\<lambda>(w, s). let header = final_header E encrypted off w; (s, r) = v_write_at V (st_file w) (file_header_bytes header) 0 s
      in case r of Inl e \<Rightarrow> ((w, s), Inl e) | Inr _ \<Rightarrow> ((w, s), Inr (st_file w)))" for encrypted off
    unfolding keeps_def Let_def
    by (auto split: prod.split sum.split dest: store_closedD(2) [OF assms])
  show ?thesis unfolding sst_finish_def Let_def
    by (intro keeps_bind keeps_flush_block [OF assms] keeps_local keeps_write_filter [OF assms] keeps_write_index [OF assms]
        keeps_st_append [OF assms] last [unfolded Let_def])
qed

section \<open>Correctness\<close>

definition enc_ctx :: "(aead_key \<times> u64) option \<Rightarrow> encryption_ctx option" where
  "enc_ctx k = map_option (\<lambda>(key, sst_id). \<lparr>ec_aead = aead_new key, ec_sstable_id = sst_id\<rparr>) k"

lemma create_output_eq:
  "create_output E V config n file = sst_create_inner E V file (cc_checksum config) n (cc_bloom config) (enc_ctx (cc_encryption config))"
  by (auto simp: create_output_def enc_ctx_def create_encrypted_def create_with_filter_capacity_def split: option.split)

lemma reopen_output_eq: "reopen_output E V config s file = sst_open_inner E V s file (dec_ctx (enc_ctx (cc_encryption config)))"
  by (auto simp: reopen_output_def enc_ctx_def dec_ctx_def sst_open_def sst_open_encrypted_def split: option.split)

definition block_entries :: "block_record list list \<Rightarrow> hit_entry list" where
  "block_entries bss = map entry_of (concat bss)"

definition merged_entries :: "block_record list list list \<Rightarrow> hit_entry list" where
  "merged_entries bsss = sort_key rank (concat (map block_entries bsss))"

lemma merged_records: "mset (map record_of (merged_entries bsss)) = mset (concat (map concat bsss))"
proof -
  have "mset (map record_of (merged_entries bsss)) = mset (map record_of (concat (map block_entries bsss)))"
    unfolding merged_entries_def mset_map mset_sort by (rule refl)
  moreover have "map record_of (concat (map block_entries bsss)) = concat (map concat bsss)"
    by (induction bsss) (simp_all add: block_entries_def comp_def)
  ultimately show ?thesis by metis
qed

lemma table_fits_mset: "mset xs = mset ys \<Longrightarrow> table_fits xs \<longleftrightarrow> table_fits ys"
proof -
  assume m: "mset xs = mset ys"
  have "set xs = set ys" using m by (rule mset_eq_setD)
  moreover have "data_size xs = data_size ys" unfolding data_size_def
    using arg_cong [OF m, of "\<lambda>M. sum_mset (image_mset (\<lambda>r. 64 + length (rec_key r) + length (rec_value r)) M)"]
    by (simp flip: sum_mset_sum_list)
  ultimately show ?thesis by (simp add: table_fits_def list_all_iff)
qed

lemma created_block_size:
  assumes "sst_create_inner E V h alg n params c s = (s', Inr w)" shows "set_block_size DEFAULT_BLOCK_SIZE w = w"
proof -
  obtain s1 r where "v_append V h (replicate FILE_HEADER_REGION_SIZE 0) s = (s1, r)" by (metis prod.exhaust)
  then show ?thesis using assms
    by (cases r) (auto simp: sst_create_inner_def io_bind_def io_read_def io_return_def set_block_size_def result_simps
        split: if_splits sum.splits)
qed

context file_store
begin

lemma open_streams_ok:
  assumes "list_all2 (backs E s) inputs bsss"
  shows "\<exists>streams. open_streams E inputs = Inr streams \<and> list_all2 (stream_pending E V s) streams (map block_entries bsss) \<and>
    map ss_reader streams = inputs \<and> (\<forall>st \<in> set streams. stream_on E s st)"
  using assms
proof (induction inputs bsss rule: list_all2_induct)
  case (Cons r rs bss bsss)
  obtain st where st: "scan_stream E r = Inr st" "stream_pending E V s st (block_entries bss)" "ss_reader st = r"
    using scan_stream_ok [OF backs_serves [OF Cons.hyps(1)]] by (auto simp: block_entries_def)
  have "stream_on E s st" unfolding stream_on_def st(3) using Cons.hyps(1) st(1) by blast
  moreover obtain streams where "open_streams E rs = Inr streams" "list_all2 (stream_pending E V s) streams (map block_entries bsss)"
    "map ss_reader streams = rs" "\<forall>st \<in> set streams. stream_on E s st" using Cons.IH by blast
  ultimately show ?case using st by (intro exI [of _ "st # streams"]) simp
qed simp

lemma write_table_loop:
  assumes live: "live s (fid h)" and empty: "contents s (fid h) = []" and fs: "filter_sized E n params"
    and seal: "sealable E c" and fits: "table_fits (map record_of ys)"
    and owe: "record_source.merge_owes (stream_pending E V s) m ys" "merger_on E s (fid h) m"
  obtains w s1 w1 s2 w2 s3 where "sst_create_inner E V h alg n params c s = (s1, Inr w)"
    "compact_loop E V m (w, s1) 0 = Some ((w1, s2), Inr (of_nat (length ys)))" "sst_finish E V (w1, s2) = ((w2, s3), Inr h)"
    "write_table E V h alg n params c DEFAULT_BLOCK_SIZE (map record_of ys) s = (s3, Inr h)"
proof -
  obtain w s1 nb where w: "sst_create_inner E V h alg n params c s = (s1, Inr w)"
    "grew (fid h) zero_region s s1" "table_state E c (set_block_size DEFAULT_BLOCK_SIZE w) zero_region [] []"
    "filter_state E nb (st_bloom w) []" "unat nb < 2 ^ 25" "st_file w = h" "st_checksum_alg w = alg" "st_bloom w = None \<longleftrightarrow> n = 0"
    using sst_create_ok [OF live empty fs] .
  note bsz = created_block_size [OF w(1)]
  note fr = merger_frame [OF owe(2,1) w(2), folded w(6)]
  have "live s1 (fid (st_file w))" using live grew_live [OF w(2)] w(6) by simp
  moreover have "filter_state E nb (st_bloom w) (concat [] @ [])" "table_fits (concat [] @ [] @ map record_of ys)" using w(4) fits by simp_all
  ultimately obtain w1 s2 where l: "sst_add_all E V (map record_of ys) (w, s1) = ((w1, s2), Inr ())"
    "compact_loop E V m (w, s1) 0 = Some ((w1, s2), Inr (of_nat (length ys)))"
    using compact_loop_ok [OF fr(2,1) _ w(3) [unfolded bsz] _ seal, of nb 0] by auto
  obtain s3 where s3: "write_table E V h alg n params c DEFAULT_BLOCK_SIZE (map record_of ys) s = (s3, Inr h)"
    using write_table_ok [OF live empty fs seal fits] by metis
  obtain w2 s4 r where f: "sst_finish E V (w1, s2) = ((w2, s4), r)" by (metis prod.exhaust)
  have "write_table E V h alg n params c DEFAULT_BLOCK_SIZE (map record_of ys) s = (s4, r)"
    using w(1) l(1) f by (simp add: write_table_def bsz)
  then show thesis using that [OF w(1) l(2)] f s3 by simp
qed

lemma written_opens:
  assumes live: "live s (fid h)" and tw: "table_written E c alg n rs (contents s (fid h))"
    and fs: "filter_sized E n params" and seal: "sealable E c" and fits: "table_fits rs"
  obtains r bss where "sst_open_inner E V s h (dec_ctx c) = Inr r" "backs E s r bss" "concat bss = rs" "table_reader E c alg bss r" "rd_file r = h"
proof -
  obtain bloom bss nb where t: "contents s (fid h) = table_bytes E c alg bloom bss" "concat bss = rs" "[] \<notin> set bss"
    "filter_state E nb bloom (concat bss)" "unat nb < 2 ^ 25" "bloom = None \<longleftrightarrow> n = 0" using tw unfolding table_written_def by blast
  have "table_fits (concat bss)" "bloom = None \<or> allocates E" using fits t(2,6) fs by (auto simp: filter_sized_def)
  from sst_open_ok [OF live t(1) this(1) t(3) seal t(4,5) this(2)] obtain r where
    r: "sst_open_inner E V s h (dec_ctx c) = Inr r" "backs E s r bss" "table_reader E c alg bss r" "rd_file r = h" .
  show thesis by (rule that [OF r(1,2) t(2) r(3,4)])
qed

lemma backs_list_frame:
  assumes "list_all2 (backs E s) rs bsss" "\<forall>f. live s f \<longrightarrow> live s' f \<and> contents s' f = contents s f"
  shows "list_all2 (backs E s') rs bsss"
  using assms(1)
proof (rule list_all2_mono)
  fix r bss assume "backs E s r bss"
  then show "backs E s' r bss" using assms(2) unfolding backs_def by auto
qed

end

context file_system
begin

lemma dir_closed: "store_closed V (\<lambda>s. wf s \<and> dir s = d)"
  unfolding store_closed_def using append_dir write_at_dir by (metis prod.collapse)

lemma create_keeps_dir:
  assumes "sst_create_inner E V h alg n params c s = (s', r)" "wf s" shows "wf s' \<and> dir s' = dir s"
proof -
  obtain s1 r1 where a: "v_append V h (replicate FILE_HEADER_REGION_SIZE 0) s = (s1, r1)" by (metis prod.exhaust)
  have "s' = s1" using assms(1) a
    by (cases r1) (auto simp: sst_create_inner_def io_bind_def io_read_def io_return_def split: if_splits sum.splits)
  then show ?thesis using append_dir [OF assms(2) a] by simp
qed

lemma write_table_keeps_dir:
  assumes "write_table E V h alg n params c k rs s = (s', r)" "wf s" shows "wf s' \<and> dir s' = dir s"
proof -
  obtain s1 r1 where c: "sst_create_inner E V h alg n params c s = (s1, r1)" by (metis prod.exhaust)
  note k1 = create_keeps_dir [OF c assms(2)]
  have "keeps (\<lambda>s. wf s \<and> dir s = d) (io_bind (sst_add_all E V rs) (\<lambda>_. sst_finish E V))" for d
    by (intro keeps_bind keeps_sst_add_all keeps_sst_finish dir_closed)
  then have k2: "io_bind (sst_add_all E V rs) (\<lambda>_. sst_finish E V) (w, s1) = ((w', s2), r2) \<Longrightarrow> wf s2 \<and> dir s2 = dir s" for w w' s2 r2
    using k1 unfolding keeps_def by (metis fst_conv snd_conv)
  show ?thesis using assms(1) c k1 by (cases r1) (auto simp: write_table_def split: prod.splits dest: k2)
qed

lemma compact_sstables_ok:
  assumes wf: "wf s" and new: "dir s path = None" and ins: "list_all2 (backs E s) inputs bsss"
    and sorted: "\<forall>bss \<in> set bsss. rank_sorted (block_entries bss)" and seal: "sealable E (enc_ctx (cc_encryption config))"
    and fs: "filter_sized E (max (cc_bloom_capacity_floor config) (estimate_total_entries inputs)) (cc_bloom config)"
    and fits: "table_fits (concat (map concat bsss))"
  obtains s' r bss where "compact_sstables E V inputs path config s =
      Some (s', Inr \<lparr>co_reader = r, co_records_emitted = of_nat (length (concat (map concat bsss)))\<rparr>)"
    "backs E s' r bss" "block_entries bss = merged_entries bsss" "table_reader E (enc_ctx (cc_encryption config)) (cc_checksum config) bss r"
    "wf s'" "dir s' = (dir s)(path \<mapsto> fid (rd_file r))" "\<not> live s (fid (rd_file r))" "\<forall>f. live s f \<longrightarrow> live s' f \<and> contents s' f = contents s f"
proof -
  define c n ys where "c = enc_ctx (cc_encryption config)"
    and "n = max (cc_bloom_capacity_floor config) (estimate_total_entries inputs)" and "ys = merged_entries bsss"
  obtain s0 h where h: "v_open_writable V path s = (s0, Inr h)" "wf s0" "dir s0 = (dir s)(path \<mapsto> fid h)" "live s0 (fid h)"
    "\<forall>f. live s f \<longrightarrow> live s0 f \<and> contents s0 f = contents s f" "\<not> live s (fid h)" "contents s0 (fid h) = []"
    using open_writable_ok [OF wf, of path] new by auto
  have "list_all2 (backs E s0) inputs bsss" by (rule backs_list_frame [OF ins h(5)])
  then obtain streams where st: "open_streams E inputs = Inr streams" "list_all2 (stream_pending E V s0) streams (map block_entries bsss)"
    "map ss_reader streams = inputs" "\<forall>st \<in> set streams. stream_on E s0 st" using open_streams_ok by blast
  have "record_source.merge_owes (stream_pending E V s0) (kway_merge_new streams) ys"
    unfolding ys_def merged_entries_def by (rule sst_source.merge_owes_new [OF st(2)]) (use sorted in simp)
  moreover have "fid (rd_file r) \<noteq> fid h" if "r \<in> set inputs" for r
  proof -
    have "\<exists>bss. backs E s r bss" using ins that by (metis in_set_conv_nth list_all2_conv_all_nth)
    then show ?thesis using h(6) unfolding backs_def by auto
  qed
  then have "merger_on E s0 (fid h) (kway_merge_new streams)"
    unfolding merger_on_def using st(3,4) by (auto simp: kway_merge_new_def)
  moreover have mfits: "table_fits (map record_of ys)" unfolding ys_def table_fits_mset [OF merged_records] by (rule fits)
  ultimately obtain w s1 w1 s2 w2 s3 where run: "sst_create_inner E V h (cc_checksum config) n (cc_bloom config) c s0 = (s1, Inr w)"
    "compact_loop E V (kway_merge_new streams) (w, s1) 0 = Some ((w1, s2), Inr (of_nat (length ys)))" "sst_finish E V (w1, s2) = ((w2, s3), Inr h)"
    "write_table E V h (cc_checksum config) n (cc_bloom config) c DEFAULT_BLOCK_SIZE (map record_of ys) s0 = (s3, Inr h)"
    using write_table_loop [OF h(4,7) fs [folded n_def] seal [folded c_def]] by metis
  obtain tw: "table_written E c (cc_checksum config) n (map record_of ys) (contents s3 (fid h))"
    and oth: "\<forall>f. f \<noteq> fid h \<longrightarrow> contents s3 f = contents s0 f" and lv: "live s3 = live s0"
    using write_table_ok [OF h(4,7) fs [folded n_def] seal [folded c_def] mfits] run(4) by (metis prod.inject)
  note wd = write_table_keeps_dir [OF run(4) h(2)]
  obtain h' where h': "v_open_readonly V path s3 = (s3, Inr h')" "fid h' = fid h" using open_readonly_ok [of s3 path] wd h(3) by auto
  have "live s3 (fid h')" "table_written E c (cc_checksum config) n (map record_of ys) (contents s3 (fid h'))" using tw h(4) lv h'(2) by simp_all
  from written_opens [OF this fs [folded n_def] seal [folded c_def] mfits] obtain r bss where
    r: "sst_open_inner E V s3 h' (dec_ctx c) = Inr r" "backs E s3 r bss" "concat bss = map record_of ys" "table_reader E c (cc_checksum config) bss r" "rd_file r = h'" .
  have len: "length ys = length (concat (map concat bsss))" using mset_eq_length [OF merged_records, of bsss] by (simp add: ys_def)
  have "compact_sstables E V inputs path config s = Some (s3, Inr \<lparr>co_reader = r, co_records_emitted = of_nat (length (concat (map concat bsss)))\<rparr>)"
    using st(1) h(1) run(1-3) h'(1) r(1) len
    by (simp add: compact_sstables_def create_output_eq reopen_output_eq io_bind_def n_def c_def)
  moreover have "block_entries bss = merged_entries bsss" unfolding block_entries_def r(3) by (simp add: comp_def ys_def)
  moreover have "\<forall>f. live s f \<longrightarrow> live s3 f \<and> contents s3 f = contents s f" using h(5,6) oth lv by metis
  ultimately show thesis using that [of s3 r bss] r(2,4) wd h(3,6) h'(2) unfolding c_def r(5) by simp
qed

end

section \<open>Properties\<close>

text \<open>
  C30. Compaction merges its inputs.  For any number of finished tables whose records are in key
  order with the newest version first, compaction into a fresh path ends, and the table it writes
  holds exactly the records of all inputs, in key order with the newest version of a key
  first and records that agree in both in the order of the inputs; nothing is dropped, tombstones included.
  It reports the number of records, enters the path and no other name in the directory, and the inputs still
  read as before.
\<close>

theorem compaction_merges:
  assumes "mem_wf s" "mem_dir s path = None" "list_all2 (mem.backs E s) inputs bsss"
    and "\<forall>bss \<in> set bsss. rank_sorted (block_entries bss)" "sealable E (enc_ctx (cc_encryption config))"
    and "filter_sized E (max (cc_bloom_capacity_floor config) (estimate_total_entries inputs)) (cc_bloom config)"
    and "table_fits (concat (map concat bsss))"
  shows "\<exists>s' r. compact_sstables E MemVfs inputs path config s =
      Some (s', Inr \<lparr>co_reader = r, co_records_emitted = of_nat (length (concat (map concat bsss)))\<rparr>) \<and>
    sst_scan E MemVfs s' r = Inr (sort_key rank (concat (map block_entries bsss))) \<and>
    mem_dir s' = (mem_dir s)(path \<mapsto> rd_file r) \<and>
    list_all2 (\<lambda>sst bss. sst_scan E MemVfs s' sst = Inr (block_entries bss)) inputs bsss"
proof -
  obtain s' r bss where c: "compact_sstables E MemVfs inputs path config s =
      Some (s', Inr \<lparr>co_reader = r, co_records_emitted = of_nat (length (concat (map concat bsss)))\<rparr>)"
    "mem.backs E s' r bss" "block_entries bss = merged_entries bsss" "mem_dir s' = (mem_dir s)(path \<mapsto> id (rd_file r))"
    "\<forall>f. mem_live s f \<longrightarrow> mem_live s' f \<and> mem_contents s' f = mem_contents s f"
    using mem.compact_sstables_ok [OF assms] by metis
  have scan: "sst_scan E MemVfs s' r = Inr (block_entries bss)" if "mem.backs E s' r bss" for r bss
    using sst_scan_ok [OF mem.backs_serves [OF that]] by (simp add: block_entries_def)
  have "list_all2 (\<lambda>sst bss. sst_scan E MemVfs s' sst = Inr (block_entries bss)) inputs bsss"
    using mem.backs_list_frame [OF assms(3) c(5)] by (rule list_all2_mono) (rule scan)
  then show ?thesis using c(1,4) scan [OF c(2)] c(3) by (simp add: merged_entries_def)
qed

definition sample_config :: compaction_config where
  "sample_config = compaction_config_default\<lparr>cc_bloom := \<lparr>bp_num_hashes = 8, bp_bits_per_key = 1\<rparr>\<rparr>"

lemma sample_filter_sized:
  "filter_sized (undefined\<lparr>ext_alloc := \<lambda>sz align. Some align\<rparr>) (max (cc_bloom_capacity_floor sample_config) (estimate_total_entries [r]))
     (cc_bloom sample_config)"
proof -
  define n where "n = max (cc_bloom_capacity_floor sample_config) (estimate_total_entries [r])"
  have "estimate_total_entries [r] < 2 ^ 32"
    using unsigned_less [of "bh_length (ft_index_handle (rd_footer r))", where ?'a = nat] by (simp add: estimate_total_entries_def saturating_add_usize_def)
  then have n: "1024 \<le> n" "n < 2 ^ 32" by (simp_all add: n_def sample_config_def compaction_config_default_def)
  have "unat (of_nat n * ucast (1 :: u8) :: u64) = n" using n by (simp add: unat_of_nat take_bit_nat_eq_self)
  then have "unat (bloom_num_blocks n (cc_bloom sample_config)) = max ((n + 511) div 512) 1"
    using n by (simp add: bloom_num_blocks_def sample_config_def Let_def BLOCK_BITS_def max_def unat_of_nat take_bit_nat_eq_self
        word_le_nat_alt)
  moreover have "max ((n + 511) div 512) 1 < 2 ^ 25" using n(2) by simp
  ultimately show ?thesis unfolding n_def [symmetric] filter_sized_def by (simp add: allocates_def sample_config_def)
qed

theorem compaction_merges_witness:
  "\<exists>s sst s' r. compact_sstables (undefined\<lparr>ext_alloc := \<lambda>sz align. Some align\<rparr>) MemVfs [sst] ''b'' sample_config s =
       Some (s', Inr \<lparr>co_reader = r, co_records_emitted = 2\<rparr>) \<and>
     sst_scan (undefined\<lparr>ext_alloc := \<lambda>sz align. Some align\<rparr>) MemVfs s' r = Inr (map entry_of sample_records)"
proof -
  define E where "E = (undefined :: externs)\<lparr>ext_alloc := \<lambda>sz align. Some align\<rparr>"
  let ?s = "\<lparr>mv_files = [(''a'', 0)], mv_heap = [[]]\<rparr>"
  have fs: "filter_sized E 0 bloom_params_default" "sealable E None" by (simp_all add: filter_sized_def sealable_def)
  have "mem_live ?s (id 0)" "mem_contents ?s (id 0) = []" by simp_all
  from mem.table_round_trip [OF this fs sample_records_fit(1), of Crc32c 4096] obtain s sst bss where
    t: "write_table E MemVfs 0 Crc32c 0 bloom_params_default None 4096 sample_records ?s = (s, Inr 0)" "mem.backs E s sst bss"
      "concat bss = sample_records" by metis
  have d: "mem_wf s \<and> mem_dir s = mem_dir ?s" by (rule mem.write_table_keeps_dir [OF t(1)]) (simp add: mem_wf_def)
  have "rank_sorted (block_entries bss)" by (simp add: block_entries_def t(3) sample_records_def rank_def entry_of_def into_hit_def)
  moreover have "sort_key rank (block_entries bss) = map entry_of sample_records"
    by (simp add: block_entries_def t(3) sample_records_def rank_def entry_of_def into_hit_def)
  moreover have "sealable E (enc_ctx (cc_encryption sample_config))"
    by (simp add: sample_config_def compaction_config_default_def enc_ctx_def sealable_def)
  ultimately show ?thesis
    using compaction_merges [of s "''b''" E "[sst]" "[bss]" sample_config] d t(2,3) sample_records_fit(1) sample_filter_sized [of sst, folded E_def]
    unfolding E_def [symmetric] by (auto simp: sample_records_def)
qed

end
