(* ===== verification/Spec2Isabelle.thy ===== *)
theory Spec2Isabelle
  imports Batch WalReader SkipList Compact
begin

text \<open>
  A verification development of PaddockKV, a log-structured key-value store
  (\<^verbatim>\<open>crates/paddock-core\<close>).

  \<^item> Prelude: the error tree, results, slices, little-endian integers.
  \<^item> Varint: the LEB128 codec of encoding/varint.rs, with round trips and canonicity.
\<close>

end
